(* ===== verification/Prelude.thy ===== *)
theory Prelude
  imports Main "HOL-Library.Word" "HOL-Library.Monad_Syntax"
begin

text \<open>
  Shared vocabulary of the development: the machine integers of the sources, the
  exceptions the modelled functions throw and the two ways a C++ function can fail.

  \<^item> A violated \<^verbatim>\<open>assert\<close> (or an out-of-range vector access guarded by one) is the value
    \<open>None\<close> of an \<open>option\<close>; such functions are written with the library's \<open>do\<close> syntax.
  \<^item> A thrown exception (\<^verbatim>\<open>EOS_ASSERT\<close>, \<^verbatim>\<open>EOS_THROW\<close>, \<^verbatim>\<open>FC_ASSERT\<close>) is \<open>Inl e\<close> of the sum type
    \<open>chain_error + 'a\<close>; such functions are chained with \<open>bind_res\<close>. A step with undefined behaviour
    (a shift by at least the width, an index out of range) is the error \<open>undefined_behaviour\<close>, and a loop that does
    not end is \<open>no_termination\<close>.

  The rest are generic facts on words and lists that the component theories share.
\<close>

unbundle bit_operations_syntax

section \<open>Machine integers\<close>

type_synonym u8 = "8 word"
type_synonym u16 = "16 word"
type_synonym u32 = "32 word"
type_synonym u64 = "64 word"
type_synonym u128 = "128 word"

text \<open>\<^verbatim>\<open>uint32_t\<close> block numbers and the \<^verbatim>\<open>slot\<close> of a \<^verbatim>\<open>block_timestamp_type\<close>.\<close>

type_synonym block_num_type = u32
type_synonym block_timestamp_type = u32

section \<open>Failure\<close>

datatype chain_error =
    invalid_qc_claim
  | finalizer_exception
  | finalizer_safety_exception
  | chain_exception
  | fork_database_exception
  | unlinkable_block_exception
  | fork_db_block_not_found
  | rate_limiting_state_inconsistent
  | resource_limit_exception
  | calc_overflow_exception
  | substraction_insufficent_exception
  | tx_gas_usage_exceeded
  | tx_gas_exception
  | block_resource_exhausted
  | resource_exhausted_exception
  | transaction_exception
  | asset_type_exception
  | overflow_exception
  | fc_assert_exception
  | unknown_key_exception
  | wasm_execution_error
  | invalid_block_header_extension
  | invalid_block_extension
  | ill_formed_protocol_feature_activation
  | protocol_feature_exception
  | protocol_feature_validation_exception
  | protocol_feature_bad_block_exception
  | action_validate_exception
  | irrelevant_auth_exception
  | unsatisfied_authorization
  | name_type_exception
  | symbol_type_exception
  | permission_query_exception
  | snapshot_exception
  | tx_decompression_error
  | expired_tx_exception
  | invalid_ref_block_exception
  | tx_duplicate
  | block_log_exception
  | plugin_exception
  | wrong_producer
  | producer_schedule_exception
  | block_validate_exception
  | wrong_signing_key
  | no_block_signatures
  | out_of_range_exception
  | logic_error
  | undefined_behaviour
  | no_termination
  | failed_assertion

type_synonym 'a res = "chain_error + 'a"

definition bind_res :: "'a res \<Rightarrow> ('a \<Rightarrow> 'b res) \<Rightarrow> 'b res" where
  "bind_res m f = (case m of Inl e \<Rightarrow> Inl e | Inr x \<Rightarrow> f x)"

text \<open>\<^verbatim>\<open>EOS_ASSERT(cond, exception, ...)\<close>.\<close>

definition eos_assert :: "bool \<Rightarrow> chain_error \<Rightarrow> unit res" where
  "eos_assert b e = (if b then Inr () else Inl e)"

text \<open>C++ \<^verbatim>\<open>assert(cond)\<close>.\<close>

definition assert_opt :: "bool \<Rightarrow> unit option" where
  "assert_opt b = (if b then Some () else None)"

text \<open>A function that only asserts, called from one that throws.\<close>

definition asserted :: "'a option \<Rightarrow> 'a res" where
  "asserted x = (case x of None \<Rightarrow> Inl failed_assertion | Some v \<Rightarrow> Inr v)"

text \<open>The value of a loop, written as a partial function; the loop itself may throw.\<close>

definition returning :: "'a res option \<Rightarrow> 'a res" where
  "returning x = (case x of None \<Rightarrow> Inl no_termination | Some r \<Rightarrow> r)"

named_theorems res_simps \<open>evaluation and inversion of the failure monads\<close>

lemma bind_res_simps [simp]:
  "bind_res (Inl e) f = Inl e"
  "bind_res (Inr x) f = f x"
  by (simp_all add: bind_res_def)

lemma bind_res_Inr_iff [res_simps]:
  "bind_res m f = Inr y \<longleftrightarrow> (\<exists>x. m = Inr x \<and> f x = Inr y)"
  by (cases m) auto

lemma bind_res_Inl_iff [res_simps]:
  "bind_res m f = Inl e \<longleftrightarrow> m = Inl e \<or> (\<exists>x. m = Inr x \<and> f x = Inl e)"
  by (cases m) auto

lemma eos_assert_simps [simp]:
  "eos_assert True e = Inr ()"
  "eos_assert False e = Inl e"
  by (simp_all add: eos_assert_def)

lemma eos_assert_Inr_iff [res_simps]: "eos_assert b e = Inr u \<longleftrightarrow> b"
  by (simp add: eos_assert_def)

lemma eos_assert_Inl_iff [res_simps]: "eos_assert b e = Inl e' \<longleftrightarrow> \<not> b \<and> e' = e"
  by (auto simp add: eos_assert_def)

lemma assert_opt_simps [simp]:
  "assert_opt True = Some ()"
  "assert_opt False = None"
  by (simp_all add: assert_opt_def)

lemma assert_opt_Some_iff [res_simps]: "assert_opt b = Some u \<longleftrightarrow> b"
  by (simp add: assert_opt_def)

lemma returning_simps [simp]: "returning None = Inl no_termination" "returning (Some r) = r"
  by (simp_all add: returning_def)

lemma asserted_simps [simp]:
  "asserted None = Inl failed_assertion"
  "asserted (Some x) = Inr x"
  by (simp_all add: asserted_def)

lemma asserted_Inr_iff [res_simps]: "asserted x = Inr v \<longleftrightarrow> x = Some v"
  by (cases x) auto

lemmas [res_simps] = bind_eq_Some_conv

section \<open>Words\<close>

text \<open>
  Comparisons are moved to \<open>nat\<close>, where linear arithmetic decides them; subtraction and
  successor carry the side condition under which they do not wrap.
\<close>

named_theorems to_nat \<open>unsigned word facts moved to natural numbers\<close>

lemmas [to_nat] = word_less_nat_alt word_le_nat_alt word_unat_eq_iff

lemma unat_sub_le [to_nat]:
  fixes a b :: "'a::len word"
  shows "b \<le> a \<Longrightarrow> unat (a - b) = unat a - unat b"
  by (rule unat_sub)

lemma unat_bound: "unat (w :: 'a::len word) < 2 ^ LENGTH('a)"
  by (rule unsigned_less)

lemma unat_Suc_no_wrap:
  fixes a :: "'a::len word"
  assumes "Suc (unat a) < 2 ^ LENGTH('a)"
  shows "unat (a + 1) = Suc (unat a)"
  using assms by (simp add: unat_word_ariths)

lemma unat_add_no_wrap:
  fixes a b :: "'a::len word"
  assumes "unat a + unat b < 2 ^ LENGTH('a)"
  shows "unat (a + b) = unat a + unat b"
  using assms by (simp add: unat_word_ariths)

lemma unat_mult_no_wrap:
  fixes a b :: "'a::len word"
  assumes "unat a * unat b < 2 ^ LENGTH('a)"
  shows "unat (a * b) = unat a * unat b"
  using assms by (simp add: unat_word_ariths)

section \<open>Lists\<close>

lemma successively_drop: "successively P xs \<Longrightarrow> successively P (drop n xs)"
  by (induction xs arbitrary: n rule: induct_list012) (auto simp: drop_Cons split: nat.splits)

lemma successively_snoc:
  "successively P (xs @ [x]) \<longleftrightarrow> successively P xs \<and> (xs \<noteq> [] \<longrightarrow> P (last xs) x)"
  by (auto simp: successively_append_iff)

lemma hd_drop: "n < length xs \<Longrightarrow> hd (drop n xs) = xs ! n"
  by (simp add: hd_drop_conv_nth)

lemma drop_snoc: "n \<le> length xs \<Longrightarrow> drop n (xs @ [x]) = drop n xs @ [x]"
  by simp

text \<open>A list whose neighbours are numbered consecutively is numbered by position.\<close>

lemma successively_numbered:
  fixes f :: "'a \<Rightarrow> nat"
  assumes "successively (\<lambda>a b. f b = Suc (f a)) xs" and "i < length xs"
  shows "f (xs ! i) = f (hd xs) + i"
  using assms
proof (induction i)
  case 0
  then show ?case by (cases xs) auto
next
  case (Suc i)
  then have "f (xs ! Suc i) = Suc (f (xs ! i))"
    by (simp add: successively_conv_nth)
  with Suc show ?case by simp
qed

lemma map_nth_upt: "n \<le> length xs \<Longrightarrow> map (nth xs) [p..<n] = drop p (take n xs)"
  by (simp add: list_eq_iff_nth_eq)

end
