(* ===== verification/Block_Types.thy ===== *)
theory Block_Types
  imports Prelude "HOL-Library.Signed_Division"
begin

text \<open>
  Block identifiers and block times: \<^verbatim>\<open>fc::sha256\<close> (libfc/include/fc/crypto/sha256.hpp and
  libfc/src/crypto/sha256.cpp), the endian helper of libfc/include/fc/bitutil.hpp,
  \<^verbatim>\<open>block_header::num_from_id\<close> and \<^verbatim>\<open>block_header::calculate_id\<close> (libraries/chain/block_header.cpp)
  and \<^verbatim>\<open>block_timestamp\<close> (block_timestamp.hpp). The computation of a SHA-256 digest belongs to
  OpenSSL and is never modelled: where a digest is needed it is a parameter.
\<close>

section \<open>Byte order\<close>

definition endian_reverse_u32 :: "u32 \<Rightarrow> u32" where
  "endian_reverse_u32 x =
     ((drop_bit 0x18 x AND 0xFF)
      OR push_bit 0x08 (drop_bit 0x10 x AND 0xFF)
      OR push_bit 0x10 (drop_bit 0x08 x AND 0xFF)
      OR push_bit 0x18 (x AND 0xFF))"

lemma byte_mask_u32: "(0xFF :: u32) = mask 8"
  by (simp add: mask_eq_exp_minus_1)

lemma bit_endian_reverse_u32:
  assumes "n < 8"
  shows "bit (endian_reverse_u32 x) n = bit x (n + 24)"
    and "bit (endian_reverse_u32 x) (n + 8) = bit x (n + 16)"
    and "bit (endian_reverse_u32 x) (n + 16) = bit x (n + 8)"
    and "bit (endian_reverse_u32 x) (n + 24) = bit x n"
  using assms unfolding endian_reverse_u32_def byte_mask_u32
  by (simp_all add: bit_simps add.commute)

lemma endian_reverse_u32_involutive [simp]:
  "endian_reverse_u32 (endian_reverse_u32 x) = x"
proof (rule bit_word_eqI)
  fix n assume "n < LENGTH(32)"
  then have "n < 32" by simp
  then consider "n < 8" | "8 \<le> n" "n - 8 < 8" | "16 \<le> n" "n - 16 < 8" | "24 \<le> n" "n - 24 < 8"
    by linarith
  then show "bit (endian_reverse_u32 (endian_reverse_u32 x)) n = bit x n"
  proof cases
    case 1
    then show ?thesis by (simp add: bit_endian_reverse_u32)
  next
    case 2
    then show ?thesis
      using bit_endian_reverse_u32(2,3)[of "n - 8"] by simp
  next
    case 3
    then show ?thesis
      using bit_endian_reverse_u32(2,3)[of "n - 16"] by simp
  next
    case 4
    then show ?thesis
      using bit_endian_reverse_u32(1,4)[of "n - 24"] by simp
  qed
qed

section \<open>Digests and block identifiers\<close>

text \<open>\<^verbatim>\<open>uint64_t _hash[4]\<close>.\<close>

datatype sha256 = Sha256 (hash0: u64) (hash1: u64) (hash2: u64) (hash3: u64)

type_synonym block_id_type = sha256
type_synonym digest_type = sha256

definition sha256_zero :: sha256 where
  "sha256_zero = Sha256 0 0 0 0"

definition sha256_empty :: "sha256 \<Rightarrow> bool" where
  "sha256_empty h = ((hash0 h OR hash1 h OR hash2 h OR hash3 h) = 0)"

lemma sha256_empty_iff: "sha256_empty h \<longleftrightarrow> h = sha256_zero"
proof -
  have or0: "a OR b = 0 \<longleftrightarrow> a = 0 \<and> b = 0" for a b :: u64
    by (metis or.left_neutral or_eq_0_iff)
  show ?thesis
    by (cases h) (simp add: sha256_empty_def sha256_zero_def or0)
qed

text \<open>The bytes of the array in memory order (little endian host), as \<^verbatim>\<open>memcmp\<close> reads them.\<close>

definition u64_bytes_le :: "u64 \<Rightarrow> u8 list" where
  "u64_bytes_le w = map (\<lambda>i. ucast (drop_bit (8 * i) w)) [0..<8]"

definition sha256_data :: "sha256 \<Rightarrow> u8 list" where
  "sha256_data h = u64_bytes_le (hash0 h) @ u64_bytes_le (hash1 h) @
                   u64_bytes_le (hash2 h) @ u64_bytes_le (hash3 h)"

text \<open>\<^verbatim>\<open>memcmp(a, b, n) < 0\<close>.\<close>

fun memcmp_less :: "u8 list \<Rightarrow> u8 list \<Rightarrow> bool" where
  "memcmp_less (x # xs) (y # ys) = (x < y \<or> x = y \<and> memcmp_less xs ys)"
| "memcmp_less _ _ = False"

lemma memcmp_less_irrefl: "\<not> memcmp_less xs xs"
  by (induction xs) auto

lemma memcmp_less_trans: "memcmp_less xs ys \<Longrightarrow> memcmp_less ys zs \<Longrightarrow> memcmp_less xs zs"
proof (induction xs ys arbitrary: zs rule: memcmp_less.induct)
  case (1 x xs y ys)
  then show ?case by (cases zs) (auto dest: less_trans)
qed auto

lemma memcmp_less_total:
  "length xs = length ys \<Longrightarrow> xs = ys \<or> memcmp_less xs ys \<or> memcmp_less ys xs"
  by (induction xs ys rule: list_induct2) auto

lemma length_sha256_data [simp]: "length (sha256_data h) = 32"
  by (simp add: sha256_data_def u64_bytes_le_def)

lemma u64_bytes_le_inj: "u64_bytes_le v = u64_bytes_le w \<longleftrightarrow> v = w"
proof
  assume eq: "u64_bytes_le v = u64_bytes_le w"
  show "v = w"
  proof (rule bit_word_eqI)
    fix n assume "n < LENGTH(64)"
    then have i: "n div 8 < 8" and m: "n mod 8 < 8" by auto
    have byte: "ucast (drop_bit (8 * (n div 8)) v) = (ucast (drop_bit (8 * (n div 8)) w) :: u8)"
      using arg_cong[OF eq, of "\<lambda>xs. xs ! (n div 8)"] i by (simp add: u64_bytes_le_def)
    have split: "bit u n = bit (ucast (drop_bit (8 * (n div 8)) u) :: u8) (n mod 8)" for u :: u64
      using m by (simp add: bit_simps)
    show "bit v n = bit w n"
      by (simp only: split byte)
  qed
qed simp

lemma length_u64_bytes_le [simp]: "length (u64_bytes_le w) = 8"
  by (simp add: u64_bytes_le_def)

lemma sha256_data_inj: "sha256_data g = sha256_data h \<longleftrightarrow> g = h"
  by (cases g; cases h) (auto simp: sha256_data_def u64_bytes_le_inj)

definition sha256_lt :: "sha256 \<Rightarrow> sha256 \<Rightarrow> bool" where
  "sha256_lt g h = memcmp_less (sha256_data g) (sha256_data h)"

instantiation sha256 :: linorder
begin

definition less_sha256 :: "sha256 \<Rightarrow> sha256 \<Rightarrow> bool" where
  "less_sha256 g h = sha256_lt g h"

definition less_eq_sha256 :: "sha256 \<Rightarrow> sha256 \<Rightarrow> bool" where
  "less_eq_sha256 g h = (g = h \<or> sha256_lt g h)"

instance
proof
  fix x y z :: sha256
  show "x < y \<longleftrightarrow> x \<le> y \<and> \<not> y \<le> x"
    using memcmp_less_irrefl memcmp_less_trans
    unfolding less_sha256_def less_eq_sha256_def sha256_lt_def by blast
  show "x \<le> x" by (simp add: less_eq_sha256_def)
  show "x \<le> y \<Longrightarrow> y \<le> z \<Longrightarrow> x \<le> z"
    using memcmp_less_trans unfolding less_eq_sha256_def sha256_lt_def by blast
  show "x \<le> y \<Longrightarrow> y \<le> x \<Longrightarrow> x = y"
    using memcmp_less_irrefl memcmp_less_trans unfolding less_eq_sha256_def sha256_lt_def by blast
  show "x \<le> y \<or> y \<le> x"
    using memcmp_less_total[of "sha256_data x" "sha256_data y"]
    by (auto simp: less_eq_sha256_def sha256_lt_def sha256_data_inj)
qed

end

text \<open>The block number is stored, big endian, in the first four bytes of the id.\<close>

definition num_from_id :: "block_id_type \<Rightarrow> block_num_type" where
  "num_from_id bid = endian_reverse_u32 (ucast (hash0 bid))"

text \<open>
  \<^verbatim>\<open>calculate_id\<close>: the digest of the header with its first four bytes replaced by the block
  number (\<^verbatim>\<open>num_from_id(previous) + 1\<close>). The digest itself is the argument.
\<close>

definition calculate_id :: "digest_type \<Rightarrow> block_num_type \<Rightarrow> block_id_type" where
  "calculate_id d bn =
     Sha256 ((hash0 d AND 0xffffffff00000000) + ucast (endian_reverse_u32 bn))
            (hash1 d) (hash2 d) (hash3 d)"

lemma high_mask_u64: "(0xffffffff00000000 :: u64) = push_bit 32 (mask 32)"
  by (simp add: mask_eq_exp_minus_1 push_bit_eq_mult)

lemma num_from_id_calculate_id: "num_from_id (calculate_id d bn) = bn"
proof -
  let ?r = "endian_reverse_u32 bn"
  have disj: "(hash0 d AND 0xffffffff00000000) AND ucast ?r = 0"
    unfolding high_mask_u64 by (rule bit_word_eqI) (auto simp: bit_simps dest: bit_imp_le_length)
  have "(hash0 d AND 0xffffffff00000000) + ucast ?r = (hash0 d AND 0xffffffff00000000) OR ucast ?r"
    using disj by (simp add: disjunctive_add_eq_or)
  moreover have "(ucast ((hash0 d AND 0xffffffff00000000) OR ucast ?r) :: u32) = ?r"
    unfolding high_mask_u64 by (rule bit_word_eqI) (auto simp: bit_simps)
  ultimately show ?thesis
    by (simp add: num_from_id_def calculate_id_def)
qed

section \<open>Block times\<close>

text \<open>
  A \<^verbatim>\<open>block_timestamp<500, 946684800000>\<close> is its 32-bit slot. A \<^verbatim>\<open>fc::time_point\<close> is a signed count
  of microseconds; every value produced from a slot is far below \<open>2\<^sup>6\<^sup>3\<close>, so it is an \<open>int\<close>.
\<close>

definition block_interval_ms :: int where
  "block_interval_ms = 500"

definition block_timestamp_epoch :: int where
  "block_timestamp_epoch = 946684800000"

definition block_timestamp_next :: "block_timestamp_type \<Rightarrow> block_timestamp_type res" where
  "block_timestamp_next slot =
     bind_res (eos_assert (- 1 - slot \<ge> 1) overflow_exception) (\<lambda>_. Inr (slot + 1))"

definition to_time_point :: "block_timestamp_type \<Rightarrow> int" where
  "to_time_point slot = (uint slot * block_interval_ms + block_timestamp_epoch) * 1000"

text \<open>
  The quotient by 1000 is the signed 64-bit one; the subtraction of the \<^verbatim>\<open>uint64_t\<close> epoch and the
  division by the interval are unsigned, and the result is narrowed to 32 bits.
\<close>

definition set_time_point :: "int \<Rightarrow> block_timestamp_type" where
  "set_time_point micro_since_epoch =
     (let msec_since_epoch = micro_since_epoch sdiv 1000 in
      ucast ((word_of_int msec_since_epoch - word_of_int block_timestamp_epoch :: u64)
             div word_of_int block_interval_ms))"

lemma max_u32_minus: "unat (- 1 - slot :: u32) = 2 ^ 32 - 1 - unat slot"
proof -
  have "unat (- 1 - slot) = unat (- 1 :: u32) - unat slot"
    by (rule unat_sub) simp
  then show ?thesis by (simp add: unsigned_minus_1_eq_mask mask_eq_exp_minus_1)
qed

lemma block_timestamp_next_cases:
  "block_timestamp_next slot =
     (if Suc (unat slot) < 2 ^ 32 then Inr (slot + 1) else Inl overflow_exception)"
proof -
  have "unat slot < 2 ^ 32" using unsigned_less[of slot] by simp
  then have "- 1 - slot \<ge> (1 :: u32) \<longleftrightarrow> Suc (unat slot) < 2 ^ 32"
    by (simp add: word_le_nat_alt max_u32_minus) linarith
  then show ?thesis
    by (simp add: block_timestamp_next_def eos_assert_def)
qed

lemma set_time_point_to_time_point: "set_time_point (to_time_point slot) = slot"
proof -
  let ?m = "uint slot * 500 :: int"
  have lim: "0 \<le> uint slot" "uint slot < 2 ^ 32"
    using unsigned_less[where 'a = int, of slot] by simp_all
  then have "0 < 500000 * uint slot + 946684800000000" by linarith
  then have msec: "to_time_point slot sdiv 1000 = ?m + 946684800000"
    by (simp add: to_time_point_def block_interval_ms_def block_timestamp_epoch_def
                       signed_divide_int_def sgn_if)
  have div500: "uint (word_of_int (k * 500) div 500 :: u64) = k" if "0 \<le> k" "k < 2 ^ 32" for k
    using that by (simp add: uint_div uint_word_ariths uint_word_of_int)
  have "ucast (word_of_int ?m div 500 :: u64) = (word_of_int (uint slot) :: u32)"
    using div500[OF lim] by (simp only: ucast_eq)
  then show ?thesis
    using msec by (simp add: set_time_point_def Let_def block_interval_ms_def block_timestamp_epoch_def)
qed

end
