(* ===== verification/Merkle.thy ===== *)
theory Merkle
  imports Block_Types
begin

text \<open>
  The Savanna Merkle trees: \<^verbatim>\<open>calculate_merkle\<close> (merkle.hpp), which computes a root from all the
  leaves, and \<^verbatim>\<open>incremental_merkle_tree\<close> (incremental_merkle.hpp), which keeps one digest per
  power of two and is appended to. The two-digest hash is SHA-256 of OpenSSL, the parameter \<open>hc\<close>.
  The result is that the incremental tree always has the root of the batch computation.
\<close>

section \<open>The batch computation\<close>

text \<open>\<^verbatim>\<open>std::bit_floor\<close>.\<close>

fun bit_floor :: "nat \<Rightarrow> nat" where
  "bit_floor x = (if x = 0 then 0 else if x = 1 then 1 else 2 * bit_floor (x div 2))"

declare bit_floor.simps [simp del]

function calculate_merkle_pow2 ::
    "(digest_type \<Rightarrow> digest_type \<Rightarrow> digest_type) \<Rightarrow> digest_type list \<Rightarrow> digest_type option" where
  "calculate_merkle_pow2 hc xs =
     (let size = length xs in
      if \<not> (2 \<le> size \<and> bit_floor size = size) then None
      else if size = 2 then Some (hc (xs ! 0) (xs ! 1))
      else do {
        l \<leftarrow> calculate_merkle_pow2 hc (take (size div 2) xs);
        r \<leftarrow> calculate_merkle_pow2 hc (drop (size div 2) xs);
        Some (hc l r)
      })"
  by pat_completeness auto
termination
  by (relation "measure (\<lambda>(hc, xs). length xs)") auto

declare calculate_merkle_pow2.simps [simp del]

lemma bit_floor_pos: "0 < x \<Longrightarrow> 0 < bit_floor x"
  by (induction x rule: bit_floor.induct) (subst bit_floor.simps, auto)

lemma bit_floor_le: "bit_floor x \<le> x"
  by (induction x rule: bit_floor.induct) (subst bit_floor.simps, auto)

function calculate_merkle ::
    "(digest_type \<Rightarrow> digest_type \<Rightarrow> digest_type) \<Rightarrow> digest_type list \<Rightarrow> digest_type option" where
  "calculate_merkle hc xs =
     (let size = length xs in
      if size \<le> 1 then Some (if size = 0 then sha256_zero else xs ! 0)
      else let midpoint = bit_floor size in
        if size = midpoint then calculate_merkle_pow2 hc xs
        else do {
          l \<leftarrow> calculate_merkle_pow2 hc (take midpoint xs);
          r \<leftarrow> calculate_merkle hc (drop midpoint xs);
          Some (hc l r)
        })"
  by pat_completeness auto
termination
  by (relation "measure (\<lambda>(hc, xs). length xs)") (auto intro!: diff_less bit_floor_pos)

declare calculate_merkle.simps [simp del]

section \<open>The incremental tree\<close>

record incremental_merkle_tree =
  tree_mask :: u64
  trees :: "digest_type list"

definition empty_tree :: incremental_merkle_tree where
  "empty_tree = \<lparr>tree_mask = 0, trees = []\<rparr>"

definition is_bit_set :: "incremental_merkle_tree \<Rightarrow> nat \<Rightarrow> bool" where
  "is_bit_set t idx = (tree_mask t AND push_bit idx 1 \<noteq> 0)"

definition set_bit_at :: "nat \<Rightarrow> incremental_merkle_tree \<Rightarrow> incremental_merkle_tree" where
  "set_bit_at idx t = t\<lparr>tree_mask := tree_mask t OR push_bit idx 1\<rparr>"

definition clear_bit_at :: "nat \<Rightarrow> incremental_merkle_tree \<Rightarrow> incremental_merkle_tree" where
  "clear_bit_at idx t = t\<lparr>tree_mask := tree_mask t AND NOT (push_bit idx 1)\<rparr>"

text \<open>\<^verbatim>\<open>std::popcount\<close>.\<close>

definition popcount :: "u64 \<Rightarrow> nat" where
  "popcount w = length (filter (bit w) [0..<64])"

lemma is_bit_set_bit: "is_bit_set t idx = bit (tree_mask t) idx"
  by (simp add: is_bit_set_def bit_iff_and_push_bit_not_eq_0)

text \<open>
  \<^verbatim>\<open>_append(digest, slot, idx)\<close>: \<open>slot\<close> is the position of the insertion point in the vector.
\<close>

function append_at ::
    "(digest_type \<Rightarrow> digest_type \<Rightarrow> digest_type) \<Rightarrow> digest_type \<Rightarrow> nat \<Rightarrow> nat \<Rightarrow>
     incremental_merkle_tree \<Rightarrow> incremental_merkle_tree option" where
  "append_at hc digest slot idx t =
     (if is_bit_set t idx then do {
        assert_opt (trees t \<noteq> []);
        if \<not> is_bit_set t (idx + 1) then
          Some (set_bit_at (idx + 1) (clear_bit_at idx
                 (t\<lparr>trees := (trees t)[slot - 1 := hc (trees t ! (slot - 1)) digest]\<rparr>)))
        else do {
          assert_opt (2 \<le> length (trees t));
          let d = hc (trees t ! (slot - 2)) (hc (trees t ! (slot - 1)) digest);
          let t1 = clear_bit_at (idx + 1) (clear_bit_at idx t);
          append_at hc d (slot - 2) (idx + 2)
            (t1\<lparr>trees := take (slot - 2) (trees t) @ drop slot (trees t)\<rparr>)
        }
      } else
        Some (set_bit_at idx (t\<lparr>trees := take slot (trees t) @ [digest] @ drop slot (trees t)\<rparr>)))"
  by pat_completeness auto
termination
  by (relation "measure (\<lambda>(hc, d, slot, idx, t). 64 - idx)")
     (auto simp: is_bit_set_bit dest!: bit_imp_le_length)

declare append_at.simps [simp del]

definition append_digest ::
    "(digest_type \<Rightarrow> digest_type \<Rightarrow> digest_type) \<Rightarrow> digest_type \<Rightarrow>
     incremental_merkle_tree \<Rightarrow> incremental_merkle_tree option" where
  "append_digest hc digest t = do {
     assert_opt (length (trees t) = popcount (tree_mask t));
     t' \<leftarrow> append_at hc digest (length (trees t)) 0 t;
     assert_opt (length (trees t') = popcount (tree_mask t'));
     Some t'
   }"

fun get_root_at :: "(digest_type \<Rightarrow> digest_type \<Rightarrow> digest_type) \<Rightarrow> digest_type list \<Rightarrow> digest_type" where
  "get_root_at hc [] = sha256_zero"
| "get_root_at hc [d] = d"
| "get_root_at hc (d # ds) = hc d (get_root_at hc ds)"

definition get_root ::
    "(digest_type \<Rightarrow> digest_type \<Rightarrow> digest_type) \<Rightarrow> incremental_merkle_tree \<Rightarrow> digest_type option" where
  "get_root hc t =
     (if tree_mask t = 0 then Some sha256_zero
      else do { assert_opt (trees t \<noteq> []); Some (get_root_at hc (trees t)) })"

definition num_digests_appended :: "incremental_merkle_tree \<Rightarrow> u64" where
  "num_digests_appended t = tree_mask t"

fun append_all ::
    "(digest_type \<Rightarrow> digest_type \<Rightarrow> digest_type) \<Rightarrow> digest_type list \<Rightarrow>
     incremental_merkle_tree \<Rightarrow> incremental_merkle_tree option" where
  "append_all hc [] t = Some t"
| "append_all hc (d # ds) t = do { t' \<leftarrow> append_digest hc d t; append_all hc ds t' }"

section \<open>The forest of complete subtrees\<close>

text \<open>
  The root of a complete subtree of height \<open>n\<close>, and the roots of the complete subtrees, largest
  first, into which a sequence of fewer than \<open>2\<^sup>k\<close> leaves splits.
\<close>

fun pow2_root :: "(digest_type \<Rightarrow> digest_type \<Rightarrow> digest_type) \<Rightarrow> nat \<Rightarrow> digest_type list \<Rightarrow> digest_type" where
  "pow2_root hc 0 xs = hd xs"
| "pow2_root hc (Suc n) xs = hc (pow2_root hc n (take (2 ^ n) xs)) (pow2_root hc n (drop (2 ^ n) xs))"

fun peaks :: "(digest_type \<Rightarrow> digest_type \<Rightarrow> digest_type) \<Rightarrow> nat \<Rightarrow> digest_type list \<Rightarrow> digest_type list" where
  "peaks hc 0 xs = []"
| "peaks hc (Suc k) xs =
     (if 2 ^ k \<le> length xs then pow2_root hc k (take (2 ^ k) xs) # peaks hc k (drop (2 ^ k) xs)
      else peaks hc k xs)"

lemma peaks_Nil [simp]: "peaks hc k [] = []"
  by (induction k) auto

lemma pow2_root_append:
  assumes "length xs = 2 ^ n" and "length ys = 2 ^ n"
  shows "pow2_root hc (Suc n) (xs @ ys) = hc (pow2_root hc n xs) (pow2_root hc n ys)"
  using assms by simp

text \<open>Appending a complete subtree where the bit of its height is free adds one peak.\<close>

lemma peaks_append_pow2:
  assumes "length es = 2 ^ i" and "2 ^ Suc i dvd length ds" and "length ds + 2 ^ i < 2 ^ k"
  shows "peaks hc k (ds @ es) = peaks hc k ds @ [pow2_root hc i es]"
  using assms
proof (induction k arbitrary: ds)
  case 0
  then show ?case by simp
next
  case (Suc k)
  show ?case
  proof (cases "2 ^ k \<le> length ds")
    case True
    have "i < k"
    proof (rule ccontr)
      assume "\<not> i < k"
      then have "(2::nat) ^ Suc k \<le> 2 ^ Suc i" by (intro power_increasing) auto
      moreover have "(0::nat) < 2 ^ k" by simp
      with True have "0 < length ds" by linarith
      then have "2 ^ Suc i \<le> length ds" using Suc.prems(2) by (rule dvd_imp_le[rotated])
      ultimately show False using Suc.prems(3) by linarith
    qed
    then have "(2::nat) ^ Suc i dvd 2 ^ k" by (intro le_imp_power_dvd) simp
    with Suc.prems(2) True have "2 ^ Suc i dvd length (drop (2 ^ k) ds)"
      by (simp add: dvd_diff_nat)
    then have "peaks hc k (drop (2 ^ k) ds @ es) = peaks hc k (drop (2 ^ k) ds) @ [pow2_root hc i es]"
      using Suc.prems True by (intro Suc.IH) auto
    with True show ?thesis by simp
  next
    case False
    show ?thesis
    proof (cases "i = k")
      case True
      have "ds = []"
      proof (rule ccontr)
        assume "ds \<noteq> []"
        then have "2 ^ Suc i \<le> length ds" using Suc.prems(2) by (intro dvd_imp_le) auto
        with False True show False by simp
      qed
      with True Suc.prems show ?thesis by simp
    next
      case neq: False
      with Suc.prems(3) have "i < k"
        by (metis le_neq_implies_less less_Suc_eq_le not_add_less2 not_less_eq power_less_imp_less_exp
              one_less_numeral_iff semiring_norm(76) trans_le_add2 le_less_trans linorder_not_le le_add2)
      then obtain q where q: "(2::nat) ^ k = 2 ^ Suc i * q"
        using le_imp_power_dvd[of "Suc i" k 2] by (auto elim: dvdE)
      from Suc.prems(2) obtain p where p: "length ds = 2 ^ Suc i * p" by (auto elim: dvdE)
      have "p < q" using False p q by simp
      then have "2 ^ Suc i * (p + 1) \<le> (2 ^ Suc i * q :: nat)" by (intro mult_left_mono) auto
      then have "length ds + 2 ^ Suc i \<le> 2 ^ k" using p q by (simp add: algebra_simps)
      moreover have "(0::nat) < 2 ^ i" by simp
      ultimately have lt: "length ds + 2 ^ i < 2 ^ k" by (simp only: power_Suc)
      with Suc.prems have "peaks hc k (ds @ es) = peaks hc k ds @ [pow2_root hc i es]"
        by (intro Suc.IH) auto
      with False lt Suc.prems(1) show ?thesis by simp
    qed
  qed
qed

section \<open>The incremental tree keeps the peaks of what was appended\<close>

definition tree_of :: "(digest_type \<Rightarrow> digest_type \<Rightarrow> digest_type) \<Rightarrow> digest_type list \<Rightarrow> incremental_merkle_tree \<Rightarrow> bool" where
  "tree_of hc ds t \<longleftrightarrow> unat (tree_mask t) = length ds \<and> trees t = peaks hc 64 ds"

lemma bit_nat_dvd:
  fixes n :: nat
  assumes "2 ^ i dvd n" and "\<not> bit n i"
  shows "2 ^ Suc i dvd n"
proof -
  from assms(1) obtain q where q: "n = 2 ^ i * q" by (auto elim: dvdE)
  with assms(2) have "even q" by (simp add: bit_iff_odd)
  with q show ?thesis by auto
qed

lemma bit_nat_split:
  fixes n :: nat
  assumes "2 ^ i dvd n" and "bit n i"
  shows "2 ^ i \<le> n" and "2 ^ Suc i dvd n - 2 ^ i"
proof -
  from assms(1) obtain q where q: "n = 2 ^ i * q" by (auto elim: dvdE)
  with assms(2) have "odd q" by (simp add: bit_iff_odd)
  then obtain p where p: "q = 2 * p + 1" by (auto elim: oddE)
  with q have n: "n = 2 ^ i + 2 ^ Suc i * p" by (simp add: algebra_simps)
  then show "2 ^ i \<le> n" and "2 ^ Suc i dvd n - 2 ^ i" by simp_all
qed

lemma unat_or_bit:
  fixes w :: u64
  assumes "i < 64" and "\<not> bit w i"
  shows "unat (w OR 2 ^ i) = unat w + 2 ^ i"
proof -
  have bit1: "unat (2 ^ i :: u64) = 2 ^ i"
    using assms(1) by (intro bit_eqI) (auto simp: bit_simps)
  have "unat w AND 2 ^ i = 0"
    using assms(2) by (intro bit_eqI) (auto simp: bit_simps)
  then show ?thesis
    by (simp add: unsigned_or_eq bit1 disjunctive_add_eq_or)
qed

lemma unat_clear_bit:
  fixes w :: u64
  assumes "bit w i"
  shows "unat (w AND NOT (2 ^ i)) + 2 ^ i = unat w"
proof -
  have "i < 64" using bit_imp_le_length[OF assms] by simp
  moreover have "\<not> bit (w AND NOT (2 ^ i)) i"
    using calculation by (simp add: bit_simps)
  moreover have "(w AND NOT (2 ^ i)) OR 2 ^ i = w"
    using assms by (intro bit_word_eqI) (auto simp: bit_simps)
  ultimately show ?thesis
    using unat_or_bit[of i "w AND NOT (2 ^ i)"] by simp
qed

lemma set_bit_at_sel [simp]:
  "tree_mask (set_bit_at i t) = tree_mask t OR 2 ^ i"
  "trees (set_bit_at i t) = trees t"
  by (simp_all add: set_bit_at_def)

lemma clear_bit_at_sel [simp]:
  "tree_mask (clear_bit_at i t) = tree_mask t AND NOT (2 ^ i)"
  "trees (clear_bit_at i t) = trees t"
  by (simp_all add: clear_bit_at_def)

lemma bit_Suc_add:
  fixes a :: nat
  assumes "2 ^ Suc i dvd a"
  shows "bit (a + 2 ^ i) (Suc i) = bit a (Suc i)"
proof -
  have "(a + 2 ^ i) div 2 ^ Suc i = a div 2 ^ Suc i + 2 ^ i div 2 ^ Suc i"
    using assms by (rule div_plus_div_distrib_dvd_left)
  then show ?thesis by (simp add: bit_iff_odd)
qed

lemma split_last_subtree:
  assumes "2 ^ i dvd length ds" and "bit (length ds) i"
  obtains ds1 c where "ds = ds1 @ c" and "length c = 2 ^ i" and "2 ^ Suc i dvd length ds1"
proof -
  from bit_nat_split[OF assms] have le: "2 ^ i \<le> length ds" and "2 ^ Suc i dvd length ds - 2 ^ i"
    by simp_all
  show thesis
    by (rule that[of "take (length ds - 2 ^ i) ds" "drop (length ds - 2 ^ i) ds"])
       (use bit_nat_split[OF assms] in simp_all)
qed

text \<open>
  One call of \<^verbatim>\<open>_append\<close> at height \<open>idx\<close>: it adds a complete subtree of \<open>2\<^sup>i\<^sup>d\<^sup>x\<close> leaves behind leaves
  whose number has no bit below \<open>idx\<close>. The three cases are those of the code.
\<close>

lemma append_at_correct:
  assumes "tree_of hc ds t" and "2 ^ idx dvd length ds" and "length es = 2 ^ idx"
    and "length ds + 2 ^ idx < 2 ^ 64"
  shows "\<exists>t'. append_at hc (pow2_root hc idx es) (length (trees t)) idx t = Some t' \<and> tree_of hc (ds @ es) t'"
  using assms
proof (induction "64 - idx" arbitrary: idx t ds es rule: less_induct)
  case less
  have mask: "unat (tree_mask t) = length ds" and tr: "trees t = peaks hc 64 ds"
    using less.prems(1) by (simp_all add: tree_of_def)
  have bits: "is_bit_set t i = bit (length ds) i" for i
    by (simp add: is_bit_set_bit flip: mask) (simp add: bit_simps)
  have "(2::nat) ^ idx < 2 ^ 64" using less.prems(4) by linarith
  then have idx: "idx < 64" by (rule power_less_imp_less_exp[rotated]) simp
  show ?case
  proof (cases "bit (length ds) idx")
    case False
    then have "peaks hc 64 (ds @ es) = peaks hc 64 ds @ [pow2_root hc idx es]"
      using bit_nat_dvd less.prems by (intro peaks_append_pow2) auto
    then show ?thesis
      using False idx less.prems(3) mask tr bits[of idx]
      by (subst append_at.simps) (simp add: tree_of_def unat_or_bit is_bit_set_bit)
  next
    case True
    obtain ds1 c where c: "ds = ds1 @ c" "length c = 2 ^ idx" "2 ^ Suc idx dvd length ds1"
      using split_last_subtree[OF less.prems(2) True] .
    have tr1: "trees t = peaks hc 64 ds1 @ [pow2_root hc idx c]"
      using c less.prems(4) tr by (simp add: peaks_append_pow2)
    have len2: "length (c @ es) = 2 ^ Suc idx" using c less.prems(3) by simp
    have root2: "pow2_root hc (Suc idx) (c @ es) = hc (pow2_root hc idx c) (pow2_root hc idx es)"
      using c(2) less.prems(3) by (rule pow2_root_append)
    have idx1: "length ds1 + 2 ^ Suc idx < 2 ^ 64" using c less.prems(4) by simp
    then have "(2::nat) ^ Suc idx < 2 ^ 64" by linarith
    then have idx2: "Suc idx < 64" by (rule power_less_imp_less_exp[rotated]) simp
    have bit1: "bit (length ds) (Suc idx) = bit (length ds1) (Suc idx)"
      using bit_Suc_add[OF c(3)] c by simp
    have cm: "unat (tree_mask (clear_bit_at idx t)) = length ds1"
      using unat_clear_bit[of "tree_mask t" idx] True bits[of idx] mask c
      by (simp add: is_bit_set_bit)
    show ?thesis
    proof (cases "bit (length ds) (Suc idx)")
      case False
      then have "peaks hc 64 (ds1 @ (c @ es)) = peaks hc 64 ds1 @ [pow2_root hc (Suc idx) (c @ es)]"
        using bit_nat_dvd[OF c(3)] bit1 len2 idx1 by (intro peaks_append_pow2) auto
      moreover have "\<not> bit (tree_mask (clear_bit_at idx t)) (Suc idx)"
        using False bits[of "Suc idx"] by (simp add: is_bit_set_bit bit_simps)
      ultimately show ?thesis
        using False True idx2 len2 root2 tr1 cm bits[of idx] bits[of "Suc idx"] c
          unat_or_bit[of "Suc idx" "tree_mask (clear_bit_at idx t)"]
        by (subst append_at.simps) (simp add: tree_of_def nth_append)
    next
      case set2: True
      obtain ds2 c2 where c2: "ds1 = ds2 @ c2" "length c2 = 2 ^ Suc idx" "2 ^ Suc (Suc idx) dvd length ds2"
        using split_last_subtree[OF c(3)] set2 bit1 by auto
      have tr2: "trees t = peaks hc 64 ds2 @ [pow2_root hc (Suc idx) c2, pow2_root hc idx c]"
        using c2 idx1 tr1 peaks_append_pow2[of c2 "Suc idx" ds2 64 hc] by simp
      define t2 where "t2 = clear_bit_at (Suc idx) (clear_bit_at idx t)\<lparr>trees := peaks hc 64 ds2\<rparr>"
      have "unat (tree_mask t2) = length ds2"
        using unat_clear_bit[of "tree_mask (clear_bit_at idx t)" "Suc idx"] set2 bits[of "Suc idx"] cm c2 idx2
        by (simp add: t2_def is_bit_set_bit bit_simps)
      then have of2: "tree_of hc ds2 t2" by (simp add: tree_of_def t2_def)
      have len3: "length (c2 @ c @ es) = 2 ^ Suc (Suc idx)" using c2 len2 by simp
      have lt3: "length ds2 + 2 ^ Suc (Suc idx) < 2 ^ 64" using idx1 c2 by simp
      have "64 - Suc (Suc idx) < 64 - idx" using idx by simp
      from less.hyps[OF this of2 c2(3) len3 lt3] obtain t' where
        t': "append_at hc (pow2_root hc (Suc (Suc idx)) (c2 @ c @ es)) (length (trees t2)) (Suc (Suc idx)) t2 = Some t'"
            "tree_of hc (ds2 @ c2 @ c @ es) t'"
        by blast
      have "pow2_root hc (Suc (Suc idx)) (c2 @ c @ es) =
              hc (pow2_root hc (Suc idx) c2) (hc (pow2_root hc idx c) (pow2_root hc idx es))"
        unfolding pow2_root_append[OF c2(2) len2] root2 ..
      then show ?thesis
        using t' set2 True bits[of idx] bits[of "Suc idx"] tr2 c c2
        by (subst append_at.simps) (simp add: nth_append t2_def clear_bit_at_def Let_def del: pow2_root.simps)
    qed
  qed
qed

section \<open>Equivalence with the batch computation\<close>

lemma length_peaks:
  "length ds < 2 ^ k \<Longrightarrow> length (peaks hc k ds) = length (filter (bit (length ds)) [0..<k])"
proof (induction k arbitrary: ds)
  case 0
  then show ?case by simp
next
  case (Suc k)
  show ?case
  proof (cases "2 ^ k \<le> length ds")
    case True
    let ?m = "length ds - 2 ^ k"
    have "?m < 2 ^ k" using Suc.prems True by simp
    have eq: "bit (length ds) i = bit ?m i" if "i < k" for i
    proof -
      have "(2::nat) ^ Suc i dvd 2 ^ k" using that by (intro le_imp_power_dvd) simp
      then obtain q where q: "(2::nat) ^ k = 2 ^ Suc i * q" by (auto elim: dvdE)
      have "length ds = ?m + 2 ^ i * (2 * q)" using True q by simp
      moreover have "(?m + 2 ^ i * (2 * q)) div 2 ^ i = 2 * q + ?m div 2 ^ i"
        by (rule div_mult_self2) simp
      ultimately have "length ds div 2 ^ i = 2 * q + ?m div 2 ^ i" by simp
      then show ?thesis by (simp add: bit_iff_odd)
    qed
    have "length ds div 2 ^ k = 1" using Suc.prems True by (simp add: div_nat_eqI)
    then have "bit (length ds) k" by (simp add: bit_iff_odd)
    moreover have "filter (bit (length ds)) [0..<k] = filter (bit ?m) [0..<k]"
      using eq by (intro filter_cong) auto
    ultimately show ?thesis
      using True Suc.IH[of "drop (2 ^ k) ds"] \<open>?m < 2 ^ k\<close> by simp
  next
    case False
    then have "\<not> bit (length ds) k" by (simp add: bit_iff_odd)
    with False Suc.IH[of ds] show ?thesis by simp
  qed
qed

lemma tree_of_popcount:
  assumes "tree_of hc ds t"
  shows "length (trees t) = popcount (tree_mask t)"
proof -
  have "length ds < 2 ^ 64"
    using assms unsigned_less[where 'a = nat, of "tree_mask t"] by (simp add: tree_of_def)
  moreover have "bit (tree_mask t) = bit (unat (tree_mask t))"
    by (auto simp: fun_eq_iff bit_simps)
  then have "bit (tree_mask t) = bit (length ds)"
    using assms by (simp add: tree_of_def)
  ultimately show ?thesis
    using assms length_peaks[of ds 64 hc] by (simp add: tree_of_def popcount_def)
qed

lemma append_digest_correct:
  assumes "tree_of hc ds t" and "Suc (length ds) < 2 ^ 64"
  shows "\<exists>t'. append_digest hc d t = Some t' \<and> tree_of hc (ds @ [d]) t'"
proof -
  obtain t' where "append_at hc d (length (trees t)) 0 t = Some t'" and t': "tree_of hc (ds @ [d]) t'"
    using append_at_correct[of hc ds t 0 "[d]"] assms by auto
  then show ?thesis
    using tree_of_popcount[OF assms(1)] tree_of_popcount[OF t'] by (simp add: append_digest_def)
qed

lemma append_all_correct:
  "tree_of hc ds t \<Longrightarrow> length (ds @ es) < 2 ^ 64 \<Longrightarrow>
   \<exists>t'. append_all hc es t = Some t' \<and> tree_of hc (ds @ es) t'"
proof (induction es arbitrary: ds t)
  case (Cons e es)
  then obtain t' where "append_digest hc e t = Some t'" "tree_of hc (ds @ [e]) t'"
    using append_digest_correct[of hc ds t e] by auto
  with Cons.IH[of "ds @ [e]" t'] Cons.prems show ?case by auto
qed simp

lemma tree_of_empty: "tree_of hc [] empty_tree"
  by (simp add: tree_of_def empty_tree_def)

lemma bit_floor_pow2_iff: "2 ^ k \<le> n \<Longrightarrow> n < 2 ^ Suc k \<Longrightarrow> bit_floor n = 2 ^ k"
proof (induction k arbitrary: n)
  case 0
  then show ?case by (subst bit_floor.simps) auto
next
  case (Suc k)
  then have "bit_floor (n div 2) = 2 ^ k" by (intro Suc.IH) auto
  moreover have "1 < n" using Suc.prems one_le_power[of "2::nat" k] by (simp only: power_Suc) linarith
  ultimately show ?case by (subst bit_floor.simps) auto
qed

lemma calculate_merkle_pow2_root:
  "length xs = 2 ^ Suc n \<Longrightarrow> calculate_merkle_pow2 hc xs = Some (pow2_root hc (Suc n) xs)"
proof (induction n arbitrary: xs)
  case 0
  then obtain a b where "xs = [a, b]"
    by (auto simp: length_Suc_conv numeral_2_eq_2)
  then show ?case
    by (subst calculate_merkle_pow2.simps) (simp add: bit_floor_pow2_iff[of 1])
next
  case (Suc n)
  have "bit_floor (length xs) = length xs"
    using Suc.prems by (subst bit_floor_pow2_iff[of "Suc (Suc n)"]) simp_all
  moreover have "2 < length xs"
    using Suc.prems one_le_power[of "2::nat" n] by (simp only: power_Suc) linarith
  moreover have "length (take (length xs div 2) xs) = 2 ^ Suc n"
      "length (drop (length xs div 2) xs) = 2 ^ Suc n"
    using Suc.prems by simp_all
  ultimately show ?case
    using Suc by (subst calculate_merkle_pow2.simps) (simp del: pow2_root.simps add: pow2_root.simps(2)[of hc "Suc n"])
qed

lemma get_root_at_Cons: "ys \<noteq> [] \<Longrightarrow> get_root_at hc (x # ys) = hc x (get_root_at hc ys)"
  by (cases ys) auto

lemma peaks_eq_Nil: "length xs < 2 ^ k \<Longrightarrow> peaks hc k xs = [] \<longleftrightarrow> xs = []"
  by (induction k arbitrary: xs) auto

lemma calculate_merkle_peaks:
  "length xs < 2 ^ k \<Longrightarrow> calculate_merkle hc xs = Some (get_root_at hc (peaks hc k xs))"
proof (induction k arbitrary: xs)
  case 0
  then show ?case by (subst calculate_merkle.simps) simp
next
  case (Suc k)
  show ?case
  proof (cases "2 ^ k \<le> length xs")
    case False
    with Suc show ?thesis by simp
  next
    case ge: True
    have floor: "bit_floor (length xs) = 2 ^ k"
      using ge Suc.prems by (rule bit_floor_pow2_iff)
    have rest: "length (drop (2 ^ k) xs) < 2 ^ k" using Suc.prems ge by simp
    show ?thesis
    proof (cases k)
      case 0
      with Suc.prems ge obtain x where "xs = [x]"
        by (cases xs) auto
      with 0 show ?thesis by (subst calculate_merkle.simps) simp
    next
      case (Suc k')
      have "1 < length xs" using ge Suc one_le_power[of "2::nat" k'] by (simp only: power_Suc) linarith
      moreover have "calculate_merkle_pow2 hc (take (2 ^ k) xs) = Some (pow2_root hc k (take (2 ^ k) xs))"
        using ge unfolding Suc by (intro calculate_merkle_pow2_root) simp
      ultimately show ?thesis
        using ge floor Suc.IH[OF rest] peaks_eq_Nil[where hc = hc, OF rest]
        by (subst calculate_merkle.simps) (auto simp: Let_def get_root_at_Cons)
    qed
  qed
qed

lemma tree_of_root:
  assumes "tree_of hc ds t" and "length ds < 2 ^ 64"
  shows "get_root hc t = calculate_merkle hc ds"
proof (cases "ds = []")
  case True
  then show ?thesis
    using assms by (auto simp: tree_of_def get_root_def calculate_merkle.simps unat_eq_zero)
next
  case False
  then have "tree_mask t \<noteq> 0" and "trees t \<noteq> []"
    using assms by (auto simp: tree_of_def peaks_eq_Nil)
  then show ?thesis
    using assms(1) calculate_merkle_peaks[where hc = hc, OF assms(2)] by (simp add: get_root_def tree_of_def)
qed

text \<open>
  C8. The incremental tree agrees with the batch computation. Appending any fewer than \<open>2\<^sup>6\<^sup>4\<close> digests
  one by one to the empty tree fires no assertion, counts them, and gives the root that
  \<^verbatim>\<open>calculate_merkle\<close> computes from the whole sequence, for every two-digest hash.
\<close>

theorem incremental_merkle_equiv:
  assumes "length ds < 2 ^ 64"
  shows "\<exists>t. append_all hc ds empty_tree = Some t \<and> get_root hc t = calculate_merkle hc ds
             \<and> unat (num_digests_appended t) = length ds"
proof -
  obtain t where t: "append_all hc ds empty_tree = Some t" "tree_of hc ds t"
    using append_all_correct[OF tree_of_empty, of ds hc] assms by auto
  from tree_of_root[OF t(2) assms] have "get_root hc t = calculate_merkle hc ds" .
  with t show ?thesis by (auto simp: tree_of_def num_digests_appended_def)
qed


theorem incremental_merkle_equiv_witness:
  "\<exists>t. append_all (\<lambda>a b. Sha256 (hash0 a) (hash0 b) 0 1) [Sha256 1 0 0 0, Sha256 2 0 0 0, Sha256 3 0 0 0] empty_tree = Some t \<and>
       get_root (\<lambda>a b. Sha256 (hash0 a) (hash0 b) 0 1) t = Some (Sha256 1 3 0 1) \<and> unat (num_digests_appended t) = 3"
proof -
  let ?hc = "\<lambda>a b. Sha256 (hash0 a) (hash0 b) 0 1"
  let ?ds = "[Sha256 1 0 0 0, Sha256 2 0 0 0, Sha256 3 0 0 0]"
  have "length ?ds < 2 ^ 64" by simp
  moreover have "calculate_merkle ?hc ?ds = Some (Sha256 1 3 0 1)"
    by (simp add: calculate_merkle.simps calculate_merkle_pow2.simps bit_floor.simps)
  ultimately show ?thesis using incremental_merkle_equiv[of ?ds ?hc] by (simp add: numeral_3_eq_3)
qed

end
