(* ===== verification/Finality_Core.thy ===== *)
theory Finality_Core
  imports Merkle
begin

text \<open>
  The finality core of a Savanna block (finality/finality_core.hpp and finality/finality_core.cpp):
  the window of QC links and block references every block state carries, from which the last final
  block, the latest QC claim and the ancestors of the block are read. Every \<^verbatim>\<open>assert\<close> of the source
  is a branch to \<open>None\<close>, so that the results below also say that none of them fires.

  The header's invariants 1 to 7 are the definition \<open>invariants\<close>; the proof that \<^verbatim>\<open>next\<close> keeps them
  needs the comment on \<^verbatim>\<open>qc_link::target_block_num\<close> too (only the genesis link points at its own
  block), which is the predicate \<open>links_descend\<close>.
\<close>

section \<open>The data\<close>

record block_ref =
  block_id :: block_id_type
  timestamp :: block_timestamp_type
  finality_digest :: digest_type
  active_policy_generation :: u32
  pending_policy_generation :: u32

record block_ref_digest_data =
  data_block_num :: block_num_type
  data_timestamp :: block_timestamp_type
  data_finality_digest :: digest_type
  data_parent_timestamp :: block_timestamp_type

record qc_link =
  source_block_num :: block_num_type
  target_block_num :: block_num_type
  is_link_strong :: bool

record qc_claim_t =
  block_num :: block_num_type
  is_strong_qc :: bool

record core_metadata =
  md_last_final_block_num :: block_num_type
  md_latest_qc_claim_block_num :: block_num_type

record finality_core =
  links :: "qc_link list"
  refs :: "block_ref list"
  genesis_timestamp :: block_timestamp_type

definition block_ref_empty :: "block_ref \<Rightarrow> bool" where
  "block_ref_empty r = sha256_empty (block_id r)"

definition block_ref_block_num :: "block_ref \<Rightarrow> block_num_type" where
  "block_ref_block_num r = num_from_id (block_id r)"

text \<open>The defaulted \<^verbatim>\<open>operator<=>\<close> of \<^verbatim>\<open>qc_claim_t\<close> compares the members in order.\<close>

definition qc_claim_le :: "qc_claim_t \<Rightarrow> qc_claim_t \<Rightarrow> bool" where
  "qc_claim_le a b =
     (block_num a < block_num b \<or> block_num a = block_num b \<and> (is_strong_qc a \<le> is_strong_qc b))"

section \<open>The operations\<close>

definition create_core_for_genesis_block :: "block_id_type \<Rightarrow> block_timestamp_type \<Rightarrow> finality_core" where
  "create_core_for_genesis_block bid ts =
     (let bn = num_from_id bid in
      \<lparr>links = [\<lparr>source_block_num = bn, target_block_num = bn, is_link_strong = False\<rparr>],
       refs = [], genesis_timestamp = ts\<rparr>)"

definition is_genesis_core :: "finality_core \<Rightarrow> bool" where
  "is_genesis_core c = (refs c = [])"

definition current_block_num :: "finality_core \<Rightarrow> block_num_type option" where
  "current_block_num c = do {
     assert_opt (links c \<noteq> []);
     Some (source_block_num (last (links c)))
   }"

definition last_final_block_num :: "finality_core \<Rightarrow> block_num_type option" where
  "last_final_block_num c = do {
     assert_opt (links c \<noteq> []);
     Some (target_block_num (hd (links c)))
   }"

definition latest_qc_claim :: "finality_core \<Rightarrow> qc_claim_t option" where
  "latest_qc_claim c = do {
     assert_opt (links c \<noteq> []);
     Some \<lparr>block_num = target_block_num (last (links c)), is_strong_qc = is_link_strong (last (links c))\<rparr>
   }"

definition get_block_reference :: "finality_core \<Rightarrow> block_num_type \<Rightarrow> block_ref option" where
  "get_block_reference c bn = do {
     lf \<leftarrow> last_final_block_num c;
     cur \<leftarrow> current_block_num c;
     assert_opt (lf \<le> bn);
     assert_opt (bn < cur);
     let ref_index = unat (bn - lf);
     assert_opt (ref_index < length (refs c));
     Some (refs c ! ref_index)
   }"

definition last_final_block_timestamp :: "finality_core \<Rightarrow> block_timestamp_type option" where
  "last_final_block_timestamp c =
     (if is_genesis_core c then Some (genesis_timestamp c)
      else do {
        lf \<leftarrow> last_final_block_num c;
        r \<leftarrow> get_block_reference c lf;
        Some (timestamp r)
      })"

definition latest_qc_block_timestamp :: "finality_core \<Rightarrow> block_timestamp_type option" where
  "latest_qc_block_timestamp c = do {
     assert_opt (links c \<noteq> []);
     if is_genesis_core c then Some (genesis_timestamp c)
     else do {
       r \<leftarrow> get_block_reference c (target_block_num (last (links c)));
       Some (timestamp r)
     }
   }"

definition extends :: "finality_core \<Rightarrow> block_id_type \<Rightarrow> bool option" where
  "extends c bid = do {
     let bn = num_from_id bid;
     lf \<leftarrow> last_final_block_num c;
     cur \<leftarrow> current_block_num c;
     if lf \<le> bn \<and> bn < cur then do {
       r \<leftarrow> get_block_reference c bn;
       Some (block_id r = bid)
     } else Some False
   }"

definition is_genesis_block_num :: "finality_core \<Rightarrow> block_num_type \<Rightarrow> bool option" where
  "is_genesis_block_num c candidate = do {
     lf \<leftarrow> last_final_block_num c;
     cur \<leftarrow> current_block_num c;
     assert_opt (lf \<le> candidate \<and> candidate \<le> cur);
     Some (source_block_num (hd (links c)) = target_block_num (hd (links c)) \<and>
           source_block_num (hd (links c)) = candidate)
   }"

text \<open>\<open>hash_ref\<close> stands for \<^verbatim>\<open>fc::sha256::hash(block_ref_digest_data)\<close>, \<open>hc\<close> for the two-digest hash.\<close>

definition get_reversible_blocks_mroot ::
    "(digest_type \<Rightarrow> digest_type \<Rightarrow> digest_type) \<Rightarrow> (block_ref_digest_data \<Rightarrow> digest_type) \<Rightarrow>
     finality_core \<Rightarrow> digest_type option" where
  "get_reversible_blocks_mroot hc hash_ref c =
     (if length (refs c) \<le> 1 then Some sha256_zero
      else calculate_merkle hc
        (map (\<lambda>i. hash_ref \<lparr>data_block_num = block_ref_block_num (refs c ! i),
                            data_timestamp = timestamp (refs c ! i),
                            data_finality_digest = finality_digest (refs c ! i),
                            data_parent_timestamp = timestamp (refs c ! (i - 1))\<rparr>)
             [1..<length (refs c)]))"

definition get_qc_link_from :: "finality_core \<Rightarrow> block_num_type \<Rightarrow> qc_link option" where
  "get_qc_link_from c bn = do {
     assert_opt (links c \<noteq> []);
     assert_opt (source_block_num (hd (links c)) \<le> bn);
     cur \<leftarrow> current_block_num c;
     assert_opt (bn \<le> cur);
     let link_index = unat (bn - source_block_num (hd (links c)));
     assert_opt (link_index < length (links c));
     Some (links c ! link_index)
   }"

definition get_new_block_numbers ::
    "finality_core \<Rightarrow> qc_claim_t \<Rightarrow> (block_num_type \<times> block_num_type) option" where
  "get_new_block_numbers c q = do {
     cur \<leftarrow> current_block_num c;
     assert_opt (block_num q \<le> cur);
     latest \<leftarrow> latest_qc_claim c;
     assert_opt (block_num latest \<le> block_num q);
     assert_opt (source_block_num (hd (links c)) \<le> block_num q);
     lf \<leftarrow> last_final_block_num c;
     if \<not> is_strong_qc q then Some (lf, source_block_num (hd (links c)))
     else do {
       link \<leftarrow> get_qc_link_from c (block_num q);
       assert_opt (lf \<le> target_block_num link);
       assert_opt (source_block_num (hd (links c)) \<le> source_block_num link);
       assert_opt (block_num latest \<le> block_num q);
       Some (target_block_num link, source_block_num link)
     }
   }"

definition next_metadata :: "finality_core \<Rightarrow> qc_claim_t \<Rightarrow> core_metadata option" where
  "next_metadata c q = do {
     cur \<leftarrow> current_block_num c;
     assert_opt (block_num q \<le> cur);
     latest \<leftarrow> latest_qc_claim c;
     assert_opt (qc_claim_le latest q);
     (new_last_final, _) \<leftarrow> get_new_block_numbers c q;
     Some \<lparr>md_last_final_block_num = new_last_final, md_latest_qc_claim_block_num = block_num q\<rparr>
   }"

definition next_core :: "finality_core \<Rightarrow> block_ref \<Rightarrow> qc_claim_t \<Rightarrow> finality_core option" where
  "next_core c current_block q = do {
     cur \<leftarrow> current_block_num c;
     assert_opt (block_ref_block_num current_block = cur);
     assert_opt (refs c = [] \<or> block_ref_block_num (last (refs c)) + 1 = block_ref_block_num current_block);
     assert_opt (refs c = [] \<or> timestamp (last (refs c)) < timestamp current_block);
     assert_opt (block_num q \<le> cur);
     latest \<leftarrow> latest_qc_claim c;
     assert_opt (qc_claim_le latest q);
     (new_last_final, new_front_source) \<leftarrow> get_new_block_numbers c q;
     assert_opt (new_last_final \<le> new_front_source);
     assert_opt (new_front_source \<le> block_num q);
     lf \<leftarrow> last_final_block_num c;
     assert_opt (lf \<le> new_last_final);
     assert_opt (source_block_num (hd (links c)) \<le> new_front_source);
     let links_index = unat (new_front_source - source_block_num (hd (links c)));
     assert_opt (links_index < length (links c));
     let kept_links = drop links_index (links c);
     assert_opt (kept_links \<noteq> [] \<and> target_block_num (hd kept_links) = new_last_final);
     assert_opt (source_block_num (last kept_links) = cur);
     assert_opt (target_block_num (last kept_links) \<le> block_num q);
     let next_links = kept_links @ [\<lparr>source_block_num = cur + 1, target_block_num = block_num q,
                                    is_link_strong = is_strong_qc q\<rparr>];
     let refs_index = unat (new_last_final - lf);
     assert_opt (refs c \<noteq> [] \<or> refs_index = 0);
     assert_opt (refs c = [] \<or> refs_index < length (refs c));
     let kept_refs = drop refs_index (refs c);
     assert_opt (refs c = [] \<or> block_ref_block_num (hd kept_refs) = new_last_final);
     let next_refs = kept_refs @ [current_block];
     assert_opt (block_ref_block_num (hd next_refs) = new_last_final);
     assert_opt (block_num latest \<le> target_block_num (last next_links));
     Some \<lparr>links = next_links, refs = next_refs, genesis_timestamp = 0\<rparr>
   }"

section \<open>The invariants of the header\<close>

definition invariants :: "finality_core \<Rightarrow> bool" where
  "invariants c \<longleftrightarrow>
     links c \<noteq> [] \<and>
     target_block_num (hd (links c)) \<le> source_block_num (hd (links c)) \<and>
     source_block_num (hd (links c)) \<le> target_block_num (last (links c)) \<and>
     (refs c = [] \<longrightarrow> length (links c) = 1 \<and>
        target_block_num (last (links c)) = source_block_num (last (links c))) \<and>
     (refs c \<noteq> [] \<longrightarrow> block_ref_block_num (hd (refs c)) = target_block_num (hd (links c))) \<and>
     (refs c \<noteq> [] \<longrightarrow>
        unat (source_block_num (last (links c))) = Suc (unat (block_ref_block_num (last (refs c))))) \<and>
     successively (\<lambda>a b. unat (block_ref_block_num b) = Suc (unat (block_ref_block_num a)) \<and>
                         timestamp a < timestamp b) (refs c) \<and>
     successively (\<lambda>a b. unat (source_block_num b) = Suc (unat (source_block_num a)) \<and>
                         target_block_num a \<le> target_block_num b) (links c)"

text \<open>\<^verbatim>\<open>qc_link\<close>: the target is below the source except in the link of the genesis block.\<close>

definition links_descend :: "finality_core \<Rightarrow> bool" where
  "links_descend c \<longleftrightarrow> (\<forall>l\<in>set (tl (links c)). target_block_num l < source_block_num l)"

definition core_ok :: "finality_core \<Rightarrow> bool" where
  "core_ok c \<longleftrightarrow> invariants c \<and> links_descend c"

text \<open>The preconditions of \<^verbatim>\<open>next\<close> as its comment lists them.\<close>

definition next_pre :: "finality_core \<Rightarrow> block_ref \<Rightarrow> qc_claim_t \<Rightarrow> bool" where
  "next_pre c current_block q \<longleftrightarrow>
     current_block_num c = Some (block_ref_block_num current_block) \<and>
     (refs c \<noteq> [] \<longrightarrow> timestamp (last (refs c)) < timestamp current_block) \<and>
     (\<exists>latest. latest_qc_claim c = Some latest \<and> qc_claim_le latest q) \<and>
     block_num q \<le> block_ref_block_num current_block"


section \<open>What the invariants say about positions\<close>

lemma core_links_ne [simp]: "core_ok c \<Longrightarrow> links c \<noteq> []"
  by (simp add: core_ok_def invariants_def)

lemma core_links_succ:
  assumes "core_ok c" and "Suc i < length (links c)"
  shows "unat (source_block_num (links c ! Suc i)) = Suc (unat (source_block_num (links c ! i)))"
    and "target_block_num (links c ! i) \<le> target_block_num (links c ! Suc i)"
  using assms unfolding core_ok_def invariants_def successively_conv_nth by blast+

lemma core_refs_succ:
  assumes "core_ok c" and "Suc i < length (refs c)"
  shows "unat (block_ref_block_num (refs c ! Suc i)) = Suc (unat (block_ref_block_num (refs c ! i)))"
    and "timestamp (refs c ! i) < timestamp (refs c ! Suc i)"
  using assms unfolding core_ok_def invariants_def successively_conv_nth by blast+

lemma core_front:
  assumes "core_ok c"
  shows "target_block_num (hd (links c)) \<le> source_block_num (hd (links c))"
    and "source_block_num (hd (links c)) \<le> target_block_num (last (links c))"
  using assms unfolding core_ok_def invariants_def by blast+

lemma core_no_refs:
  assumes "core_ok c" and "refs c = []"
  shows "length (links c) = 1" and "target_block_num (last (links c)) = source_block_num (last (links c))"
  using assms unfolding core_ok_def invariants_def by blast+

lemma core_refs:
  assumes "core_ok c" and "refs c \<noteq> []"
  shows "block_ref_block_num (hd (refs c)) = target_block_num (hd (links c))"
    and "unat (source_block_num (last (links c))) = Suc (unat (block_ref_block_num (last (refs c))))"
  using assms unfolding core_ok_def invariants_def by blast+

lemma current_block_num_eq: "links c \<noteq> [] \<Longrightarrow> current_block_num c = Some (source_block_num (last (links c)))"
  by (simp add: current_block_num_def)

lemma last_final_block_num_eq: "links c \<noteq> [] \<Longrightarrow> last_final_block_num c = Some (target_block_num (hd (links c)))"
  by (simp add: last_final_block_num_def)

lemma latest_qc_claim_eq:
  "links c \<noteq> [] \<Longrightarrow> latest_qc_claim c =
     Some \<lparr>block_num = target_block_num (last (links c)), is_strong_qc = is_link_strong (last (links c))\<rparr>"
  by (simp add: latest_qc_claim_def)

lemmas core_reads = current_block_num_eq last_final_block_num_eq latest_qc_claim_eq

lemma link_source_at:
  assumes "core_ok c" and "i < length (links c)"
  shows "unat (source_block_num (links c ! i)) = unat (source_block_num (hd (links c))) + i"
proof (rule successively_numbered)
  show "successively (\<lambda>a b. unat (source_block_num b) = Suc (unat (source_block_num a))) (links c)"
    using assms(1) by (simp add: successively_conv_nth core_links_succ)
qed (fact assms(2))

lemma link_target_mono:
  assumes "core_ok c" and "i \<le> j" and "j < length (links c)"
  shows "target_block_num (links c ! i) \<le> target_block_num (links c ! j)"
  using assms(2,3)
proof (induction j)
  case (Suc j)
  then have "target_block_num (links c ! j) \<le> target_block_num (links c ! Suc j)"
    using assms(1) by (simp add: core_links_succ)
  with Suc show ?case by (cases "i = Suc j") (auto intro: order_trans)
qed simp

lemma link_target_less:
  assumes "core_ok c" and "0 < i" and "i < length (links c)"
  shows "target_block_num (links c ! i) < source_block_num (links c ! i)"
proof -
  have "links c ! i = tl (links c) ! (i - 1)" using assms by (cases "links c") auto
  then have "links c ! i \<in> set (tl (links c))" using assms by simp
  with assms(1) show ?thesis by (simp add: core_ok_def links_descend_def)
qed

lemma link_target_le:
  assumes "core_ok c" and "i < length (links c)"
  shows "target_block_num (links c ! i) \<le> source_block_num (links c ! i)"
proof (cases "i = 0")
  case True
  with assms core_front(1)[OF assms(1)] show ?thesis by (simp add: hd_conv_nth)
next
  case False
  with assms show ?thesis by (simp add: link_target_less order_less_imp_le)
qed

lemma links_length:
  assumes "core_ok c"
  shows "unat (source_block_num (last (links c))) + 1 = unat (source_block_num (hd (links c))) + length (links c)"
proof -
  have ne: "links c \<noteq> []" using assms by simp
  then have "unat (source_block_num (links c ! (length (links c) - 1))) =
      unat (source_block_num (hd (links c))) + (length (links c) - 1)"
    by (intro link_source_at[OF assms]) simp
  with ne show ?thesis by (simp add: last_conv_nth)
qed

lemma ref_num_at:
  assumes "core_ok c" and "i < length (refs c)"
  shows "unat (block_ref_block_num (refs c ! i)) = unat (target_block_num (hd (links c))) + i"
proof -
  have succ: "successively (\<lambda>a b. unat (block_ref_block_num b) = Suc (unat (block_ref_block_num a))) (refs c)"
    using assms(1) by (simp add: successively_conv_nth core_refs_succ)
  have "refs c \<noteq> []" using assms(2) by auto
  with successively_numbered[OF succ assms(2)] core_refs(1)[OF assms(1)] show ?thesis by simp
qed

text \<open>Invariant 8.\<close>

lemma refs_length:
  assumes "core_ok c"
  shows "unat (source_block_num (last (links c))) = unat (target_block_num (hd (links c))) + length (refs c)"
proof (cases "refs c = []")
  case True
  with core_no_refs[OF assms] show ?thesis by (cases "links c") auto
next
  case False
  with ref_num_at[OF assms, of "length (refs c) - 1"] core_refs(2)[OF assms] show ?thesis
    by (simp add: last_conv_nth)
qed

text \<open>The postconditions of \<^verbatim>\<open>get_qc_link_from\<close> and \<^verbatim>\<open>get_block_reference\<close>.\<close>

lemma get_qc_link_from_ok:
  assumes "core_ok c" and "source_block_num (hd (links c)) \<le> bn" and "bn \<le> source_block_num (last (links c))"
  obtains i where "i < length (links c)" and "get_qc_link_from c bn = Some (links c ! i)"
    and "source_block_num (links c ! i) = bn" and "i = unat (bn - source_block_num (hd (links c)))"
proof -
  let ?i = "unat (bn - source_block_num (hd (links c)))"
  have eq: "?i = unat bn - unat (source_block_num (hd (links c)))"
    using assms(2) by (simp add: unat_sub_le)
  then have i: "?i < length (links c)"
    using links_length[OF assms(1)] assms(2,3) by (simp add: word_le_nat_alt)
  moreover have "get_qc_link_from c bn = Some (links c ! ?i)"
    using assms i by (simp add: get_qc_link_from_def core_reads)
  moreover have "source_block_num (links c ! ?i) = bn"
    using link_source_at[OF assms(1) i] eq assms(2) by (simp add: word_unat_eq_iff word_le_nat_alt)
  ultimately show thesis using that by blast
qed

lemma get_block_reference_ok:
  assumes "core_ok c" and "target_block_num (hd (links c)) \<le> bn" and "bn < source_block_num (last (links c))"
  obtains i where "i < length (refs c)" and "get_block_reference c bn = Some (refs c ! i)"
    and "block_ref_block_num (refs c ! i) = bn" and "i = unat bn - unat (target_block_num (hd (links c)))"
proof -
  let ?i = "unat (bn - target_block_num (hd (links c)))"
  have eq: "?i = unat bn - unat (target_block_num (hd (links c)))"
    using assms(2) by (simp add: unat_sub_le)
  then have i: "?i < length (refs c)"
    using refs_length[OF assms(1)] assms(2,3) by (simp add: word_le_nat_alt word_less_nat_alt)
  moreover have "get_block_reference c bn = Some (refs c ! ?i)"
    using assms i by (simp add: get_block_reference_def core_reads)
  moreover have "block_ref_block_num (refs c ! ?i) = bn"
    using ref_num_at[OF assms(1) i] eq assms(2) by (simp add: word_unat_eq_iff word_le_nat_alt)
  ultimately show thesis using that eq by metis
qed

section \<open>The step to the next block\<close>

lemma get_new_block_numbers_ok:
  assumes ok: "core_ok c" and lower: "target_block_num (last (links c)) \<le> block_num q"
    and upper: "block_num q \<le> source_block_num (last (links c))"
  obtains i where "i < length (links c)"
    and "get_new_block_numbers c q = Some (target_block_num (links c ! i), source_block_num (links c ! i))"
    and "source_block_num (links c ! i) \<le> block_num q"
    and "is_strong_qc q \<Longrightarrow> source_block_num (links c ! i) = block_num q"
    and "\<not> is_strong_qc q \<Longrightarrow> i = 0"
proof -
  have front: "source_block_num (hd (links c)) \<le> block_num q"
    using core_front(2)[OF ok] lower by (rule order_trans)
  show thesis
  proof (cases "is_strong_qc q")
    case False
    with ok lower upper front show thesis
      by (intro that[of 0]) (simp_all add: get_new_block_numbers_def core_reads hd_conv_nth)
  next
    case True
    obtain i where i: "i < length (links c)" "get_qc_link_from c (block_num q) = Some (links c ! i)"
        "source_block_num (links c ! i) = block_num q"
      using get_qc_link_from_ok[OF ok front upper] by metis
    have "target_block_num (hd (links c)) \<le> target_block_num (links c ! i)"
      using link_target_mono[OF ok _ i(1), of 0] ok by (simp add: hd_conv_nth)
    with True ok i lower upper front show thesis
      by (intro that[of i]) (simp_all add: get_new_block_numbers_def core_reads)
  qed
qed

text \<open>
  No assertion of \<^verbatim>\<open>next\<close> fires under its preconditions, and the returned core is the old one with
  the links before some link \<open>i\<close> dropped, the references below the target of that link dropped, and
  the new link and reference at the end.
\<close>

lemma refs_index_less:
  assumes "core_ok c" and "i < length (links c)" and "refs c \<noteq> []"
  shows "unat (target_block_num (links c ! i)) - unat (target_block_num (hd (links c))) < length (refs c)"
proof -
  have "unat (target_block_num (links c ! i)) < unat (source_block_num (last (links c)))"
  proof (cases "i = 0")
    case True
    with assms refs_length[OF assms(1)] show ?thesis by (simp add: hd_conv_nth)
  next
    case False
    then show ?thesis
      using link_target_less[OF assms(1) _ assms(2)] link_source_at[OF assms(1,2)]
        links_length[OF assms(1)] assms(2)
      by (simp add: word_less_nat_alt)
  qed
  moreover have "0 < length (refs c)" using assms(3) by simp
  ultimately show ?thesis using refs_length[OF assms(1)] by linarith
qed

lemma next_core_ok:
  assumes ok: "core_ok c" and pre: "next_pre c b q"
  obtains i where "i < length (links c)"
    and "source_block_num (links c ! i) \<le> block_num q"
    and "is_strong_qc q \<Longrightarrow> source_block_num (links c ! i) = block_num q"
    and "\<not> is_strong_qc q \<Longrightarrow> i = 0"
    and "next_core c b q = Some
           \<lparr>links = drop i (links c) @ [\<lparr>source_block_num = source_block_num (last (links c)) + 1,
                                         target_block_num = block_num q, is_link_strong = is_strong_qc q\<rparr>],
            refs = drop (unat (target_block_num (links c ! i)) - unat (target_block_num (hd (links c)))) (refs c) @ [b],
            genesis_timestamp = 0\<rparr>"
    and "next_metadata c q = Some \<lparr>md_last_final_block_num = target_block_num (links c ! i),
                                    md_latest_qc_claim_block_num = block_num q\<rparr>"
proof -
  have ne: "links c \<noteq> []" using ok by simp
  have b: "block_ref_block_num b = source_block_num (last (links c))"
    and ts: "refs c \<noteq> [] \<Longrightarrow> timestamp (last (refs c)) < timestamp b"
    and le: "qc_claim_le \<lparr>block_num = target_block_num (last (links c)), is_strong_qc = is_link_strong (last (links c))\<rparr> q"
    and upper: "block_num q \<le> source_block_num (last (links c))"
    using pre ne by (auto simp: next_pre_def core_reads)
  have lower: "target_block_num (last (links c)) \<le> block_num q"
    using le by (auto simp: qc_claim_le_def)
  obtain i where i: "i < length (links c)"
    "get_new_block_numbers c q = Some (target_block_num (links c ! i), source_block_num (links c ! i))"
    "source_block_num (links c ! i) \<le> block_num q"
    "is_strong_qc q \<Longrightarrow> source_block_num (links c ! i) = block_num q"
    "\<not> is_strong_qc q \<Longrightarrow> i = 0"
    using get_new_block_numbers_ok[OF ok lower upper] by metis
  let ?lf = "target_block_num (hd (links c))" and ?t = "target_block_num (links c ! i)"
    and ?s = "source_block_num (links c ! i)"
  have lf: "?lf \<le> ?t" using link_target_mono[OF ok _ i(1), of 0] ne by (simp add: hd_conv_nth)
  have src: "unat ?s = unat (source_block_num (hd (links c))) + i" by (rule link_source_at[OF ok i(1)])
  then have src_le: "source_block_num (hd (links c)) \<le> ?s" by (simp add: word_le_nat_alt)
  then have links_index: "unat (?s - source_block_num (hd (links c))) = i"
    using src by (simp add: unat_sub_le)
  have refs_index: "unat (?t - ?lf) = unat ?t - unat ?lf" using lf by (simp add: unat_sub_le)
  have prev: "refs c = [] \<or> block_ref_block_num (last (refs c)) + 1 = block_ref_block_num b"
  proof (cases "refs c = []")
    case False
    then have eq: "unat (block_ref_block_num b) = Suc (unat (block_ref_block_num (last (refs c))))"
      using core_refs(2)[OF ok] b by simp
    then have "unat (block_ref_block_num (last (refs c)) + 1) = Suc (unat (block_ref_block_num (last (refs c))))"
      using unsigned_less[where 'a = nat, of "block_ref_block_num b"] by (intro unat_Suc_no_wrap) simp
    with eq show ?thesis by (simp add: word_unat_eq_iff)
  qed simp
  have empty: "refs c = [] \<Longrightarrow> ?t = ?lf \<and> block_ref_block_num b = ?lf"
    using core_no_refs[OF ok] i(1) b ne by (cases "links c") auto
  have kept: "refs c \<noteq> [] \<Longrightarrow> block_ref_block_num (hd (drop (unat ?t - unat ?lf) (refs c))) = ?t"
    using refs_index_less[OF ok i(1)] ref_num_at[OF ok] lf
    by (simp add: hd_drop word_unat_eq_iff word_le_nat_alt)
  have last: "last (drop i (links c)) = last (links c)" using i(1) by simp
  have hd: "hd (drop i (links c)) = links c ! i" using i(1) by (rule hd_drop)
  have hd_refs: "block_ref_block_num (hd (drop (unat ?t - unat ?lf) (refs c) @ [b])) = ?t"
    using empty kept refs_index_less[OF ok i(1)] by (cases "refs c = []") auto
  show thesis
  proof (rule that[OF i(1,3,4,5)])
    show "next_core c b q = Some
           \<lparr>links = drop i (links c) @ [\<lparr>source_block_num = source_block_num (last (links c)) + 1,
                                         target_block_num = block_num q, is_link_strong = is_strong_qc q\<rparr>],
            refs = drop (unat ?t - unat ?lf) (refs c) @ [b], genesis_timestamp = 0\<rparr>"
      unfolding next_core_def
      using ne b ts le upper lower i(1-3) lf src_le prev empty kept hd_refs refs_index_less[OF ok i(1)]
        link_target_le[OF ok i(1)]
      by (cases "refs c = []") (simp_all add: core_reads links_index refs_index last hd Let_def)
    show "next_metadata c q = Some \<lparr>md_last_final_block_num = ?t, md_latest_qc_claim_block_num = block_num q\<rparr>"
      using ne le upper i(2) by (simp add: next_metadata_def core_reads)
  qed
qed


lemma set_tl_drop: "set (tl (drop i xs)) \<subseteq> set (tl xs)"
  by (simp add: tl_drop set_drop_subset)

lemma next_core_keeps:
  assumes ok: "core_ok c" and pre: "next_pre c b q"
    and no_wrap: "Suc (unat (block_ref_block_num b)) < 2 ^ 32"
    and step: "next_core c b q = Some c'"
  shows "core_ok c'"
proof -
  obtain i where i: "i < length (links c)" "source_block_num (links c ! i) \<le> block_num q"
    and next': "next_core c b q = Some
           \<lparr>links = drop i (links c) @ [\<lparr>source_block_num = source_block_num (last (links c)) + 1,
                                         target_block_num = block_num q, is_link_strong = is_strong_qc q\<rparr>],
            refs = drop (unat (target_block_num (links c ! i)) - unat (target_block_num (hd (links c)))) (refs c) @ [b],
            genesis_timestamp = 0\<rparr>"
    by (rule next_core_ok[OF ok pre]) blast
  let ?j = "unat (target_block_num (links c ! i)) - unat (target_block_num (hd (links c)))"
  have ne: "links c \<noteq> []" using ok by simp
  have b: "block_ref_block_num b = source_block_num (last (links c))"
    and ts: "refs c \<noteq> [] \<Longrightarrow> timestamp (last (refs c)) < timestamp b"
    and lower: "target_block_num (last (links c)) \<le> block_num q"
    and upper: "block_num q \<le> source_block_num (last (links c))"
    using pre ne by (auto simp: next_pre_def core_reads qc_claim_le_def)
  have suc: "unat (source_block_num (last (links c)) + 1) = Suc (unat (source_block_num (last (links c))))"
    using no_wrap b by (simp add: unat_Suc_no_wrap)
  have last: "last (drop i (links c)) = last (links c)" and hd: "hd (drop i (links c)) = links c ! i"
    using i(1) by (simp_all add: hd_drop)
  have front: "target_block_num (hd (links c)) \<le> target_block_num (links c ! i)"
    using link_target_mono[OF ok _ i(1), of 0] ne by (simp add: hd_conv_nth)
  have hd_refs: "block_ref_block_num (hd (drop ?j (refs c) @ [b])) = target_block_num (links c ! i)"
  proof (cases "refs c = []")
    case True
    with core_no_refs[OF ok] i(1) b show ?thesis by (cases "links c") auto
  next
    case False
    note j = refs_index_less[OF ok i(1) False]
    then have "hd (drop ?j (refs c) @ [b]) = refs c ! ?j" by (simp add: hd_drop)
    with ref_num_at[OF ok j] front show ?thesis by (simp add: word_unat_eq_iff word_le_nat_alt)
  qed
  have last_refs: "drop ?j (refs c) \<noteq> [] \<Longrightarrow> last (drop ?j (refs c)) = last (refs c)"
    by simp
  have inv: "invariants c" using ok by (simp add: core_ok_def)
  have links_succ: "successively (\<lambda>a b. unat (source_block_num b) = Suc (unat (source_block_num a)) \<and>
                         target_block_num a \<le> target_block_num b) (links c')"
    using inv step next' i(1) suc lower
    by (auto simp: successively_snoc successively_drop last invariants_def)
  have refs_succ: "successively (\<lambda>a b. unat (block_ref_block_num b) = Suc (unat (block_ref_block_num a)) \<and>
                         timestamp a < timestamp b) (refs c')"
  proof -
    have "successively (\<lambda>a b. unat (block_ref_block_num b) = Suc (unat (block_ref_block_num a)) \<and>
                         timestamp a < timestamp b) (refs c)"
      using inv unfolding invariants_def by blast
    then show ?thesis
      using step next' ts b core_refs(2)[OF ok]
      by (cases "refs c = []") (auto simp: successively_snoc successively_drop last_refs)
  qed
  have "\<forall>l\<in>set (tl (drop i (links c))). target_block_num l < source_block_num l"
    using ok set_tl_drop[of i "links c"] unfolding core_ok_def links_descend_def by blast
  moreover have "block_num q < source_block_num (last (links c)) + 1"
    using upper suc by (simp add: word_less_nat_alt word_le_nat_alt)
  ultimately have "links_descend c'"
    using step next' i(1) by (auto simp: links_descend_def)
  moreover have "invariants c'"
    using links_succ refs_succ step next' i hd hd_refs link_target_le[OF ok i(1)] suc b
    unfolding invariants_def by auto
  ultimately show ?thesis by (simp add: core_ok_def)
qed

lemma core_ok_genesis: "core_ok (create_core_for_genesis_block bid ts)"
  by (simp add: create_core_for_genesis_block_def core_ok_def invariants_def links_descend_def Let_def)


lemma next_core_Some_pre:
  assumes "next_core c b q = Some c'"
  shows "next_pre c b q"
proof -
  obtain cur latest where "current_block_num c = Some cur" "block_ref_block_num b = cur"
    "refs c = [] \<or> timestamp (last (refs c)) < timestamp b" "block_num q \<le> cur"
    "latest_qc_claim c = Some latest" "qc_claim_le latest q"
    using assms unfolding next_core_def bind_eq_Some_conv assert_opt_Some_iff by blast
  then show ?thesis by (auto simp: next_pre_def)
qed

section \<open>Refinement: the core is a window of the whole history\<close>

text \<open>
  A branch of the chain from the genesis block: the references of its blocks, each with the QC
  claim made by the block after it. The core of the last block is obtained by one \<^verbatim>\<open>next\<close> per step.
\<close>

type_synonym history = "(block_ref \<times> qc_claim_t) list"

fun core_run :: "finality_core \<Rightarrow> history \<Rightarrow> finality_core option" where
  "core_run c [] = Some c"
| "core_run c ((b, q) # steps) = do { c' \<leftarrow> next_core c b q; core_run c' steps }"

lemma core_run_snoc:
  "core_run c (steps @ [(b, q)]) = do { c' \<leftarrow> core_run c steps; next_core c' b q }"
  by (induction c steps rule: core_run.induct) (auto split: bind_splits)

text \<open>The links and references of the whole branch, nothing dropped.\<close>

definition all_links :: "block_num_type \<Rightarrow> history \<Rightarrow> qc_link list" where
  "all_links g steps =
     \<lparr>source_block_num = g, target_block_num = g, is_link_strong = False\<rparr> #
     map (\<lambda>(b, q). \<lparr>source_block_num = block_ref_block_num b + 1, target_block_num = block_num q,
                    is_link_strong = is_strong_qc q\<rparr>) steps"

text \<open>
  The two-chain rule on the whole branch: \<open>claim_of n\<close> is the block claimed by block \<open>n\<close>, and the
  last final block is the one claimed by the block that the latest strong claim is about.
\<close>

definition claim_of :: "block_num_type \<Rightarrow> history \<Rightarrow> block_num_type \<Rightarrow> block_num_type" where
  "claim_of g steps n = target_block_num (all_links g steps ! (unat n - unat g))"

definition final_of :: "block_num_type \<Rightarrow> history \<Rightarrow> block_num_type" where
  "final_of g steps =
     (case rev (filter (\<lambda>(b, q). is_strong_qc q) steps) of
        [] \<Rightarrow> g
      | (b, q) # _ \<Rightarrow> claim_of g steps (block_num q))"

definition core_refines :: "block_num_type \<Rightarrow> history \<Rightarrow> finality_core \<Rightarrow> bool" where
  "core_refines g steps c \<longleftrightarrow>
     core_ok c \<and>
     unat (source_block_num (last (links c))) = unat g + length steps \<and>
     (\<forall>i<length steps. unat (block_ref_block_num (fst (steps ! i))) = unat g + i) \<and>
     (\<forall>i<length steps. unat (block_num (snd (steps ! i))) \<in> {unat g..unat g + i}) \<and>
     (\<exists>k<length (all_links g steps). links c = drop k (all_links g steps)) \<and>
     unat g \<le> unat (target_block_num (hd (links c))) \<and>
     refs c = drop (unat (target_block_num (hd (links c))) - unat g) (map fst steps) \<and>
     target_block_num (hd (links c)) = final_of g steps"

lemma all_links_snoc:
  "all_links g (steps @ [(b, q)]) = all_links g steps @
     [\<lparr>source_block_num = block_ref_block_num b + 1, target_block_num = block_num q, is_link_strong = is_strong_qc q\<rparr>]"
  by (simp add: all_links_def)

lemma length_all_links [simp]: "length (all_links g steps) = Suc (length steps)"
  by (simp add: all_links_def)

lemma claim_of_snoc:
  "unat n \<le> unat g + length steps \<Longrightarrow> claim_of g (steps @ [(b, q)]) n = claim_of g steps n"
  by (auto simp: claim_of_def all_links_snoc nth_append)

lemma final_of_snoc_strong:
  "is_strong_qc q \<Longrightarrow> final_of g (steps @ [(b, q)]) = claim_of g (steps @ [(b, q)]) (block_num q)"
  by (simp add: final_of_def)

lemma final_of_snoc_weak:
  assumes "\<not> is_strong_qc q" and "\<forall>i<length steps. unat (block_num (snd (steps ! i))) \<le> unat g + i"
  shows "final_of g (steps @ [(b, q)]) = final_of g steps"
proof (cases "rev (filter (\<lambda>(b, q). is_strong_qc q) steps)")
  case Nil
  with assms(1) show ?thesis by (simp add: final_of_def)
next
  case (Cons x xs)
  then have "x \<in> set (rev (filter (\<lambda>(b, q). is_strong_qc q) steps))" by simp
  then obtain i where "i < length steps" "steps ! i = x" by (auto simp: in_set_conv_nth)
  with assms(2) have "unat (block_num (snd x)) \<le> unat g + length steps" by fastforce
  with assms(1) Cons show ?thesis
    by (cases x) (simp add: final_of_def claim_of_snoc)
qed

lemma core_refines_genesis: "core_refines (num_from_id gid) [] (create_core_for_genesis_block gid ts)"
  using core_ok_genesis[of gid ts]
  by (simp add: core_refines_def create_core_for_genesis_block_def all_links_def final_of_def Let_def)


lemma core_refines_next:
  assumes ref: "core_refines g steps c" and step: "next_core c b q = Some c'"
    and no_wrap: "unat g + Suc (length steps) < 2 ^ 32"
  shows "core_refines g (steps @ [(b, q)]) c'"
proof -
  have ok: "core_ok c" and cur: "unat (source_block_num (last (links c))) = unat g + length steps"
    and nums: "\<forall>i<length steps. unat (block_ref_block_num (fst (steps ! i))) = unat g + i"
    and claims: "\<forall>i<length steps. unat (block_num (snd (steps ! i))) \<in> {unat g..unat g + i}"
    and g_le: "unat g \<le> unat (target_block_num (hd (links c)))"
    and refs: "refs c = drop (unat (target_block_num (hd (links c))) - unat g) (map fst steps)"
    and final: "target_block_num (hd (links c)) = final_of g steps"
    using ref unfolding core_refines_def by blast+
  obtain k where k: "k < Suc (length steps)" "links c = drop k (all_links g steps)"
    using ref by (auto simp: core_refines_def)
  have pre: "next_pre c b q" by (rule next_core_Some_pre[OF step])
  obtain i where i: "i < length (links c)" "is_strong_qc q \<Longrightarrow> source_block_num (links c ! i) = block_num q"
      "\<not> is_strong_qc q \<Longrightarrow> i = 0"
    and c': "c' = \<lparr>links = drop i (links c) @ [\<lparr>source_block_num = source_block_num (last (links c)) + 1,
                                         target_block_num = block_num q, is_link_strong = is_strong_qc q\<rparr>],
            refs = drop (unat (target_block_num (links c ! i)) - unat (target_block_num (hd (links c)))) (refs c) @ [b],
            genesis_timestamp = 0\<rparr>"
  proof (rule next_core_ok[OF ok pre], goal_cases)
    case (1 j)
    show ?case by (rule 1(1)[OF 1(2,4,5)]) (use 1(6) step in simp_all)
  qed
  let ?lf = "unat (target_block_num (hd (links c)))" and ?t = "unat (target_block_num (links c ! i))"
  have b: "block_ref_block_num b = source_block_num (last (links c))"
    and lower: "target_block_num (last (links c)) \<le> block_num q"
    and upper: "block_num q \<le> source_block_num (last (links c))"
    using pre core_links_ne[OF ok] by (auto simp: next_pre_def core_reads qc_claim_le_def)
  have front: "?lf \<le> ?t"
    using link_target_mono[OF ok _ i(1), of 0] ok by (simp add: hd_conv_nth word_le_nat_alt)
  have q_le: "unat g \<le> unat (block_num q)" "unat (block_num q) \<le> unat g + length steps"
    using g_le core_front[OF ok] lower upper cur by (auto simp: word_le_nat_alt)
  have t_le: "?t \<le> unat g + length steps"
    using link_target_le[OF ok i(1)] link_source_at[OF ok i(1)] links_length[OF ok] i(1) cur
    by (simp add: word_le_nat_alt)
  have suc: "unat (source_block_num (last (links c)) + 1) = Suc (unat g + length steps)"
    using cur no_wrap by (simp add: unat_Suc_no_wrap)
  have hd': "hd (links c') = links c ! i" using c' i(1) by (simp add: hd_drop)
  have pos: "unat (source_block_num (links c ! j)) = unat g + k + j" if "j < length (links c)" for j
    using link_source_at[OF ok that] links_length[OF ok] cur k that by simp
  have final': "target_block_num (links c ! i) = final_of g (steps @ [(b, q)])"
  proof (cases "is_strong_qc q")
    case True
    with i(2) have "block_num q = source_block_num (links c ! i)" by simp
    then have "claim_of g steps (block_num q) = target_block_num (links c ! i)"
      using pos[OF i(1)] k i(1) by (simp add: claim_of_def)
    with True q_le show ?thesis by (simp add: final_of_snoc_strong claim_of_snoc)
  next
    case False
    with i(3) final claims core_links_ne[OF ok] show ?thesis
      by (simp add: final_of_snoc_weak hd_conv_nth)
  qed
  have links': "links c' = drop (k + i) (all_links g (steps @ [(b, q)]))"
    using c' k i(1) b by (simp add: all_links_snoc add.commute)
  have refs': "refs c' = drop (?t - unat g) (map fst (steps @ [(b, q)]))"
    using c' refs front g_le t_le by (simp add: add.commute)
  have "core_ok c'"
    using no_wrap cur b by (intro next_core_keeps[OF ok pre _ step]) simp
  moreover have "k + i < length (all_links g (steps @ [(b, q)]))" using k i(1) by simp
  moreover have "unat (source_block_num (last (links c'))) = unat g + length (steps @ [(b, q)])"
    using c' suc by simp
  moreover have "\<forall>j<length (steps @ [(b, q)]). unat (block_ref_block_num (fst ((steps @ [(b, q)]) ! j))) = unat g + j"
    using nums b cur by (auto simp: nth_append less_Suc_eq)
  moreover have "\<forall>j<length (steps @ [(b, q)]). unat (block_num (snd ((steps @ [(b, q)]) ! j))) \<in> {unat g..unat g + j}"
    using claims q_le by (auto simp: nth_append less_Suc_eq)
  ultimately show ?thesis
    unfolding core_refines_def hd' using links' refs' final' order_trans[OF g_le front] by blast
qed

lemma core_run_refines:
  assumes "core_run (create_core_for_genesis_block gid ts) steps = Some c"
    and "unat (num_from_id gid) + length steps < 2 ^ 32"
  shows "core_refines (num_from_id gid) steps c"
  using assms
proof (induction steps arbitrary: c rule: rev_induct)
  case Nil
  then show ?case using core_refines_genesis by auto
next
  case (snoc x steps)
  obtain b q where x: "x = (b, q)" by (cases x)
  with snoc.prems(1) obtain c0 where "core_run (create_core_for_genesis_block gid ts) steps = Some c0"
      and "next_core c0 b q = Some c"
    by (auto simp: core_run_snoc bind_eq_Some_conv)
  with snoc.IH[of c0] snoc.prems(2) x show ?case by (auto intro: core_refines_next)
qed


lemma extends_iff:
  assumes "core_refines g steps c"
  shows "extends c bid = Some (bid \<in> (\<lambda>s. block_id (fst s)) ` set steps \<and> final_of g steps \<le> num_from_id bid)"
proof -
  have ok: "core_ok c" and cur: "unat (source_block_num (last (links c))) = unat g + length steps"
    and nums: "\<And>i. i < length steps \<Longrightarrow> unat (block_ref_block_num (fst (steps ! i))) = unat g + i"
    and g_le: "unat g \<le> unat (target_block_num (hd (links c)))"
    and refs: "refs c = drop (unat (target_block_num (hd (links c))) - unat g) (map fst steps)"
    and final: "target_block_num (hd (links c)) = final_of g steps"
    using assms unfolding core_refines_def by blast+
  let ?lf = "target_block_num (hd (links c))" and ?bn = "num_from_id bid"
  have mem: "?bn < source_block_num (last (links c)) \<and> block_id (fst (steps ! (unat ?bn - unat g))) = bid"
    if "s \<in> set steps" "bid = block_id (fst s)" for s
  proof -
    obtain i where i: "i < length steps" "s = steps ! i"
      using \<open>s \<in> set steps\<close> by (metis in_set_conv_nth)
    then have "unat ?bn = unat g + i" using nums[of i] that(2) by (simp add: block_ref_block_num_def)
    with i that(2) cur show ?thesis by (simp add: word_less_nat_alt)
  qed
  show ?thesis
  proof (cases "?lf \<le> ?bn \<and> ?bn < source_block_num (last (links c))")
    case True
    then obtain i where i: "i < length (refs c)" "get_block_reference c ?bn = Some (refs c ! i)"
      "i = unat ?bn - unat ?lf"
      using get_block_reference_ok[OF ok] by metis
    have n: "unat ?bn - unat g < length steps" using True cur g_le by (auto simp: word_less_nat_alt word_le_nat_alt)
    have "refs c ! i = fst (steps ! (unat ?bn - unat g))"
      using True i g_le n by (simp add: refs word_le_nat_alt)
    then have "extends c bid = Some (block_id (fst (steps ! (unat ?bn - unat g))) = bid)"
      using True i ok by (simp add: extends_def core_reads)
    with True n mem final show ?thesis by (auto intro!: rev_image_eqI[of "steps ! (unat ?bn - unat g)"])
  next
    case False
    with mem final ok show ?thesis by (auto simp: extends_def core_reads)
  qed
qed

section \<open>Properties\<close>

text \<open>
  C6. The step of the finality core. On a core that satisfies the invariants of the header, and under
  the preconditions of \<^verbatim>\<open>next\<close>, no assertion fires; the returned core satisfies the invariants again,
  is one block higher, makes exactly the given claim, never moves the last final block back, and has
  the last final block that \<^verbatim>\<open>next_metadata\<close> announces.
\<close>

theorem next_core_correct:
  assumes "core_ok c" and "next_pre c b q" and "Suc (unat (block_ref_block_num b)) < 2 ^ 32"
  shows "\<exists>c' lf lf' md. next_core c b q = Some c' \<and> core_ok c' \<and>
           current_block_num c' = Some (block_ref_block_num b + 1) \<and>
           latest_qc_claim c' = Some q \<and>
           last_final_block_num c = Some lf \<and> last_final_block_num c' = Some lf' \<and> lf \<le> lf' \<and>
           next_metadata c q = Some md \<and> md_last_final_block_num md = lf' \<and>
           md_latest_qc_claim_block_num md = block_num q"
proof -
  obtain i where i: "i < length (links c)"
    and c': "next_core c b q = Some
           \<lparr>links = drop i (links c) @ [\<lparr>source_block_num = source_block_num (last (links c)) + 1,
                                         target_block_num = block_num q, is_link_strong = is_strong_qc q\<rparr>],
            refs = drop (unat (target_block_num (links c ! i)) - unat (target_block_num (hd (links c)))) (refs c) @ [b],
            genesis_timestamp = 0\<rparr>" (is "_ = Some ?c'")
    and md: "next_metadata c q = Some \<lparr>md_last_final_block_num = target_block_num (links c ! i),
                                    md_latest_qc_claim_block_num = block_num q\<rparr>"
    by (rule next_core_ok[OF assms(1,2)]) blast
  have ne: "links c \<noteq> []" using assms(1) by simp
  have "core_ok ?c'" by (rule next_core_keeps[OF assms c'])
  moreover have "target_block_num (hd (links c)) \<le> target_block_num (links c ! i)"
    using link_target_mono[OF assms(1) _ i, of 0] ne by (simp add: hd_conv_nth)
  moreover have "block_ref_block_num b = source_block_num (last (links c))"
    using assms(2) ne by (simp add: next_pre_def core_reads)
  ultimately show ?thesis using c' md ne i by (simp add: core_reads hd_drop)
qed

definition ex_gid :: block_id_type where
  "ex_gid = calculate_id sha256_zero 7"

definition ex_ref :: "block_num_type \<Rightarrow> block_timestamp_type \<Rightarrow> block_ref" where
  "ex_ref n ts = \<lparr>block_id = calculate_id sha256_zero n, timestamp = ts, finality_digest = sha256_zero,
                  active_policy_generation = 1, pending_policy_generation = 0\<rparr>"

definition ex_claim :: "block_num_type \<Rightarrow> bool \<Rightarrow> qc_claim_t" where
  "ex_claim n s = \<lparr>block_num = n, is_strong_qc = s\<rparr>"

lemma ex_ref_simps [simp]:
  "num_from_id ex_gid = 7"
  "block_ref_block_num (ex_ref n ts) = n" "timestamp (ex_ref n ts) = ts"
  "block_num (ex_claim n s) = n" "is_strong_qc (ex_claim n s) = s"
  by (simp_all add: ex_gid_def ex_ref_def ex_claim_def block_ref_block_num_def num_from_id_calculate_id)

theorem next_core_correct_witness:
  "\<exists>c'. next_core (create_core_for_genesis_block ex_gid 100) (ex_ref 7 100) (ex_claim 7 True) = Some c' \<and>
        current_block_num c' = Some 8 \<and> latest_qc_claim c' = Some (ex_claim 7 True)"
proof -
  have "next_pre (create_core_for_genesis_block ex_gid 100) (ex_ref 7 100) (ex_claim 7 True)"
    by (simp add: next_pre_def create_core_for_genesis_block_def current_block_num_def latest_qc_claim_def
                  qc_claim_le_def Let_def)
  from next_core_correct[OF core_ok_genesis this] show ?thesis by auto
qed

text \<open>
  C7. The core is a faithful window of the whole branch. For every sequence of \<^verbatim>\<open>next\<close> steps from
  the genesis core that passes the assertions (and stays below block number \<open>2\<^sup>3\<^sup>2\<close>), the core of the
  last block has as last final block the one given by the two-chain rule on the complete history, and
  \<^verbatim>\<open>extends(id)\<close> answers whether \<open>id\<close> is one of the ancestors, for ids not below the last final block.
\<close>

theorem core_run_history:
  assumes "core_run (create_core_for_genesis_block gid ts) steps = Some c"
    and "unat (num_from_id gid) + length steps < 2 ^ 32"
  shows "last_final_block_num c = Some (final_of (num_from_id gid) steps) \<and>
         current_block_num c = Some (num_from_id gid + of_nat (length steps)) \<and>
         (\<forall>bid. extends c bid = Some (bid \<in> (\<lambda>s. block_id (fst s)) ` set steps \<and>
                                      final_of (num_from_id gid) steps \<le> num_from_id bid))"
proof -
  have ref: "core_refines (num_from_id gid) steps c" by (rule core_run_refines[OF assms])
  then have ne: "links c \<noteq> []"
    and final: "target_block_num (hd (links c)) = final_of (num_from_id gid) steps"
    and cur: "unat (source_block_num (last (links c))) = unat (num_from_id gid) + length steps"
    by (simp_all add: core_refines_def)
  from cur assms(2) have "source_block_num (last (links c)) = num_from_id gid + of_nat (length steps)"
    by (simp add: word_unat_eq_iff unat_word_ariths unat_of_nat)
  with ne final extends_iff[OF ref] show ?thesis by (simp add: core_reads)
qed

theorem core_run_history_witness:
  "\<exists>c. core_run (create_core_for_genesis_block ex_gid 100)
         [(ex_ref 7 100, ex_claim 7 False), (ex_ref 8 101, ex_claim 8 True), (ex_ref 9 102, ex_claim 9 True)] = Some c \<and>
       last_final_block_num c = Some 8 \<and> extends c (block_id (ex_ref 8 101)) = Some True"
proof -
  let ?steps = "[(ex_ref 7 100, ex_claim 7 False), (ex_ref 8 101, ex_claim 8 True), (ex_ref 9 102, ex_claim 9 True)]"
  obtain c where c: "core_run (create_core_for_genesis_block ex_gid 100) ?steps = Some c"
    by (simp add: create_core_for_genesis_block_def next_core_def current_block_num_def latest_qc_claim_def
        last_final_block_num_def get_new_block_numbers_def get_qc_link_from_def qc_claim_le_def Let_def)
  have "final_of 7 ?steps = 8"
    by (simp add: final_of_def claim_of_def all_links_def)
  with c core_run_history[OF c] show ?thesis
    by (simp add: ex_ref_def num_from_id_calculate_id)
qed

end
