(* ===== verification/Ordered_Diff.thy ===== *)
theory Ordered_Diff
  imports Prelude
begin

text \<open>
  \<^verbatim>\<open>fc::ordered_diff\<close> (libfc/include/fc/container/ordered_diff.hpp) at the index type \<^verbatim>\<open>uint16_t\<close> used
  by the finalizer and the proposer policies, and the interface of a differ that the policies rely on
  (the locale \<open>differ\<close>): applying the difference of two containers to the first gives the second.
\<close>

section \<open>The code\<close>

record 'a diff_result =
  remove_indexes :: "u16 list"
  insert_indexes :: "(u16 \<times> 'a) list"

text \<open>\<^verbatim>\<open>std::numeric_limits<uint16_t>::max()\<close>.\<close>

definition max_index :: nat where
  "max_index = 65535"

definition push_remove :: "nat \<Rightarrow> 'a diff_result \<Rightarrow> 'a diff_result option" where
  "push_remove s r = do {
     assert_opt (s \<le> max_index);
     Some (r\<lparr>remove_indexes := remove_indexes r @ [of_nat s]\<rparr>)
   }"

definition push_insert :: "nat \<Rightarrow> 'a \<Rightarrow> 'a diff_result \<Rightarrow> 'a diff_result option" where
  "push_insert t v r = do {
     assert_opt (t \<le> max_index);
     Some (r\<lparr>insert_indexes := insert_indexes r @ [(of_nat t, v)]\<rparr>)
   }"

text \<open>The loop of \<^verbatim>\<open>diff\<close>, from positions \<open>s\<close> and \<open>t\<close>.\<close>

function diff_loop :: "'a list \<Rightarrow> 'a list \<Rightarrow> nat \<Rightarrow> nat \<Rightarrow> 'a diff_result \<Rightarrow> 'a diff_result option" where
  "diff_loop source target s t result =
     (if s < length source \<or> t < length target then do {
        assert_opt (s \<le> length source);
        assert_opt (t \<le> length target);
        if s < length source \<and> t < length target then
          (if source ! s = target ! t then diff_loop source target (s + 1) (t + 1) result
           else if s = length source - 1 \<and> t = length target - 1 then do {
             r \<leftarrow> push_remove s result;
             r \<leftarrow> push_insert t (target ! t) r;
             diff_loop source target (s + 1) (t + 1) r
           }
           else if s + 1 < length source \<and> t + 1 < length target \<and> source ! (s + 1) = target ! (t + 1) then do {
             r \<leftarrow> push_remove s result;
             r \<leftarrow> push_insert t (target ! t) r;
             diff_loop source target (s + 1) (t + 1) r
           }
           else if t + 1 < length target \<and> source ! s = target ! (t + 1) then do {
             r \<leftarrow> push_insert t (target ! t) result;
             diff_loop source target s (t + 1) r
           }
           else do {
             r \<leftarrow> push_remove s result;
             diff_loop source target (s + 1) t r
           })
        else if s < length source then do {
          r \<leftarrow> push_remove s result;
          diff_loop source target (s + 1) t r
        }
        else do {
          r \<leftarrow> push_insert t (target ! t) result;
          diff_loop source target s (t + 1) r
        }
      } else Some result)"
  by pat_completeness auto
termination
  by (relation "measure (\<lambda>(source, target, s, t, r). (length source - s) + (length target - t))") auto

declare diff_loop.simps [simp del]

definition diff :: "'a list \<Rightarrow> 'a list \<Rightarrow> 'a diff_result res" where
  "diff source target =
     bind_res (eos_assert (source = [] \<or> length source - 1 \<le> max_index) fc_assert_exception) (\<lambda>_.
     bind_res (eos_assert (target = [] \<or> length target - 1 \<le> max_index) fc_assert_exception) (\<lambda>_.
     asserted (diff_loop source target 0 0 \<lparr>remove_indexes = [], insert_indexes = []\<rparr>)))"

text \<open>The two loops of \<^verbatim>\<open>apply_diff\<close>; \<open>i\<close> counts the iterations and \<open>prev\<close> is the preceding index.\<close>

fun remove_loop :: "nat \<Rightarrow> u16 option \<Rightarrow> u16 list \<Rightarrow> 'a list \<Rightarrow> 'a list res" where
  "remove_loop i prev [] container = Inr container"
| "remove_loop i prev (r # rs) container =
     bind_res (eos_assert (case prev of None \<Rightarrow> True | Some p \<Rightarrow> p < r) fc_assert_exception) (\<lambda>_.
     bind_res (asserted (assert_opt (i \<le> unat r))) (\<lambda>_.
     let updated_index = unat r - i in
     bind_res (eos_assert (updated_index < length container) fc_assert_exception) (\<lambda>_.
     remove_loop (i + 1) (Some r) rs (take updated_index container @ drop (updated_index + 1) container))))"

fun insert_loop :: "u16 option \<Rightarrow> (u16 \<times> 'a) list \<Rightarrow> 'a list \<Rightarrow> 'a list res" where
  "insert_loop prev [] container = Inr container"
| "insert_loop prev ((index, v) # is) container =
     bind_res (eos_assert (case prev of None \<Rightarrow> True | Some p \<Rightarrow> p < index) fc_assert_exception) (\<lambda>_.
     bind_res (eos_assert (unat index \<le> length container) fc_assert_exception) (\<lambda>_.
     insert_loop (Some index) is (take (unat index) container @ [v] @ drop (unat index) container)))"

definition apply_diff :: "'a list \<Rightarrow> 'a diff_result \<Rightarrow> 'a list res" where
  "apply_diff container d =
     bind_res (remove_loop 0 None (remove_indexes d) container) (\<lambda>c.
     insert_loop None (insert_indexes d) c)"

section \<open>What a difference is\<close>

text \<open>
  The positions \<open>rm\<close> of the source from \<open>s\<close> on and the positions \<open>ins\<close> of the target from \<open>t\<close> on are a
  difference if what remains of the source is, in order, the part of the target not inserted.
\<close>

definition is_diff :: "'a list \<Rightarrow> 'a list \<Rightarrow> nat \<Rightarrow> nat \<Rightarrow> nat list \<Rightarrow> nat list \<Rightarrow> bool" where
  "is_diff source target s t rm ins \<longleftrightarrow>
     sorted_wrt (<) rm \<and> set rm \<subseteq> {s..<length source} \<and>
     sorted_wrt (<) ins \<and> set ins \<subseteq> {t..<length target} \<and>
     map (nth source) (filter (\<lambda>j. j \<notin> set rm) [s..<length source]) =
     map (nth target) (filter (\<lambda>j. j \<notin> set ins) [t..<length target])"

lemma is_diff_end: "length source \<le> s \<Longrightarrow> length target \<le> t \<Longrightarrow> is_diff source target s t [] []"
  by (simp add: is_diff_def)

lemma is_diff_keep:
  assumes "is_diff source target (Suc s) (Suc t) rm ins"
    and "s < length source" and "t < length target" and "source ! s = target ! t"
  shows "is_diff source target s t rm ins"
proof -
  have "s \<notin> set rm" "t \<notin> set ins" using assms(1) by (auto simp: is_diff_def)
  with assms show ?thesis by (auto simp: is_diff_def upt_conv_Cons)
qed

lemma filter_upt_skip:
  "a < n \<Longrightarrow> filter (\<lambda>j. j \<notin> set (a # xs)) [a..<n] = filter (\<lambda>j. j \<notin> set xs) [Suc a..<n]"
  by (simp add: upt_conv_Cons cong: filter_cong) (auto intro: filter_cong)

lemma is_diff_remove:
  assumes "is_diff source target (Suc s) t rm ins" and "s < length source"
  shows "is_diff source target s t (s # rm) ins"
  using assms unfolding is_diff_def filter_upt_skip[OF assms(2)] by (auto simp: Suc_le_eq)

lemma is_diff_insert:
  assumes "is_diff source target s (Suc t) rm ins" and "t < length target"
  shows "is_diff source target s t rm (t # ins)"
  using assms unfolding is_diff_def filter_upt_skip[OF assms(2)] by (auto simp: Suc_le_eq)

lemmas is_diff_replace = is_diff_remove[OF is_diff_insert]

section \<open>The loop computes a difference\<close>

definition extend_result :: "'a list \<Rightarrow> nat list \<Rightarrow> nat list \<Rightarrow> 'a diff_result \<Rightarrow> 'a diff_result" where
  "extend_result target rm ins r =
     \<lparr>remove_indexes = remove_indexes r @ map of_nat rm,
      insert_indexes = insert_indexes r @ map (\<lambda>j. (of_nat j, target ! j)) ins\<rparr>"

lemma extend_result_nil: "extend_result target [] [] r = r"
  by (simp add: extend_result_def)

lemma push_remove_extend:
  "s \<le> max_index \<Longrightarrow> \<exists>r'. push_remove s r = Some r' \<and>
     (\<forall>rm ins. extend_result target rm ins r' = extend_result target (s # rm) ins r)"
  by (simp add: push_remove_def extend_result_def)

lemma push_insert_extend:
  "t \<le> max_index \<Longrightarrow> \<exists>r'. push_insert t (target ! t) r = Some r' \<and>
     (\<forall>rm ins. extend_result target rm ins r' = extend_result target rm (t # ins) r)"
  by (simp add: push_insert_def extend_result_def)

lemma push_both_extend:
  assumes "s \<le> max_index" and "t \<le> max_index"
  shows "\<exists>r1 r'. push_remove s r = Some r1 \<and> push_insert t (target ! t) r1 = Some r' \<and>
     (\<forall>rm ins. extend_result target rm ins r' = extend_result target (s # rm) (t # ins) r)"
  using assms by (simp add: push_remove_def push_insert_def extend_result_def)

lemma diff_loop_ok:
  assumes "s \<le> length source" and "t \<le> length target"
    and "length source \<le> Suc max_index" and "length target \<le> Suc max_index"
  shows "\<exists>rm ins. diff_loop source target s t r = Some (extend_result target rm ins r) \<and>
                  is_diff source target s t rm ins"
  using assms
proof (induction "(length source - s) + (length target - t)" arbitrary: s t r rule: less_induct)
  case less
  have IH: "\<exists>rm ins. diff_loop source target s' t' r' = Some (extend_result target rm ins r') \<and>
                     is_diff source target s' t' rm ins"
    if "s \<le> s'" "s' \<le> length source" "t \<le> t'" "t' \<le> length target" "s < s' \<or> t < t'" for s' t' r'
    using that less.prems by (intro less.hyps) auto
  consider (fin) "s = length source" "t = length target"
    | (keep) "s < length source" "t < length target" "source ! s = target ! t"
    | (repl) "s < length source" "t < length target" "source ! s \<noteq> target ! t"
        "s = length source - 1 \<and> t = length target - 1 \<or>
         s + 1 < length source \<and> t + 1 < length target \<and> source ! (s + 1) = target ! (t + 1)"
    | (ins) "t < length target"
        "s < length source \<longrightarrow> source ! s \<noteq> target ! t \<and> \<not> (s = length source - 1 \<and> t = length target - 1) \<and>
           \<not> (s + 1 < length source \<and> t + 1 < length target \<and> source ! (s + 1) = target ! (t + 1)) \<and>
           t + 1 < length target \<and> source ! s = target ! (t + 1)"
    | (rem) "s < length source"
        "t < length target \<longrightarrow> source ! s \<noteq> target ! t \<and> \<not> (s = length source - 1 \<and> t = length target - 1) \<and>
           \<not> (s + 1 < length source \<and> t + 1 < length target \<and> source ! (s + 1) = target ! (t + 1)) \<and>
           \<not> (t + 1 < length target \<and> source ! s = target ! (t + 1))"
    using less.prems by (meson le_neq_implies_less)
  then show ?case
  proof cases
    case fin
    then show ?thesis
      using is_diff_end[of source s target t] extend_result_nil[of target r]
      by (subst diff_loop.simps) force
  next
    case keep
    then obtain rm ins where "diff_loop source target (Suc s) (Suc t) r = Some (extend_result target rm ins r)"
        and "is_diff source target (Suc s) (Suc t) rm ins"
      using IH[of "Suc s" "Suc t" r] by auto
    with keep show ?thesis by (subst diff_loop.simps) (auto intro: is_diff_keep)
  next
    case repl
    obtain r1 r' where r': "push_remove s r = Some r1" "push_insert t (target ! t) r1 = Some r'"
        "\<And>rm ins. extend_result target rm ins r' = extend_result target (s # rm) (t # ins) r"
      using push_both_extend[of s t r target] repl less.prems by auto
    obtain rm ins where loop: "diff_loop source target (Suc s) (Suc t) r' = Some (extend_result target rm ins r')"
        and "is_diff source target (Suc s) (Suc t) rm ins"
      using IH[of "Suc s" "Suc t" r'] repl by auto
    then have "is_diff source target s t (s # rm) (t # ins)"
      using repl by (blast intro: is_diff_replace)
    moreover have "diff_loop source target s t r = Some (extend_result target (s # rm) (t # ins) r)"
      using repl r' loop by (subst diff_loop.simps) auto
    ultimately show ?thesis by blast
  next
    case ins
    obtain r' where r': "push_insert t (target ! t) r = Some r'"
        "\<And>rm ins. extend_result target rm ins r' = extend_result target rm (t # ins) r"
      using push_insert_extend[of t target r] ins less.prems by auto
    obtain rm ins' where loop: "diff_loop source target s (Suc t) r' = Some (extend_result target rm ins' r')"
        and "is_diff source target s (Suc t) rm ins'"
      using IH[of s "Suc t" r'] ins less.prems by auto
    then have "is_diff source target s t rm (t # ins')" using ins(1) by (blast intro: is_diff_insert)
    moreover have "diff_loop source target s t r = Some (extend_result target rm (t # ins') r)"
      using ins r' less.prems loop by (subst diff_loop.simps) auto
    ultimately show ?thesis by blast
  next
    case rem
    obtain r' where r': "push_remove s r = Some r'"
        "\<And>rm ins. extend_result target rm ins r' = extend_result target (s # rm) ins r"
      using push_remove_extend[of s r target] rem less.prems by auto
    obtain rm ins where loop: "diff_loop source target (Suc s) t r' = Some (extend_result target rm ins r')"
        and "is_diff source target (Suc s) t rm ins"
      using IH[of "Suc s" t r'] rem less.prems by auto
    then have "is_diff source target s t (s # rm) ins" using rem(1) by (blast intro: is_diff_remove)
    moreover have "diff_loop source target s t r = Some (extend_result target (s # rm) ins r)"
      using rem r' less.prems loop by (subst diff_loop.simps) auto
    ultimately show ?thesis by blast
  qed
qed

section \<open>Applying a difference\<close>

lemma filter_upt_split:
  assumes "p \<le> r" and "r < n" and "\<forall>x\<in>set xs. r < x"
  shows "filter (\<lambda>j. j \<notin> set (r # xs)) [p..<n] = [p..<r] @ filter (\<lambda>j. j \<notin> set xs) [Suc r..<n]"
proof -
  have "[p..<n] = [p..<r] @ [r..<n]" using assms(1,2) upt_add_eq_append[of p r "n - r"] by simp
  moreover have "filter (\<lambda>j. j \<notin> set (r # xs)) [p..<r] = [p..<r]"
    using assms(3) by (intro filter_True) auto
  ultimately show ?thesis using filter_upt_skip[OF assms(2), of xs] by simp
qed

lemma unat_index: "j \<le> max_index \<Longrightarrow> unat (of_nat j :: u16) = j"
  by (simp add: unat_of_nat max_index_def)

lemma remove_loop_ok:
  assumes "sorted_wrt (<) rm" and "set rm \<subseteq> {p..<length source}" and "length source \<le> Suc max_index"
    and "length A + i = p" and "case prev of None \<Rightarrow> True | Some q \<Rightarrow> unat q < p"
    and "p \<le> length source"
  shows "remove_loop i prev (map of_nat rm) (A @ drop p source) =
           Inr (A @ map (nth source) (filter (\<lambda>j. j \<notin> set rm) [p..<length source]))"
  using assms
proof (induction rm arbitrary: p A i prev)
  case Nil
  then show ?case
    by (simp add: map_nth_upt)
next
  case (Cons r rm)
  let ?u = "r - i" and ?c = "A @ drop p source"
  have r: "p \<le> r" "r < length source" "r \<le> max_index" using Cons.prems by auto
  have gt: "\<forall>x\<in>set rm. r < x" and sorted: "sorted_wrt (<) rm" using Cons.prems(1) by auto
  have sub: "set rm \<subseteq> {Suc r..<length source}" using gt Cons.prems(2) by (auto simp: Suc_le_eq subset_iff)
  have u: "unat (of_nat r :: u16) = r" using r(3) by (rule unat_index)
  have len: "?u < length ?c" "i \<le> r" "?u = length A + (r - p)" using r Cons.prems(4) by auto
  let ?A = "A @ take (r - p) (drop p source)"
  have erase: "take ?u ?c @ drop (Suc ?u) ?c = ?A @ drop (Suc r) source"
    using len r by simp
  have split: "filter (\<lambda>j. j \<notin> set (r # rm)) [p..<length source] =
      [p..<r] @ filter (\<lambda>j. j \<notin> set rm) [Suc r..<length source]"
    using r gt by (intro filter_upt_split) auto
  have pre: "case prev of None \<Rightarrow> True | Some q \<Rightarrow> q < of_nat r"
    using Cons.prems(5) r(1) u by (auto simp: word_less_nat_alt split: option.splits)
  have "remove_loop (Suc i) (Some (of_nat r)) (map of_nat rm) (?A @ drop (Suc r) source) =
      Inr (?A @ map (nth source) (filter (\<lambda>j. j \<notin> set rm) [Suc r..<length source]))"
    using u r len by (intro Cons.IH[OF sorted sub Cons.prems(3)]) auto
  then show ?case
    using pre u len erase split r by (simp add: Let_def take_drop map_nth_upt)
qed

lemma insert_loop_ok:
  assumes "sorted_wrt (<) ins" and "set ins \<subseteq> {p..<length target}" and "length target \<le> Suc max_index"
    and "case prev of None \<Rightarrow> True | Some q \<Rightarrow> unat q < p" and "p \<le> length target"
  shows "insert_loop prev (map (\<lambda>j. (of_nat j, target ! j)) ins)
           (take p target @ map (nth target) (filter (\<lambda>j. j \<notin> set ins) [p..<length target])) = Inr target"
  using assms
proof (induction ins arbitrary: p prev)
  case Nil
  then show ?case
    by (simp add: map_nth_upt)
next
  case (Cons r ins)
  have r: "p \<le> r" "r < length target" "r \<le> max_index" using Cons.prems by auto
  have gt: "\<forall>x\<in>set ins. r < x" and sorted: "sorted_wrt (<) ins" using Cons.prems(1) by auto
  have sub: "set ins \<subseteq> {Suc r..<length target}" using gt Cons.prems(2) by (auto simp: Suc_le_eq subset_iff)
  have u: "unat (of_nat r :: u16) = r" using r(3) by (rule unat_index)
  let ?rest = "map (nth target) (filter (\<lambda>j. j \<notin> set ins) [Suc r..<length target])"
  have split: "filter (\<lambda>j. j \<notin> set (r # ins)) [p..<length target] =
      [p..<r] @ filter (\<lambda>j. j \<notin> set ins) [Suc r..<length target]"
    using r gt by (intro filter_upt_split) auto
  have front: "take p target @ map (nth target) [p..<r] = take r target"
    using r by (simp add: map_nth_upt) (metis append_take_drop_id min.absorb1 take_take)
  have container: "take p target @ map (nth target) (filter (\<lambda>j. j \<notin> set (r # ins)) [p..<length target]) =
      take r target @ ?rest"
    unfolding split using front by simp
  have pre: "case prev of None \<Rightarrow> True | Some q \<Rightarrow> q < of_nat r"
    using Cons.prems(4) r(1) u by (auto simp: word_less_nat_alt split: option.splits)
  have "insert_loop (Some (of_nat r)) (map (\<lambda>j. (of_nat j, target ! j)) ins) (take (Suc r) target @ ?rest) = Inr target"
    using u r(2) by (intro Cons.IH[OF sorted sub Cons.prems(3)]) auto
  moreover have "take (Suc r) target @ ?rest = take r target @ target ! r # ?rest"
    using r(2) by (simp add: take_Suc_conv_app_nth)
  ultimately have "insert_loop (Some (of_nat r)) (map (\<lambda>j. (of_nat j, target ! j)) ins)
      (take r target @ target ! r # ?rest) = Inr target"
    by (simp only:)
  then show ?case
    unfolding container using pre u r(2) by simp
qed

section \<open>The interface of a differ\<close>

text \<open>What the policies rely on: containers of admissible size have a difference, and it applies.\<close>

locale differ =
  fixes compute :: "'a list \<Rightarrow> 'a list \<Rightarrow> 'd res"
    and apply_to :: "'a list \<Rightarrow> 'd \<Rightarrow> 'a list res"
    and admissible :: "'a list \<Rightarrow> bool"
  assumes round_trip: "admissible source \<Longrightarrow> admissible target \<Longrightarrow>
            \<exists>d. compute source target = Inr d \<and> apply_to source d = Inr target"
begin

text \<open>A chain of differences, each taken against the preceding container, rebuilds the last one.\<close>

lemma chain_round_trip:
  assumes "admissible source" and "\<forall>t\<in>set ts. admissible t"
  shows "\<exists>ds. length ds = length ts \<and>
           (\<forall>i<length ts. compute ((source # ts) ! i) (ts ! i) = Inr (ds ! i)) \<and>
           fold (\<lambda>d acc. bind_res acc (\<lambda>c. apply_to c d)) ds (Inr source) = Inr (last (source # ts))"
  using assms
proof (induction ts arbitrary: source)
  case (Cons t ts)
  then obtain d where d: "compute source t = Inr d" "apply_to source d = Inr t"
    using round_trip[of source t] by auto
  from Cons.IH[of t] Cons.prems obtain ds where ds: "length ds = length ts"
    "\<forall>i<length ts. compute ((t # ts) ! i) (ts ! i) = Inr (ds ! i)"
    "fold (\<lambda>d acc. bind_res acc (\<lambda>c. apply_to c d)) ds (Inr t) = Inr (last (t # ts))"
    by auto
  with d show ?case
    by (intro exI[of _ "d # ds"]) (auto simp: nth_Cons split: nat.splits)
qed simp

end

lemma diff_apply_round_trip:
  assumes "length source \<le> Suc max_index" and "length target \<le> Suc max_index"
  shows "\<exists>d. diff source target = Inr d \<and> apply_diff source d = Inr target"
proof -
  let ?e = "\<lparr>remove_indexes = [], insert_indexes = []\<rparr>"
  obtain rm ins where loop: "diff_loop source target 0 0 ?e = Some (extend_result target rm ins ?e)"
      and ok: "is_diff source target 0 0 rm ins"
    using diff_loop_ok[of 0 source 0 target ?e] assms by auto
  let ?mid = "map (nth source) (filter (\<lambda>j. j \<notin> set rm) [0..<length source])"
  have "diff source target = Inr (extend_result target rm ins ?e)"
    using loop assms by (auto simp: diff_def eos_assert_def)
  moreover have "remove_loop 0 None (map of_nat rm) source = Inr ?mid"
    using remove_loop_ok[of rm 0 source "[]" 0 None] ok assms(1) by (simp add: is_diff_def)
  moreover have "insert_loop None (map (\<lambda>j. (of_nat j, target ! j)) ins) ?mid = Inr target"
    using insert_loop_ok[of ins 0 target None] ok assms(2) by (simp add: is_diff_def)
  ultimately show ?thesis by (simp add: apply_diff_def extend_result_def)
qed

interpretation od: differ diff apply_diff "\<lambda>xs. length xs \<le> Suc max_index"
  by unfold_locales (rule diff_apply_round_trip)

end
