(* ===== verification/Policies.thy ===== *)
theory Policies
  imports Ordered_Diff Block_Types
begin

text \<open>
  Finalizer policies (finality/finalizer_authority.hpp, finality/finalizer_policy.hpp), their
  validation by the host function \<^verbatim>\<open>set_finalizers\<close> (webassembly/privileged.cpp), proposer policies
  (finality/proposer_policy.hpp) and the producer schedule they contain (producer_schedule.hpp).

  A BLS public key is its 96 affine bytes, which is what its comparison operators read; whether the
  bytes are a point of the curve is the parameter \<open>valid_g1\<close> (the bls12-381 library).
\<close>

section \<open>Finalizer policies\<close>

type_synonym bls_public_key = "u8 list"

record finalizer_authority =
  description :: string
  weight :: u64
  public_key :: bls_public_key

record finalizer_policy =
  generation :: u32
  threshold :: u64
  finalizers :: "finalizer_authority list"

record finalizer_policy_diff =
  diff_generation :: u32
  diff_threshold :: u64
  finalizers_diff :: "finalizer_authority diff_result"

definition create_finalizer_diff :: "finalizer_policy \<Rightarrow> finalizer_policy \<Rightarrow> finalizer_policy_diff res" where
  "create_finalizer_diff policy target =
     bind_res (diff (finalizers policy) (finalizers target)) (\<lambda>d.
     Inr \<lparr>diff_generation = generation target, diff_threshold = threshold target, finalizers_diff = d\<rparr>)"

definition apply_finalizer_diff :: "finalizer_policy \<Rightarrow> finalizer_policy_diff \<Rightarrow> finalizer_policy res" where
  "apply_finalizer_diff policy d =
     bind_res (apply_diff (finalizers policy) (finalizers_diff d)) (\<lambda>fs.
     Inr \<lparr>generation = diff_generation d, threshold = diff_threshold d, finalizers = fs\<rparr>)"

text \<open>
  \<^verbatim>\<open>std::accumulate\<close> is called with the initial value \<^verbatim>\<open>0\<close>, so its accumulator is an \<^verbatim>\<open>int\<close>: every
  partial sum is converted to \<^verbatim>\<open>uint64_t\<close> for the addition (sign extension) and back to 32 bits.
\<close>

definition max_weak_sum_before_weak_final :: "finalizer_policy \<Rightarrow> u64" where
  "max_weak_sum_before_weak_final policy =
     (let acc = fold (\<lambda>f acc :: u32. ucast (scast acc + weight f :: u64)) (finalizers policy) 0;
          sum = scast acc :: u64
      in sum - threshold policy)"

section \<open>Validation of a proposed finalizer policy\<close>

definition max_finalizers :: nat where
  "max_finalizers = 64 * 1024"

definition max_finalizer_description_size :: nat where
  "max_finalizer_description_size = 256"

text \<open>The loop over the finalizers: the accumulated weight and the keys already seen.\<close>

fun check_finalizers ::
    "(u8 list \<Rightarrow> bool) \<Rightarrow> finalizer_authority list \<Rightarrow> u64 \<Rightarrow> bls_public_key list \<Rightarrow> u64 res" where
  "check_finalizers valid_g1 [] weight_sum seen = Inr weight_sum"
| "check_finalizers valid_g1 (f # fs) weight_sum seen =
     bind_res (eos_assert (length (description f) \<le> max_finalizer_description_size) wasm_execution_error) (\<lambda>_.
     bind_res (eos_assert (- 1 - weight_sum \<ge> weight f) wasm_execution_error) (\<lambda>_.
     bind_res (eos_assert (length (public_key f) = 96) wasm_execution_error) (\<lambda>_.
     bind_res (eos_assert (valid_g1 (public_key f)) fc_assert_exception) (\<lambda>_.
     bind_res (eos_assert (public_key f \<notin> set seen) wasm_execution_error) (\<lambda>_.
     check_finalizers valid_g1 fs (weight_sum + weight f) (public_key f # seen))))))"

definition set_finalizers ::
    "(u8 list \<Rightarrow> bool) \<Rightarrow> bool \<Rightarrow> u64 \<Rightarrow> u64 \<Rightarrow> finalizer_authority list \<Rightarrow> finalizer_policy res" where
  "set_finalizers valid_g1 is_read_only packed_finalizer_format abi_threshold fs =
     bind_res (eos_assert (\<not> is_read_only) wasm_execution_error) (\<lambda>_.
     bind_res (eos_assert (packed_finalizer_format = 0) wasm_execution_error) (\<lambda>_.
     bind_res (eos_assert (length fs \<le> max_finalizers) wasm_execution_error) (\<lambda>_.
     bind_res (eos_assert (0 < length fs) wasm_execution_error) (\<lambda>_.
     bind_res (check_finalizers valid_g1 fs 0 []) (\<lambda>weight_sum.
     bind_res (eos_assert (weight_sum \<ge> abi_threshold \<and> abi_threshold > weight_sum div 2) wasm_execution_error) (\<lambda>_.
     Inr \<lparr>generation = 0, threshold = abi_threshold, finalizers = fs\<rparr>))))))"

section \<open>Producer schedules and proposer policies\<close>

type_synonym public_key_type = "u8 list"
type_synonym account_name = u64

record key_weight =
  kw_key :: public_key_type
  kw_weight :: u16

text \<open>\<^verbatim>\<open>std::variant<block_signing_authority_v0>\<close>.\<close>

datatype block_signing_authority =
  block_signing_authority_v0 (bsa_threshold: u32) (bsa_keys: "key_weight list")

record producer_authority =
  producer_name :: account_name
  authority :: block_signing_authority

record producer_authority_schedule =
  version :: u32
  producers :: "producer_authority list"

text \<open>One iteration of the loop over the keys: the number of relevant keys and the weight so far.\<close>

fun count_key :: "public_key_type set \<Rightarrow> u32 \<Rightarrow> key_weight \<Rightarrow> nat \<times> u32 \<Rightarrow> nat \<times> u32" where
  "count_key presented_keys thr kw (num_relevant_keys, total_weight) =
     (if kw_key kw \<in> presented_keys then
        (num_relevant_keys + 1,
         if total_weight < thr then total_weight + min (- 1 - total_weight) (ucast (kw_weight kw))
         else total_weight)
      else (num_relevant_keys, total_weight))"

definition keys_satisfy_and_relevant ::
    "public_key_type set \<Rightarrow> block_signing_authority \<Rightarrow> bool \<times> nat" where
  "keys_satisfy_and_relevant presented_keys auth =
     (let (num_relevant_keys, total_weight) =
            fold (count_key presented_keys (bsa_threshold auth)) (bsa_keys auth) (0, 0)
      in (total_weight \<ge> bsa_threshold auth, num_relevant_keys))"

definition producer_repetitions :: nat where
  "producer_repetitions = 12"

text \<open>The remainder by zero of an empty schedule is undefined behaviour, hence the assertion.\<close>

definition get_scheduled_producer ::
    "producer_authority_schedule \<Rightarrow> block_timestamp_type \<Rightarrow> producer_authority option" where
  "get_scheduled_producer sched t = do {
     assert_opt (producers sched \<noteq> []);
     let index = unat t mod (length (producers sched) * producer_repetitions);
     Some (producers sched ! (index div producer_repetitions))
   }"

record proposer_policy =
  proposal_time :: block_timestamp_type
  proposer_schedule :: producer_authority_schedule

record proposer_policy_diff =
  pdiff_version :: u32
  pdiff_proposal_time :: block_timestamp_type
  producer_auth_diff :: "producer_authority diff_result"

definition create_proposer_diff :: "proposer_policy \<Rightarrow> proposer_policy \<Rightarrow> proposer_policy_diff res" where
  "create_proposer_diff policy target =
     bind_res (diff (producers (proposer_schedule policy)) (producers (proposer_schedule target))) (\<lambda>d.
     Inr \<lparr>pdiff_version = version (proposer_schedule target), pdiff_proposal_time = proposal_time target,
          producer_auth_diff = d\<rparr>)"

definition apply_proposer_diff :: "proposer_policy \<Rightarrow> proposer_policy_diff \<Rightarrow> proposer_policy res" where
  "apply_proposer_diff policy d =
     bind_res (apply_diff (producers (proposer_schedule policy)) (producer_auth_diff d)) (\<lambda>ps.
     Inr \<lparr>proposal_time = pdiff_proposal_time d,
          proposer_schedule = \<lparr>version = pdiff_version d, producers = ps\<rparr>\<rparr>)"

section \<open>Weights of a policy\<close>

definition total_weight :: "finalizer_authority list \<Rightarrow> nat" where
  "total_weight fs = sum_list (map (\<lambda>f. unat (weight f)) fs)"

lemma total_weight_simps [simp]:
  "total_weight [] = 0"
  "total_weight (f # fs) = unat (weight f) + total_weight fs"
  "total_weight (xs @ ys) = total_weight xs + total_weight ys"
  by (simp_all add: total_weight_def)

text \<open>What \<^verbatim>\<open>set_finalizers\<close> lets through.\<close>

definition policy_ok :: "finalizer_policy \<Rightarrow> bool" where
  "policy_ok p \<longleftrightarrow>
     finalizers p \<noteq> [] \<and> length (finalizers p) \<le> max_finalizers \<and>
     distinct (map public_key (finalizers p)) \<and> total_weight (finalizers p) < 2 ^ 64 \<and>
     unat (threshold p) \<le> total_weight (finalizers p) \<and>
     total_weight (finalizers p) < 2 * unat (threshold p)"


lemma max_minus_ge:
  fixes a b :: "'a::len word"
  shows "- 1 - a \<ge> b \<longleftrightarrow> unat a + unat b < 2 ^ LENGTH('a)"
proof -
  have "unat (- 1 - a) = unat (- 1 :: 'a word) - unat a" by (rule unat_sub) simp
  then have "unat (- 1 - a) = 2 ^ LENGTH('a) - 1 - unat a"
    by (simp add: unsigned_minus_1_eq_mask mask_eq_exp_minus_1)
  moreover have "unat a < 2 ^ LENGTH('a)" by (rule unsigned_less)
  ultimately have "unat b \<le> unat (- 1 - a) \<longleftrightarrow> unat a + unat b < 2 ^ LENGTH('a)" by linarith
  then show ?thesis by (simp only: word_le_nat_alt)
qed

lemma check_finalizers_ok:
  assumes "check_finalizers valid_g1 fs w seen = Inr w'"
  shows "unat w' = unat w + total_weight fs" and "distinct (map public_key fs)"
    and "set (map public_key fs) \<inter> set seen = {}"
proof -
  have "unat w' = unat w + total_weight fs \<and> distinct (map public_key fs) \<and>
        set (map public_key fs) \<inter> set seen = {}"
    using assms
  proof (induction valid_g1 fs w seen rule: check_finalizers.induct)
    case (2 valid_g1 f fs weight_sum seen)
    from "2.prems" have le: "unat weight_sum + unat (weight f) < 2 ^ 64"
        and new: "public_key f \<notin> set seen"
        and rest: "check_finalizers valid_g1 fs (weight_sum + weight f) (public_key f # seen) = Inr w'"
      by (auto simp: bind_res_Inr_iff eos_assert_Inr_iff max_minus_ge)
    from "2.prems" rest have "unat w' = unat (weight_sum + weight f) + total_weight fs \<and>
        distinct (map public_key fs) \<and> set (map public_key fs) \<inter> set (public_key f # seen) = {}"
      by (intro "2.IH") (auto simp: bind_res_Inr_iff eos_assert_Inr_iff)
    with le new show ?case by (auto simp: unat_add_no_wrap)
  qed simp
  then show "unat w' = unat w + total_weight fs" and "distinct (map public_key fs)"
    and "set (map public_key fs) \<inter> set seen = {}" by blast+
qed

lemma set_finalizers_ok:
  assumes "set_finalizers valid_g1 ro fmt thr fs = Inr p"
  shows "policy_ok p" and "finalizers p = fs" and "threshold p = thr"
proof -
  obtain w where w: "check_finalizers valid_g1 fs 0 [] = Inr w" and thr: "thr \<le> w" "w div 2 < thr"
    and len: "length fs \<le> max_finalizers" "fs \<noteq> []"
    and p: "p = \<lparr>generation = 0, threshold = thr, finalizers = fs\<rparr>"
    using assms by (auto simp: set_finalizers_def bind_res_Inr_iff eos_assert_Inr_iff)
  note ok = check_finalizers_ok[OF w]
  have "unat w < 2 ^ 64" using unsigned_less[where 'a = nat, of w] by simp
  moreover have "unat w div 2 < unat thr" using thr(2) by (simp add: word_less_nat_alt unat_div)
  ultimately show "policy_ok p"
    using ok thr(1) len p by (simp add: policy_ok_def word_le_nat_alt)
  show "finalizers p = fs" "threshold p = thr" using p by simp_all
qed

section \<open>Quorums\<close>

definition weight_of :: "finalizer_policy \<Rightarrow> nat set \<Rightarrow> nat" where
  "weight_of p S = (\<Sum>i\<in>S. unat (weight (finalizers p ! i)))"

lemma weight_of_all: "weight_of p {..<length (finalizers p)} = total_weight (finalizers p)"
  by (simp add: weight_of_def total_weight_def sum_list_sum_nth atLeast0LessThan)

lemma weight_of_union:
  assumes "A \<subseteq> {..<length (finalizers p)}" and "B \<subseteq> {..<length (finalizers p)}"
  shows "weight_of p A + weight_of p B \<le> total_weight (finalizers p) + weight_of p (A \<inter> B)"
proof -
  have fin: "finite A" "finite B" using assms by (auto intro: finite_subset)
  then have "weight_of p A + weight_of p B = weight_of p (A \<union> B) + weight_of p (A \<inter> B)"
    unfolding weight_of_def by (rule sum.union_inter[symmetric])
  moreover have "weight_of p (A \<union> B) \<le> weight_of p {..<length (finalizers p)}"
    unfolding weight_of_def using assms by (intro sum_mono2) auto
  ultimately show ?thesis by (simp add: weight_of_all)
qed

text \<open>The proof obligation of the quorum condition: two quorums overlap at least in the excess of twice the threshold over the total.\<close>

lemma quorum_overlap:
  assumes "A \<subseteq> {..<length (finalizers p)}" and "B \<subseteq> {..<length (finalizers p)}"
    and "unat (threshold p) \<le> weight_of p A" and "unat (threshold p) \<le> weight_of p B"
  shows "2 * unat (threshold p) \<le> total_weight (finalizers p) + weight_of p (A \<inter> B)"
  using weight_of_union[OF assms(1,2)] assms(3,4) by linarith

lemma weight_of_pos:
  assumes "0 < weight_of p S"
  shows "\<exists>i\<in>S. 0 < weight (finalizers p ! i)"
proof (rule ccontr)
  assume "\<not> ?thesis"
  then have "weight_of p S = 0" by (auto simp: weight_of_def word_gt_0 intro: sum.neutral)
  with assms show False by simp
qed

section \<open>Properties\<close>

text \<open>
  C20. Quorum intersection of every accepted finalizer policy. If \<^verbatim>\<open>set_finalizers\<close> accepts a policy,
  its keys are pairwise different, its weights do not overflow, twice the threshold exceeds the total weight, and
  any two sets of finalizers that both reach the threshold share at least the weight by which twice the threshold exceeds the
  total; so they have a finalizer of positive weight in common.
\<close>

theorem set_finalizers_quorums_intersect:
  assumes "set_finalizers valid_g1 is_read_only fmt thr fs = Inr p"
    and "A \<subseteq> {..<length (finalizers p)}" and "B \<subseteq> {..<length (finalizers p)}"
    and "unat (threshold p) \<le> weight_of p A" and "unat (threshold p) \<le> weight_of p B"
  shows "distinct (map public_key (finalizers p)) \<and> total_weight (finalizers p) < 2 ^ 64 \<and>
         total_weight (finalizers p) < 2 * unat (threshold p) \<and>
         2 * unat (threshold p) - total_weight (finalizers p) \<le> weight_of p (A \<inter> B) \<and>
         (\<exists>i\<in>A \<inter> B. 0 < weight (finalizers p ! i))"
proof -
  have ok: "policy_ok p" by (rule set_finalizers_ok(1)[OF assms(1)])
  then have half: "total_weight (finalizers p) < 2 * unat (threshold p)" by (simp add: policy_ok_def)
  have overlap: "2 * unat (threshold p) - total_weight (finalizers p) \<le> weight_of p (A \<inter> B)"
    using quorum_overlap[OF assms(2-5)] by simp
  then have "0 < weight_of p (A \<inter> B)" using half by simp
  with ok half overlap weight_of_pos show ?thesis by (simp add: policy_ok_def)
qed

definition ex_finalizer :: "u8 \<Rightarrow> u64 \<Rightarrow> finalizer_authority" where
  "ex_finalizer k w = \<lparr>description = ''fin'', weight = w, public_key = k # replicate 95 0\<rparr>"

theorem set_finalizers_quorums_intersect_witness:
  "\<exists>p. set_finalizers (\<lambda>_. True) False 0 3 [ex_finalizer 1 2, ex_finalizer 2 1, ex_finalizer 3 1] = Inr p \<and>
       (\<exists>i\<in>{0, 1} \<inter> {0, 2}. 0 < weight (finalizers p ! i))"
proof -
  let ?fs = "[ex_finalizer 1 2, ex_finalizer 2 1, ex_finalizer 3 1]"
  let ?p = "\<lparr>generation = 0, threshold = 3, finalizers = ?fs\<rparr>"
  have acc: "set_finalizers (\<lambda>_. True) False 0 3 ?fs = Inr ?p"
    using max_minus_ge[of 1 "2 :: u64"] max_minus_ge[of 1 "3 :: u64"]
    by (simp add: set_finalizers_def ex_finalizer_def max_finalizers_def max_finalizer_description_size_def)
  have "\<exists>i\<in>{0, 1} \<inter> {0, 2}. 0 < weight (finalizers ?p ! i)"
    using set_finalizers_quorums_intersect[OF acc, of "{0, 1}" "{0, 2}"]
    by (simp add: weight_of_def ex_finalizer_def)
  with acc show ?thesis by blast
qed

text \<open>
  C21. Policies travel as differences. For policies of at most \<^verbatim>\<open>max_finalizers\<close> finalizers, creating the
  difference to a target policy raises no exception and applying it to the first policy gives back the
  target exactly: generation, threshold and the ordered list of finalizers.
\<close>

theorem finalizer_policy_diff_round_trip:
  assumes "length (finalizers p) \<le> max_finalizers" and "length (finalizers target) \<le> max_finalizers"
  shows "bind_res (create_finalizer_diff p target) (apply_finalizer_diff p) = Inr target"
  using assms od.round_trip[of "finalizers p" "finalizers target"]
  by (auto simp: create_finalizer_diff_def apply_finalizer_diff_def max_finalizers_def max_index_def)

theorem finalizer_policy_diff_round_trip_witness:
  "bind_res (create_finalizer_diff
       \<lparr>generation = 1, threshold = 2, finalizers = [ex_finalizer 1 1, ex_finalizer 2 1, ex_finalizer 3 1]\<rparr>
       \<lparr>generation = 2, threshold = 3, finalizers = [ex_finalizer 2 1, ex_finalizer 4 2, ex_finalizer 3 1]\<rparr>)
     (apply_finalizer_diff \<lparr>generation = 1, threshold = 2, finalizers = [ex_finalizer 1 1, ex_finalizer 2 1, ex_finalizer 3 1]\<rparr>)
   = Inr \<lparr>generation = 2, threshold = 3, finalizers = [ex_finalizer 2 1, ex_finalizer 4 2, ex_finalizer 3 1]\<rparr>"
  by (rule finalizer_policy_diff_round_trip) (simp_all add: max_finalizers_def)

lemma proposer_policy_diff_round_trip:
  assumes "length (producers (proposer_schedule p)) \<le> Suc max_index"
    and "length (producers (proposer_schedule target)) \<le> Suc max_index"
  shows "bind_res (create_proposer_diff p target) (apply_proposer_diff p) = Inr target"
  using assms od.round_trip[of "producers (proposer_schedule p)" "producers (proposer_schedule target)"]
  by (auto simp: create_proposer_diff_def apply_proposer_diff_def)

section \<open>Signing authorities\<close>

definition presented_weight :: "public_key_type set \<Rightarrow> key_weight list \<Rightarrow> nat" where
  "presented_weight ks kws = sum_list (map (\<lambda>kw. unat (kw_weight kw)) (filter (\<lambda>kw. kw_key kw \<in> ks) kws))"

lemma saturating_add:
  fixes w v :: u32
  shows "unat (w + min (- 1 - w) v) = min (2 ^ 32 - 1) (unat w + unat v)"
proof (cases "v \<le> - 1 - w")
  case True
  then have "unat w + unat v < 2 ^ 32" using max_minus_ge[of v w] by simp
  with True show ?thesis by (simp add: min_absorb2 unat_add_no_wrap)
next
  case False
  then have "2 ^ 32 \<le> unat w + unat v" using max_minus_ge[of v w] by simp
  moreover have "min (- 1 - w) v = - 1 - w" using False by (intro min_absorb1) simp
  ultimately show ?thesis
    by (simp add: unsigned_minus_1_eq_mask mask_eq_exp_minus_1)
qed

lemma unat_ucast_u16: "unat (ucast (v :: u16) :: u32) = unat v"
  using unsigned_less[where 'a = nat, of v] by (simp add: unsigned_ucast_eq take_bit_nat_eq_self)

lemma keys_satisfy_fold:
  fixes thr w :: u32
  assumes "fold (count_key ks thr) kws (n, w) = (n', w')"
  shows "n' = n + length (filter (\<lambda>kw. kw_key kw \<in> ks) kws)"
    and "thr \<le> w' \<longleftrightarrow> unat thr \<le> unat w + presented_weight ks kws"
proof -
  have "n' = n + length (filter (\<lambda>kw. kw_key kw \<in> ks) kws) \<and>
        (thr \<le> w' \<longleftrightarrow> unat thr \<le> unat w + presented_weight ks kws)"
    using assms
  proof (induction kws arbitrary: n w)
    case Nil
    then show ?case by (simp add: presented_weight_def word_le_nat_alt)
  next
    case (Cons kw kws)
    show ?case
    proof (cases "kw_key kw \<in> ks")
      case False
      with Cons show ?thesis by (auto simp: presented_weight_def)
    next
      case True
      then have pw: "presented_weight ks (kw # kws) = unat (kw_weight kw) + presented_weight ks kws"
        by (simp add: presented_weight_def)
      have lim: "unat thr \<le> 2 ^ 32 - 1" using unsigned_less[where 'a = nat, of thr] by simp
      show ?thesis
      proof (cases "w < thr")
        case less: True
        let ?w = "w + min (- 1 - w) (ucast (kw_weight kw))"
        have w: "unat ?w = min (2 ^ 32 - 1) (unat w + unat (kw_weight kw))"
          by (simp add: saturating_add unat_ucast_u16)
        have "n' = Suc n + length (filter (\<lambda>kw. kw_key kw \<in> ks) kws) \<and>
              (thr \<le> w' \<longleftrightarrow> unat thr \<le> unat ?w + presented_weight ks kws)"
          using Cons.prems True less by (intro Cons.IH) simp
        moreover have "unat thr \<le> unat ?w + presented_weight ks kws \<longleftrightarrow>
            unat thr \<le> unat w + (unat (kw_weight kw) + presented_weight ks kws)"
          unfolding w using lim by linarith
        ultimately show ?thesis using True pw by simp
      next
        case False
        have "n' = Suc n + length (filter (\<lambda>kw. kw_key kw \<in> ks) kws) \<and>
              (thr \<le> w' \<longleftrightarrow> unat thr \<le> unat w + presented_weight ks kws)"
          using Cons.prems True False by (intro Cons.IH) simp
        moreover have "unat thr \<le> unat w" using False by (simp add: word_less_nat_alt)
        ultimately show ?thesis using True pw by simp
      qed
    qed
  qed
  then show "n' = n + length (filter (\<lambda>kw. kw_key kw \<in> ks) kws)"
    and "thr \<le> w' \<longleftrightarrow> unat thr \<le> unat w + presented_weight ks kws" by blast+
qed

lemma keys_satisfy_eq:
  "keys_satisfy_and_relevant ks (block_signing_authority_v0 thr kws) =
     (unat thr \<le> presented_weight ks kws, length (filter (\<lambda>kw. kw_key kw \<in> ks) kws))"
proof -
  obtain n' w' where fold: "fold (count_key ks thr) kws (0, 0) = (n', w')" by fastforce
  with keys_satisfy_fold[OF fold] show ?thesis
    by (simp add: keys_satisfy_and_relevant_def)
qed

text \<open>
  C22. A block signing authority is satisfied exactly when the true sum of the weights of the presented
  keys reaches the threshold: the early stop and the saturation of the 32-bit accumulator never change
  the answer. The second component counts all the relevant keys.
\<close>

theorem keys_satisfy_exact:
  "keys_satisfy_and_relevant ks (block_signing_authority_v0 thr kws) =
     (unat thr \<le> presented_weight ks kws, length (filter (\<lambda>kw. kw_key kw \<in> ks) kws))"
  by (rule keys_satisfy_eq)

lemma get_scheduled_producer_in_schedule:
  assumes "producers sched \<noteq> []"
  shows "\<exists>p. get_scheduled_producer sched t = Some p \<and> p \<in> set (producers sched)"
proof -
  let ?n = "length (producers sched)"
  have "unat t mod (?n * 12) < ?n * 12" using assms by simp
  then have "unat t mod (?n * 12) div 12 < ?n" by (simp add: less_mult_imp_div_less)
  with assms show ?thesis by (simp add: get_scheduled_producer_def producer_repetitions_def)
qed

section \<open>The accumulator of \<^verbatim>\<open>max_weak_sum_before_weak_final\<close>\<close>

lemma scast_small: "unat (a :: u32) < 2 ^ 31 \<Longrightarrow> (scast a :: u64) = ucast a"
proof -
  assume lt: "unat a < 2 ^ 31"
  have "\<not> bit a 31"
  proof
    assume "bit a 31"
    then have "bit (unat a) 31" by (simp add: bit_simps)
    with lt show False by (simp add: bit_iff_odd)
  qed
  moreover have "\<not> bit a n" if "31 < n" for n
    using that bit_imp_le_length[of a n] by auto
  ultimately have "bit a (min 31 n) = bit a n" for n
    by (cases "31 < n") (auto simp: min_def)
  then show ?thesis by (intro bit_word_eqI) (simp add: bit_simps)
qed

lemma accumulate_int:
  assumes "unat acc + total_weight fs < 2 ^ 31"
  shows "unat (fold (\<lambda>f acc :: u32. ucast (scast acc + weight f :: u64)) fs acc) = unat acc + total_weight fs"
  using assms
proof (induction fs arbitrary: acc)
  case (Cons f fs)
  let ?w = "unat acc + unat (weight f)"
  have lt: "?w < 2 ^ 31" using Cons.prems by simp
  have ucast: "unat (ucast acc :: u64) = unat acc"
    using lt by (simp add: unsigned_ucast_eq take_bit_nat_eq_self)
  have "unat (ucast acc + weight f :: u64) = ?w"
    using lt ucast by (simp add: unat_add_no_wrap)
  then have "unat (ucast (scast acc + weight f :: u64) :: u32) = ?w"
    using lt scast_small[of acc] by (simp add: unsigned_ucast_eq take_bit_nat_eq_self)
  with Cons show ?case by simp
qed simp

lemma max_weak_sum_exact:
  assumes "total_weight (finalizers p) < 2 ^ 31"
  shows "max_weak_sum_before_weak_final p = of_nat (total_weight (finalizers p)) - threshold p"
proof -
  let ?acc = "fold (\<lambda>f acc :: u32. ucast (scast acc + weight f :: u64)) (finalizers p) 0"
  have acc: "unat ?acc = total_weight (finalizers p)" using accumulate_int[of 0] assms by simp
  then have "(scast ?acc :: u64) = ucast ?acc" using assms by (intro scast_small) simp
  also have "\<dots> = of_nat (total_weight (finalizers p))" by (simp flip: acc)
  finally show ?thesis by (simp add: max_weak_sum_before_weak_final_def Let_def)
qed

text \<open>
  C23. The weight that decides when a weak QC becomes final is accumulated in a 32-bit \<^verbatim>\<open>int\<close>. For an
  accepted policy whose weights sum to less than \<open>2\<^sup>3\<^sup>1\<close> the result is the slack (total weight minus
  threshold); an accepted policy of three finalizers of weight \<open>2\<^sup>3\<^sup>0\<close> already gets a value above the
  total weight instead of its slack of \<open>2\<^sup>3\<^sup>0\<close>.
\<close>

theorem max_weak_sum_int_accumulator:
  "(\<forall>p. policy_ok p \<and> total_weight (finalizers p) < 2 ^ 31 \<longrightarrow>
        unat (max_weak_sum_before_weak_final p) = total_weight (finalizers p) - unat (threshold p)) \<and>
   (let p = \<lparr>generation = 1, threshold = 2 ^ 31, finalizers = map (\<lambda>k. ex_finalizer k (2 ^ 30)) [1, 2, 3]\<rparr>
    in policy_ok p \<and> total_weight (finalizers p) < unat (max_weak_sum_before_weak_final p))"
proof
  show "\<forall>p. policy_ok p \<and> total_weight (finalizers p) < 2 ^ 31 \<longrightarrow>
        unat (max_weak_sum_before_weak_final p) = total_weight (finalizers p) - unat (threshold p)"
  proof (intro allI impI, elim conjE)
    fix p assume ok: "policy_ok p" and lt: "total_weight (finalizers p) < 2 ^ 31"
    have u: "unat (of_nat (total_weight (finalizers p)) :: u64) = total_weight (finalizers p)"
      using lt by (simp add: unat_of_nat)
    have "threshold p \<le> of_nat (total_weight (finalizers p))"
      using ok u by (simp add: policy_ok_def word_le_nat_alt)
    with u show "unat (max_weak_sum_before_weak_final p) = total_weight (finalizers p) - unat (threshold p)"
      by (simp add: max_weak_sum_exact[OF lt] unat_sub_le)
  qed
  show "let p = \<lparr>generation = 1, threshold = 2 ^ 31, finalizers = map (\<lambda>k. ex_finalizer k (2 ^ 30)) [1, 2, 3]\<rparr>
    in policy_ok p \<and> total_weight (finalizers p) < unat (max_weak_sum_before_weak_final p)"
    by (simp add: Let_def policy_ok_def ex_finalizer_def max_finalizers_def max_weak_sum_before_weak_final_def)
qed

theorem max_weak_sum_int_accumulator_witness:
  "unat (max_weak_sum_before_weak_final
      \<lparr>generation = 1, threshold = 2, finalizers = map (\<lambda>k. ex_finalizer k 1) [1, 2, 3]\<rparr>) = 1"
proof -
  let ?p = "\<lparr>generation = 1, threshold = 2, finalizers = map (\<lambda>k. ex_finalizer k 1) [1, 2, 3]\<rparr>"
  have "policy_ok ?p" by (simp add: policy_ok_def ex_finalizer_def max_finalizers_def)
  then show ?thesis
    using max_weak_sum_int_accumulator by (simp add: ex_finalizer_def)
qed

end
