(* ===== verification/Quorum_Cert.thy ===== *)
theory Quorum_Cert
  imports Policies Finality_Core
begin

text \<open>
  Quorum certificates (finality/qc.hpp and finality/qc.cpp, \<^verbatim>\<open>qc_sig_t\<close> and \<^verbatim>\<open>qc_t\<close>): the format of the
  votes of a certificate, the quorum and signature checks, and the claim it makes. A bitset is a list
  of booleans; reading it out of range is an assertion failure.

  The pairing-based operations belong to the bls12-381 library and are the record \<open>bls_lib\<close> that the
  definitions take as an argument.
\<close>

section \<open>The signature library\<close>

type_synonym bls_signature = "u8 list"
type_synonym bls_aggregate_signature = "u8 list"

record bls_lib =
  sig_aggregate :: "bls_aggregate_signature \<Rightarrow> bls_signature \<Rightarrow> bls_aggregate_signature"
  sig_default :: bls_aggregate_signature
  aggregate_public_keys :: "bls_public_key list \<Rightarrow> u8 list"
  aggregate_verify :: "u8 list list \<Rightarrow> u8 list list \<Rightarrow> bls_aggregate_signature \<Rightarrow> bool"
  bls_verify :: "bls_public_key \<Rightarrow> u8 list \<Rightarrow> bls_signature \<Rightarrow> bool"

text \<open>\<^verbatim>\<open>create_weak_digest\<close>: the digest followed by \<^verbatim>\<open>WEAK\<close>.\<close>

definition create_weak_digest :: "digest_type \<Rightarrow> u8 list" where
  "create_weak_digest d = sha256_data d @ [0x57, 0x45, 0x41, 0x4B]"

section \<open>Certificates\<close>

type_synonym vote_bitset_t = "bool list"

record qc_sig_t =
  strong_votes :: "vote_bitset_t option"
  weak_votes :: "vote_bitset_t option"
  sig :: bls_aggregate_signature

definition qc_sig_is_weak :: "qc_sig_t \<Rightarrow> bool" where
  "qc_sig_is_weak q = (weak_votes q \<noteq> None)"

definition qc_sig_is_strong :: "qc_sig_t \<Rightarrow> bool" where
  "qc_sig_is_strong q = (weak_votes q = None)"

record qc_t =
  qc_block_num :: u32
  active_policy_sig :: qc_sig_t
  pending_policy_sig :: "qc_sig_t option"

definition qc_is_strong :: "qc_t \<Rightarrow> bool" where
  "qc_is_strong q =
     (qc_sig_is_strong (active_policy_sig q) \<and>
      (case pending_policy_sig q of None \<Rightarrow> True | Some p \<Rightarrow> qc_sig_is_strong p))"

definition qc_is_weak :: "qc_t \<Rightarrow> bool" where
  "qc_is_weak q = (\<not> qc_is_strong q)"

definition to_qc_claim :: "qc_t \<Rightarrow> qc_claim_t" where
  "to_qc_claim q = \<lparr>block_num = qc_block_num q, is_strong_qc = qc_is_strong q\<rparr>"

record qc_data_t =
  qcd_qc :: "qc_t option"
  qcd_claim :: qc_claim_t

text \<open>\<^verbatim>\<open>votes && (*votes)[i]\<close>.\<close>

definition vote_at :: "vote_bitset_t option \<Rightarrow> nat \<Rightarrow> bool option" where
  "vote_at v i = (case v of None \<Rightarrow> Some False | Some bs \<Rightarrow> do { assert_opt (i < length bs); Some (bs ! i) })"

definition qc_sig_vote_same_at :: "qc_sig_t \<Rightarrow> qc_sig_t \<Rightarrow> nat \<Rightarrow> nat \<Rightarrow> bool option" where
  "qc_sig_vote_same_at me other my_vote_index other_vote_index = do {
     my_strong \<leftarrow> vote_at (strong_votes me) my_vote_index;
     my_weak \<leftarrow> vote_at (weak_votes me) my_vote_index;
     other_strong \<leftarrow> vote_at (strong_votes other) other_vote_index;
     other_weak \<leftarrow> vote_at (weak_votes other) other_vote_index;
     Some (my_strong = other_strong \<and> my_weak = other_weak)
   }"

definition qc_vote_same_at :: "qc_t \<Rightarrow> nat \<Rightarrow> nat \<Rightarrow> bool option" where
  "qc_vote_same_at q active_vote_index pending_vote_index =
     (case pending_policy_sig q of
        None \<Rightarrow> None
      | Some p \<Rightarrow> qc_sig_vote_same_at (active_policy_sig q) p active_vote_index pending_vote_index)"

section \<open>Checking a certificate\<close>

definition verify_vote_format :: "qc_sig_t \<Rightarrow> finalizer_policy \<Rightarrow> unit res" where
  "verify_vote_format q policy =
     (let num_finalizers = length (finalizers policy) in
      bind_res (eos_assert (strong_votes q \<noteq> None \<or> weak_votes q \<noteq> None) invalid_qc_claim) (\<lambda>_.
      bind_res (case strong_votes q of None \<Rightarrow> Inr ()
                | Some s \<Rightarrow> eos_assert (num_finalizers = length s) invalid_qc_claim) (\<lambda>_.
      bind_res (case weak_votes q of None \<Rightarrow> Inr ()
                | Some w \<Rightarrow> eos_assert (num_finalizers = length w) invalid_qc_claim) (\<lambda>_.
      case (strong_votes q, weak_votes q) of
        (Some s, Some w) \<Rightarrow>
          eos_assert (\<forall>i\<in>{..<length s}. \<not> (s ! i \<and> w ! i)) invalid_qc_claim
      | _ \<Rightarrow> Inr ()))))"

text \<open>The two lambdas of \<^verbatim>\<open>verify\<close>: the accumulated weight (in \<^verbatim>\<open>uint64_t\<close>) and the aggregated keys.\<close>

fun weights :: "finalizer_authority list \<Rightarrow> vote_bitset_t \<Rightarrow> u64 option" where
  "weights [] bs = Some 0"
| "weights (f # fs) [] = None"
| "weights (f # fs) (b # bs) = do { w \<leftarrow> weights fs bs; Some (if b then weight f + w else w) }"

definition voted_keys :: "finalizer_authority list \<Rightarrow> vote_bitset_t \<Rightarrow> bls_public_key list" where
  "voted_keys fs bs = map (public_key \<circ> fst) (filter snd (zip fs bs))"

definition qc_sig_verify ::
    "bls_lib \<Rightarrow> qc_sig_t \<Rightarrow> finalizer_policy \<Rightarrow> digest_type \<Rightarrow> u8 list \<Rightarrow> unit res" where
  "qc_sig_verify lib q policy strong_digest weak_digest =
     bind_res (asserted (case strong_votes q of None \<Rightarrow> Some 0 | Some s \<Rightarrow> weights (finalizers policy) s)) (\<lambda>strong_weights.
     bind_res (asserted (case weak_votes q of None \<Rightarrow> Some 0 | Some w \<Rightarrow> weights (finalizers policy) w)) (\<lambda>weak_weights.
     bind_res (if qc_sig_is_strong q
               then eos_assert (strong_weights \<ge> threshold policy) invalid_qc_claim
               else eos_assert (strong_weights + weak_weights \<ge> threshold policy) invalid_qc_claim) (\<lambda>_.
     let entries = (case strong_votes q of None \<Rightarrow> []
                    | Some s \<Rightarrow> [(aggregate_public_keys lib (voted_keys (finalizers policy) s), sha256_data strong_digest)]) @
                   (case weak_votes q of None \<Rightarrow> []
                    | Some w \<Rightarrow> [(aggregate_public_keys lib (voted_keys (finalizers policy) w), weak_digest)])
     in eos_assert (aggregate_verify lib (map fst entries) (map snd entries) (sig q)) invalid_qc_claim)))"

text \<open>
  The nested loops of \<^verbatim>\<open>verify_dual_finalizers_votes\<close>: for every active finalizer the first pending one
  with the same key has to have voted the same way.
\<close>

definition find_finalizer :: "bls_public_key \<Rightarrow> finalizer_authority list \<Rightarrow> nat option" where
  "find_finalizer key fs = find (\<lambda>i. public_key (fs ! i) = key) [0..<length fs]"

fun verify_dual_loop :: "qc_t \<Rightarrow> finalizer_policy \<Rightarrow> finalizer_policy \<Rightarrow> nat list \<Rightarrow> unit res" where
  "verify_dual_loop q active pending [] = Inr ()"
| "verify_dual_loop q active pending (i # is) =
     (case find_finalizer (public_key (finalizers active ! i)) (finalizers pending) of
        None \<Rightarrow> verify_dual_loop q active pending is
      | Some j \<Rightarrow>
          bind_res (asserted (qc_vote_same_at q i j)) (\<lambda>same.
          bind_res (eos_assert same invalid_qc_claim) (\<lambda>_.
          verify_dual_loop q active pending is)))"

definition verify_dual_finalizers_votes :: "qc_t \<Rightarrow> finalizer_policy \<Rightarrow> finalizer_policy \<Rightarrow> unit res" where
  "verify_dual_finalizers_votes q active pending =
     verify_dual_loop q active pending [0..<length (finalizers active)]"

text \<open>\<^verbatim>\<open>aggregating_qc_t::verify_qc\<close>; it reads only the two policies of the aggregating QC.\<close>

definition verify_qc ::
    "bls_lib \<Rightarrow> finalizer_policy \<Rightarrow> finalizer_policy option \<Rightarrow> qc_t \<Rightarrow> digest_type \<Rightarrow> u8 list \<Rightarrow> unit res" where
  "verify_qc lib active pending q strong_digest weak_digest =
     bind_res (verify_vote_format (active_policy_sig q) active) (\<lambda>_.
     bind_res (case pending_policy_sig q of
         Some p \<Rightarrow>
           (case pending of
              None \<Rightarrow> Inl invalid_qc_claim
            | Some pending_policy \<Rightarrow>
                bind_res (verify_vote_format p pending_policy) (\<lambda>_.
                verify_dual_finalizers_votes q active pending_policy))
       | None \<Rightarrow> eos_assert (pending = None) invalid_qc_claim) (\<lambda>_.
     bind_res (qc_sig_verify lib (active_policy_sig q) active strong_digest weak_digest) (\<lambda>_.
     (case pending of
        None \<Rightarrow> Inr ()
      | Some pending_policy \<Rightarrow>
          (case pending_policy_sig q of
             None \<Rightarrow> Inl failed_assertion
           | Some p \<Rightarrow> qc_sig_verify lib p pending_policy strong_digest weak_digest)))))"

section \<open>What a bitset weighs\<close>

definition voters :: "vote_bitset_t \<Rightarrow> nat set" where
  "voters bs = {i. i < length bs \<and> bs ! i}"

definition strong_set :: "qc_sig_t \<Rightarrow> nat set" where
  "strong_set q = (case strong_votes q of None \<Rightarrow> {} | Some s \<Rightarrow> voters s)"

definition weak_set :: "qc_sig_t \<Rightarrow> nat set" where
  "weak_set q = (case weak_votes q of None \<Rightarrow> {} | Some w \<Rightarrow> voters w)"

lemma finite_voters [simp]: "finite (voters bs)"
  by (simp add: voters_def)

lemma voters_subset: "voters bs \<subseteq> {..<length bs}"
  by (auto simp: voters_def)

lemma voters_Nil [simp]: "voters [] = {}"
  by (simp add: voters_def)

lemma voters_Cons: "voters (b # bs) = (if b then {0} else {}) \<union> Suc ` voters bs"
  by (auto simp: voters_def image_iff less_Suc_eq_0_disj)

lemma voters_weight_Cons:
  "(\<Sum>i\<in>voters (b # bs). unat (weight ((f # fs) ! i))) =
     (if b then unat (weight f) else 0) + (\<Sum>i\<in>voters bs. unat (weight (fs ! i)))"
proof -
  have shift: "(\<Sum>i\<in>Suc ` voters bs. unat (weight ((f # fs) ! i))) = (\<Sum>i\<in>voters bs. unat (weight (fs ! i)))"
    by (simp add: sum.reindex)
  show ?thesis
  proof (cases b)
    case True
    then have "(\<Sum>i\<in>voters (b # bs). unat (weight ((f # fs) ! i))) =
        (\<Sum>i\<in>insert 0 (Suc ` voters bs). unat (weight ((f # fs) ! i)))"
      by (simp add: voters_Cons)
    also have "\<dots> = unat (weight f) + (\<Sum>i\<in>Suc ` voters bs. unat (weight ((f # fs) ! i)))"
      by (subst sum.insert) auto
    finally show ?thesis using True shift by simp
  next
    case False
    then show ?thesis using shift by (simp add: voters_Cons)
  qed
qed

lemma voters_weight_le:
  "length bs = length fs \<Longrightarrow> (\<Sum>i\<in>voters bs. unat (weight (fs ! i))) \<le> total_weight fs"
proof (induction fs arbitrary: bs)
  case (Cons f fs)
  then obtain b bs' where bs: "bs = b # bs'" by (cases bs) auto
  with Cons show ?case by (simp add: voters_weight_Cons add_mono)
qed simp

lemma weights_exact:
  assumes "length bs = length fs" and "total_weight fs < 2 ^ 64"
  shows "\<exists>w. weights fs bs = Some w \<and> unat w = (\<Sum>i\<in>voters bs. unat (weight (fs ! i)))"
  using assms
proof (induction fs arbitrary: bs)
  case (Cons f fs)
  then obtain b bs' where bs: "bs = b # bs'" by (cases bs) auto
  with Cons obtain w where w: "weights fs bs' = Some w" "unat w = (\<Sum>i\<in>voters bs'. unat (weight (fs ! i)))"
    by (auto dest: Cons.IH)
  moreover have "unat (weight f) + unat w < 2 ^ 64"
    using w(2) voters_weight_le[of bs' fs] Cons.prems bs by simp
  ultimately show ?case
    using bs by (simp add: voters_weight_Cons unat_add_no_wrap)
qed simp

section \<open>What a verified certificate proves\<close>

text \<open>The votes of a certificate are a quorum of a policy.\<close>

definition sig_quorum :: "finalizer_policy \<Rightarrow> qc_sig_t \<Rightarrow> bool" where
  "sig_quorum p q \<longleftrightarrow>
     strong_set q \<subseteq> {..<length (finalizers p)} \<and> weak_set q \<subseteq> {..<length (finalizers p)} \<and>
     strong_set q \<inter> weak_set q = {} \<and>
     unat (threshold p) \<le> weight_of p (strong_set q \<union> weak_set q) \<and>
     (qc_sig_is_strong q \<longrightarrow> weak_set q = {})"

lemma verify_vote_format_ok:
  assumes "verify_vote_format q p = Inr ()"
  shows "\<And>s. strong_votes q = Some s \<Longrightarrow> length s = length (finalizers p)"
    and "\<And>w. weak_votes q = Some w \<Longrightarrow> length w = length (finalizers p)"
    and "strong_set q \<inter> weak_set q = {}"
    and "strong_set q \<subseteq> {..<length (finalizers p)}" and "weak_set q \<subseteq> {..<length (finalizers p)}"
proof -
  show s: "\<And>s. strong_votes q = Some s \<Longrightarrow> length s = length (finalizers p)"
    and w: "\<And>w. weak_votes q = Some w \<Longrightarrow> length w = length (finalizers p)"
    using assms by (auto simp: verify_vote_format_def Let_def bind_res_Inr_iff eos_assert_Inr_iff)
  show "strong_set q \<inter> weak_set q = {}"
    using assms by (auto simp: verify_vote_format_def Let_def bind_res_Inr_iff eos_assert_Inr_iff
                          strong_set_def weak_set_def voters_def split: option.splits)
  show "strong_set q \<subseteq> {..<length (finalizers p)}" "weak_set q \<subseteq> {..<length (finalizers p)}"
    using s w by (auto simp: strong_set_def weak_set_def voters_def split: option.splits)
qed

text \<open>The weights summed by \<^verbatim>\<open>verify\<close> are the true weights of the voters.\<close>

lemma vote_weights_exact:
  assumes "\<And>s. v = Some s \<Longrightarrow> length s = length (finalizers p)" and "total_weight (finalizers p) < 2 ^ 64"
  shows "\<exists>w. (case v of None \<Rightarrow> Some 0 | Some s \<Rightarrow> weights (finalizers p) s) = Some w \<and>
             unat w = weight_of p (case v of None \<Rightarrow> {} | Some s \<Rightarrow> voters s)"
  using assms weights_exact[of _ "finalizers p"] by (cases v) (auto simp: weight_of_def)

lemma qc_sig_verify_quorum:
  assumes format: "verify_vote_format q p = Inr ()" and ok: "total_weight (finalizers p) < 2 ^ 64"
    and ver: "qc_sig_verify lib q p sd wd = Inr ()"
  shows "sig_quorum p q"
proof -
  note fmt = verify_vote_format_ok[OF format]
  obtain sw where sw: "(case strong_votes q of None \<Rightarrow> Some 0 | Some s \<Rightarrow> weights (finalizers p) s) = Some sw"
      "unat sw = weight_of p (strong_set q)"
    using vote_weights_exact[OF fmt(1) ok] by (auto simp: strong_set_def)
  obtain ww where ww: "(case weak_votes q of None \<Rightarrow> Some 0 | Some s \<Rightarrow> weights (finalizers p) s) = Some ww"
      "unat ww = weight_of p (weak_set q)"
    using vote_weights_exact[OF fmt(2) ok] by (auto simp: weak_set_def)
  have fin: "finite (strong_set q)" "finite (weak_set q)"
    using fmt(4,5) by (auto intro: finite_subset)
  have union: "weight_of p (strong_set q \<union> weak_set q) = unat sw + unat ww"
    using fin fmt(3) sw(2) ww(2) by (simp add: weight_of_def sum.union_disjoint)
  also have "\<dots> \<le> total_weight (finalizers p)"
    unfolding union[symmetric] weight_of_all[symmetric] weight_of_def
    using fmt(4,5) by (intro sum_mono2) auto
  finally have no_wrap: "unat (sw + ww) = unat sw + unat ww"
    using ok union by (intro unat_add_no_wrap) simp
  have strong: "qc_sig_is_strong q \<Longrightarrow> weak_set q = {} \<and> threshold p \<le> sw"
    using ver sw(1) by (auto simp: qc_sig_verify_def bind_res_Inr_iff eos_assert_Inr_iff qc_sig_is_strong_def weak_set_def)
  have weak: "\<not> qc_sig_is_strong q \<Longrightarrow> threshold p \<le> sw + ww"
    using ver sw(1) ww(1) by (auto simp: qc_sig_verify_def bind_res_Inr_iff eos_assert_Inr_iff)
  have "unat (threshold p) \<le> unat sw + unat ww"
    using strong weak no_wrap by (cases "qc_sig_is_strong q") (auto simp: word_le_nat_alt)
  then show ?thesis using fmt strong union by (simp add: sig_quorum_def)
qed

lemma find_finalizer_distinct:
  assumes "distinct (map public_key fs)" and "j < length fs" and "public_key (fs ! j) = key"
  shows "find_finalizer key fs = Some j"
proof -
  have "public_key (fs ! i) \<noteq> key" if "i < j" for i
    using assms that nth_eq_iff_index_eq[OF assms(1), of i j] by auto
  with assms(2,3) show ?thesis
    unfolding find_finalizer_def find_Some_iff by (intro exI[of _ j]) simp
qed

lemma find_finalizer_Some:
  assumes "find_finalizer key fs = Some j"
  shows "j < length fs" and "public_key (fs ! j) = key"
  using assms by (auto simp: find_finalizer_def find_Some_iff)

lemma find_finalizer_None:
  "find_finalizer key fs = None \<longleftrightarrow> key \<notin> public_key ` set fs"
  unfolding find_finalizer_def find_None_iff by (auto simp: image_iff) (metis in_set_conv_nth nth_mem)+

lemma verify_dual_loop_ok:
  assumes "verify_dual_loop q active pending is = Inr ()" and "i \<in> set is"
    and "find_finalizer (public_key (finalizers active ! i)) (finalizers pending) = Some j"
  shows "qc_vote_same_at q i j = Some True"
  using assms
  by (induction q active pending "is" rule: verify_dual_loop.induct)
     (auto simp: bind_res_Inr_iff eos_assert_Inr_iff asserted_Inr_iff split: option.splits)

lemma vote_at_set:
  "vote_at v i = Some b \<Longrightarrow> b \<longleftrightarrow> i \<in> (case v of None \<Rightarrow> {} | Some s \<Rightarrow> voters s)"
  by (auto simp: vote_at_def voters_def bind_eq_Some_conv assert_opt_Some_iff split: option.splits)

lemma qc_sig_vote_same_at_sets:
  assumes "qc_sig_vote_same_at a b i j = Some True"
  shows "i \<in> strong_set a \<longleftrightarrow> j \<in> strong_set b" and "i \<in> weak_set a \<longleftrightarrow> j \<in> weak_set b"
  using assms unfolding qc_sig_vote_same_at_def strong_set_def weak_set_def
  by (auto simp: bind_eq_Some_conv dest!: vote_at_set)

section \<open>Properties\<close>

text \<open>
  C9. Soundness of the QC check. If \<^verbatim>\<open>verify_qc\<close> accepts a certificate under accepted policies, then for
  the active policy, and for the pending one exactly when it exists, the finalizers marked in the
  bitsets are distinct finalizers of the policy whose true (not wrapped) weight reaches the threshold;
  a strong certificate counts strong votes only; and a finalizer of both policies is marked the same
  way in both.
\<close>

theorem verify_qc_sound:
  assumes "policy_ok active" and "pred_option policy_ok pending"
    and "verify_qc lib active pending q strong_digest weak_digest = Inr ()"
  shows "sig_quorum active (active_policy_sig q) \<and>
         (case pending of
            None \<Rightarrow> pending_policy_sig q = None
          | Some p \<Rightarrow> \<exists>s. pending_policy_sig q = Some s \<and> sig_quorum p s \<and>
              (\<forall>i j. i < length (finalizers active) \<and> j < length (finalizers p) \<and>
                     public_key (finalizers active ! i) = public_key (finalizers p ! j) \<longrightarrow>
                     (i \<in> strong_set (active_policy_sig q) \<longleftrightarrow> j \<in> strong_set s) \<and>
                     (i \<in> weak_set (active_policy_sig q) \<longleftrightarrow> j \<in> weak_set s)))"
proof -
  have fmt: "verify_vote_format (active_policy_sig q) active = Inr ()"
    and ver: "qc_sig_verify lib (active_policy_sig q) active strong_digest weak_digest = Inr ()"
    using assms(3) by (auto simp: verify_qc_def bind_res_Inr_iff)
  have active: "sig_quorum active (active_policy_sig q)"
    using assms(1) by (intro qc_sig_verify_quorum[OF fmt _ ver]) (simp add: policy_ok_def)
  show ?thesis
  proof (cases pending)
    case None
    with assms(3) active show ?thesis
      by (auto simp: verify_qc_def bind_res_Inr_iff split: option.splits)
  next
    case (Some p)
    with assms(3) obtain s where s: "pending_policy_sig q = Some s" "verify_vote_format s p = Inr ()"
        "qc_sig_verify lib s p strong_digest weak_digest = Inr ()"
        "verify_dual_finalizers_votes q active p = Inr ()"
      by (auto simp: verify_qc_def bind_res_Inr_iff eos_assert_Inr_iff split: option.splits)
    have ok: "policy_ok p" using assms(2) Some by simp
    have quorum: "sig_quorum p s"
      using ok by (intro qc_sig_verify_quorum[OF s(2) _ s(3)]) (simp add: policy_ok_def)
    have same: "(i \<in> strong_set (active_policy_sig q) \<longleftrightarrow> j \<in> strong_set s) \<and>
                (i \<in> weak_set (active_policy_sig q) \<longleftrightarrow> j \<in> weak_set s)"
      if "i < length (finalizers active)" "j < length (finalizers p)"
        "public_key (finalizers active ! i) = public_key (finalizers p ! j)" for i j
    proof -
      have "find_finalizer (public_key (finalizers active ! i)) (finalizers p) = Some j"
        using that ok by (intro find_finalizer_distinct) (auto simp: policy_ok_def)
      then have "qc_vote_same_at q i j = Some True"
        using s(4) that(1) by (auto simp: verify_dual_finalizers_votes_def intro: verify_dual_loop_ok)
      then have "qc_sig_vote_same_at (active_policy_sig q) s i j = Some True"
        using s(1) by (simp add: qc_vote_same_at_def)
      from qc_sig_vote_same_at_sets[OF this] show ?thesis by simp
    qed
    show ?thesis using Some s(1) active quorum same by simp
  qed
qed

definition ex_policy :: finalizer_policy where
  "ex_policy = \<lparr>generation = 1, threshold = 2, finalizers = [ex_finalizer 1 1, ex_finalizer 2 1, ex_finalizer 3 1]\<rparr>"

text \<open>A library that accepts every signature, to evaluate the definitions.\<close>

definition ex_lib :: bls_lib where
  "ex_lib = \<lparr>sig_aggregate = (\<lambda>a b. a @ b), sig_default = [], aggregate_public_keys = concat,
             aggregate_verify = (\<lambda>ks ds s. True), bls_verify = (\<lambda>k d s. True)\<rparr>"

lemma ex_policy_ok: "policy_ok ex_policy"
  by (simp add: policy_ok_def ex_policy_def ex_finalizer_def max_finalizers_def)

theorem verify_qc_sound_witness:
  "sig_quorum ex_policy \<lparr>strong_votes = Some [True, False, True], weak_votes = None, sig = []\<rparr>"
proof -
  let ?q = "\<lparr>qc_block_num = 5, active_policy_sig = \<lparr>strong_votes = Some [True, False, True], weak_votes = None, sig = []\<rparr>,
             pending_policy_sig = None\<rparr>"
  have "verify_qc ex_lib ex_policy None ?q sha256_zero [] = Inr ()"
    by (simp add: verify_qc_def verify_vote_format_def qc_sig_verify_def ex_policy_def ex_finalizer_def
        ex_lib_def qc_sig_is_strong_def Let_def)
  then show ?thesis
    using verify_qc_sound[OF ex_policy_ok, of None ex_lib ?q] by simp
qed

end
