(* ===== verification/Aggregating_Qc.thy ===== *)
theory Aggregating_Qc
  imports Quorum_Cert
begin

text \<open>
  Aggregation of votes into quorum certificates (finality/qc.hpp and finality/qc.cpp,
  \<^verbatim>\<open>aggregating_qc_sig_t\<close> and \<^verbatim>\<open>aggregating_qc_t\<close>): the state machine that adds strong and weak votes of
  one policy, the choice of the best certificate, and the pair of aggregations for an active and a
  pending policy. Every method of \<^verbatim>\<open>aggregating_qc_sig_t\<close> holds the mutex, so it is one atomic step here.
\<close>

section \<open>One policy\<close>

datatype vote_result_t =
  success | duplicate | unknown_public_key | invalid_signature | unknown_block | max_exceeded

datatype vote_status_t = voted | not_voted | irrelevant_finalizer

datatype state_t = unrestricted | restricted | weak_achieved | weak_final | strong_achieved

record votes_t =
  bitset :: vote_bitset_t
  votes_sig :: bls_aggregate_signature
  processed :: "bool list"

record aggregating_qc_sig_t =
  received_qc_sig :: "qc_sig_t option"
  quorum :: u64
  max_weak_sum :: u64
  aggregating_state :: state_t
  strong_sum :: u64
  weak_sum :: u64
  agg_weak_votes :: votes_t
  agg_strong_votes :: votes_t

definition votes_init :: "bls_lib \<Rightarrow> nat \<Rightarrow> votes_t" where
  "votes_init lib num_finalizers =
     \<lparr>bitset = replicate num_finalizers False, votes_sig = sig_default lib,
      processed = replicate num_finalizers False\<rparr>"

text \<open>\<^verbatim>\<open>reflector_init\<close> rebuilds the flags after deserialization.\<close>

definition reflector_init :: "votes_t \<Rightarrow> votes_t" where
  "reflector_init v = v\<lparr>processed := bitset v\<rparr>"

definition votes_has_voted :: "votes_t \<Rightarrow> nat \<Rightarrow> bool option" where
  "votes_has_voted v index = do { assert_opt (index < length (processed v)); Some (processed v ! index) }"

definition votes_add_vote :: "bls_lib \<Rightarrow> nat \<Rightarrow> bls_signature \<Rightarrow> votes_t \<Rightarrow> votes_t option" where
  "votes_add_vote lib index signature v = do {
     assert_opt (index < length (processed v) \<and> index < length (bitset v));
     Some \<lparr>bitset = (bitset v)[index := True], votes_sig = sig_aggregate lib (votes_sig v) signature,
           processed = (processed v)[index := True]\<rparr>
   }"

definition aggregating_qc_sig_init :: "bls_lib \<Rightarrow> nat \<Rightarrow> u64 \<Rightarrow> u64 \<Rightarrow> aggregating_qc_sig_t" where
  "aggregating_qc_sig_init lib num_finalizers q max_w =
     \<lparr>received_qc_sig = None, quorum = q, max_weak_sum = max_w, aggregating_state = unrestricted,
      strong_sum = 0, weak_sum = 0, agg_weak_votes = votes_init lib num_finalizers,
      agg_strong_votes = votes_init lib num_finalizers\<rparr>"

definition aggregating_qc_sig_of_policy :: "bls_lib \<Rightarrow> finalizer_policy \<Rightarrow> aggregating_qc_sig_t" where
  "aggregating_qc_sig_of_policy lib policy =
     aggregating_qc_sig_init lib (length (finalizers policy)) (threshold policy)
       (max_weak_sum_before_weak_final policy)"

fun is_quorum_met_state :: "state_t \<Rightarrow> bool" where
  "is_quorum_met_state s = (s = strong_achieved \<or> s = weak_achieved \<or> s = weak_final)"

definition is_quorum_met_sig :: "aggregating_qc_sig_t \<Rightarrow> bool" where
  "is_quorum_met_sig a = is_quorum_met_state (aggregating_state a)"

definition has_voted_sig :: "aggregating_qc_sig_t \<Rightarrow> nat \<Rightarrow> bool option" where
  "has_voted_sig a index = do {
     s \<leftarrow> votes_has_voted (agg_strong_votes a) index;
     if s then Some True else votes_has_voted (agg_weak_votes a) index
   }"

definition check_duplicate :: "aggregating_qc_sig_t \<Rightarrow> nat \<Rightarrow> vote_result_t option" where
  "check_duplicate a index = do {
     assert_opt (index < length (bitset (agg_strong_votes a)) \<and> index < length (bitset (agg_weak_votes a)));
     Some (if bitset (agg_strong_votes a) ! index \<or> bitset (agg_weak_votes a) ! index then duplicate else success)
   }"

text \<open>The \<^verbatim>\<open>switch\<close> of \<^verbatim>\<open>add_strong_vote\<close>, after the sums have been updated.\<close>

definition strong_transition :: "aggregating_qc_sig_t \<Rightarrow> state_t option" where
  "strong_transition a =
     (case aggregating_state a of
        unrestricted \<Rightarrow>
          if strong_sum a \<ge> quorum a then Some strong_achieved
          else if weak_sum a + strong_sum a \<ge> quorum a then Some weak_achieved
          else Some unrestricted
      | restricted \<Rightarrow>
          if strong_sum a \<ge> quorum a then None
          else if weak_sum a + strong_sum a \<ge> quorum a then Some weak_final
          else Some restricted
      | weak_achieved \<Rightarrow> Some (if strong_sum a \<ge> quorum a then strong_achieved else weak_achieved)
      | weak_final \<Rightarrow> Some weak_final
      | strong_achieved \<Rightarrow> Some strong_achieved)"

definition add_strong_vote ::
    "bls_lib \<Rightarrow> nat \<Rightarrow> bls_signature \<Rightarrow> u64 \<Rightarrow> aggregating_qc_sig_t \<Rightarrow> (vote_result_t \<times> aggregating_qc_sig_t) option" where
  "add_strong_vote lib index signature w a = do {
     v \<leftarrow> votes_add_vote lib index signature (agg_strong_votes a);
     let a1 = a\<lparr>agg_strong_votes := v, strong_sum := strong_sum a + w\<rparr>;
     st \<leftarrow> strong_transition a1;
     Some (success, a1\<lparr>aggregating_state := st\<rparr>)
   }"

definition weak_transition :: "aggregating_qc_sig_t \<Rightarrow> state_t" where
  "weak_transition a =
     (case aggregating_state a of
        weak_achieved \<Rightarrow> if weak_sum a \<ge> max_weak_sum a then weak_final else weak_achieved
      | weak_final \<Rightarrow> weak_final
      | strong_achieved \<Rightarrow> strong_achieved
      | st \<Rightarrow>
          let st1 = (if weak_sum a + strong_sum a \<ge> quorum a then weak_achieved else st) in
          if weak_sum a > max_weak_sum a then
            (if st1 = weak_achieved then weak_final
             else if st1 = unrestricted then restricted
             else st1)
          else st1)"

definition add_weak_vote ::
    "bls_lib \<Rightarrow> nat \<Rightarrow> bls_signature \<Rightarrow> u64 \<Rightarrow> aggregating_qc_sig_t \<Rightarrow> (vote_result_t \<times> aggregating_qc_sig_t) option" where
  "add_weak_vote lib index signature w a = do {
     v \<leftarrow> votes_add_vote lib index signature (agg_weak_votes a);
     let a1 = a\<lparr>agg_weak_votes := v, weak_sum := weak_sum a + w\<rparr>;
     Some (success, a1\<lparr>aggregating_state := weak_transition a1\<rparr>)
   }"

definition add_vote ::
    "bls_lib \<Rightarrow> bool \<Rightarrow> nat \<Rightarrow> bls_signature \<Rightarrow> u64 \<Rightarrow> aggregating_qc_sig_t \<Rightarrow> (vote_result_t \<times> aggregating_qc_sig_t) option" where
  "add_vote lib strong index signature w a = do {
     s \<leftarrow> check_duplicate a index;
     if s = success then
       (if strong then add_strong_vote lib index signature w a else add_weak_vote lib index signature w a)
     else Some (s, a)
   }"

definition extract_qc_sig_from_aggregating :: "bls_lib \<Rightarrow> aggregating_qc_sig_t \<Rightarrow> qc_sig_t res" where
  "extract_qc_sig_from_aggregating lib a =
     (if aggregating_state a = strong_achieved then
        Inr \<lparr>strong_votes = Some (bitset (agg_strong_votes a)), weak_votes = None,
             sig = votes_sig (agg_strong_votes a)\<rparr>
      else if is_quorum_met_sig a then
        Inr \<lparr>strong_votes = Some (bitset (agg_strong_votes a)), weak_votes = Some (bitset (agg_weak_votes a)),
             sig = sig_aggregate lib (votes_sig (agg_strong_votes a)) (votes_sig (agg_weak_votes a))\<rparr>
      else Inl finalizer_exception)"

definition get_best_qc_sig :: "bls_lib \<Rightarrow> aggregating_qc_sig_t \<Rightarrow> qc_sig_t option res" where
  "get_best_qc_sig lib a =
     (if \<not> is_quorum_met_sig a then Inr (received_qc_sig a)
      else bind_res (extract_qc_sig_from_aggregating lib a) (\<lambda>from_agg.
        case received_qc_sig a of
          None \<Rightarrow> Inr (Some from_agg)
        | Some r \<Rightarrow> if qc_sig_is_strong r \<or> qc_sig_is_weak from_agg then Inr (Some r) else Inr (Some from_agg)))"

definition set_received_qc_sig :: "qc_sig_t \<Rightarrow> aggregating_qc_sig_t \<Rightarrow> bool \<times> aggregating_qc_sig_t" where
  "set_received_qc_sig q a =
     (if (case received_qc_sig a of None \<Rightarrow> True | Some r \<Rightarrow> qc_sig_is_weak r \<and> qc_sig_is_strong q)
      then (True, a\<lparr>received_qc_sig := Some q\<rparr>) else (False, a))"

definition received_qc_sig_is_strong :: "aggregating_qc_sig_t \<Rightarrow> bool" where
  "received_qc_sig_is_strong a = (case received_qc_sig a of None \<Rightarrow> False | Some r \<Rightarrow> qc_sig_is_strong r)"

section \<open>The active and the pending policy\<close>

record vote_message =
  vote_block_id :: block_id_type
  vote_strong :: bool
  finalizer_key :: bls_public_key
  vote_sig :: bls_signature

record aggregate_vote_result_t =
  result :: vote_result_t
  active_authority :: "finalizer_authority option"
  pending_authority :: "finalizer_authority option"

record aggregating_qc_t =
  active_finalizer_policy :: finalizer_policy
  pending_finalizer_policy :: "finalizer_policy option"
  active_agg :: aggregating_qc_sig_t
  pending_agg :: "aggregating_qc_sig_t option"

definition aggregating_qc_init :: "bls_lib \<Rightarrow> finalizer_policy \<Rightarrow> finalizer_policy option \<Rightarrow> aggregating_qc_t" where
  "aggregating_qc_init lib active pending =
     \<lparr>active_finalizer_policy = active, pending_finalizer_policy = pending,
      active_agg = aggregating_qc_sig_of_policy lib active,
      pending_agg = map_option (aggregating_qc_sig_of_policy lib) pending\<rparr>"

definition get_best_qc :: "bls_lib \<Rightarrow> aggregating_qc_t \<Rightarrow> block_num_type \<Rightarrow> qc_t option res" where
  "get_best_qc lib agg bn =
     bind_res (get_best_qc_sig lib (active_agg agg)) (\<lambda>active_best.
     case active_best of
       None \<Rightarrow> Inr None
     | Some a \<Rightarrow>
         (case pending_agg agg of
            None \<Rightarrow> Inr (Some \<lparr>qc_block_num = bn, active_policy_sig = a, pending_policy_sig = None\<rparr>)
          | Some p \<Rightarrow>
              bind_res (get_best_qc_sig lib p) (\<lambda>pending_best.
              case pending_best of
                None \<Rightarrow> Inr None
              | Some s \<Rightarrow> Inr (Some \<lparr>qc_block_num = bn, active_policy_sig = a, pending_policy_sig = Some s\<rparr>))))"

definition aggregating_verify_qc ::
    "bls_lib \<Rightarrow> aggregating_qc_t \<Rightarrow> qc_t \<Rightarrow> digest_type \<Rightarrow> u8 list \<Rightarrow> unit res" where
  "aggregating_verify_qc lib agg q strong_digest weak_digest =
     verify_qc lib (active_finalizer_policy agg) (pending_finalizer_policy agg) q strong_digest weak_digest"

definition set_received_qc :: "qc_t \<Rightarrow> aggregating_qc_t \<Rightarrow> (bool \<times> aggregating_qc_t) res" where
  "set_received_qc q agg =
     (let (active_better, a) = set_received_qc_sig (active_policy_sig q) (active_agg agg) in
      case pending_agg agg of
        None \<Rightarrow> Inr (active_better, agg\<lparr>active_agg := a\<rparr>)
      | Some p \<Rightarrow>
          (case pending_policy_sig q of
             None \<Rightarrow> Inl invalid_qc_claim
           | Some s \<Rightarrow>
               let (pending_better, p') = set_received_qc_sig s p in
               Inr (active_better \<or> pending_better, agg\<lparr>active_agg := a, pending_agg := Some p'\<rparr>)))"

definition received_qc_is_strong :: "aggregating_qc_t \<Rightarrow> bool" where
  "received_qc_is_strong agg =
     (case pending_agg agg of
        None \<Rightarrow> received_qc_sig_is_strong (active_agg agg)
      | Some p \<Rightarrow> received_qc_sig_is_strong (active_agg agg) \<and> received_qc_sig_is_strong p)"

text \<open>
  The lambda \<^verbatim>\<open>add_vote\<close> of \<^verbatim>\<open>aggregate_vote\<close>: \<open>verified\<close> is the captured flag that makes the signature
  of a vote be checked once.
\<close>

definition add_policy_vote ::
    "bls_lib \<Rightarrow> vote_message \<Rightarrow> u8 list \<Rightarrow> finalizer_policy \<Rightarrow> bool \<Rightarrow> aggregating_qc_sig_t \<Rightarrow>
     (vote_result_t \<times> finalizer_authority option \<times> bool \<times> aggregating_qc_sig_t) option" where
  "add_policy_vote lib vote finalizer_digest policy verified a =
     (case find_finalizer (finalizer_key vote) (finalizers policy) of
        None \<Rightarrow> Some (unknown_public_key, None, verified, a)
      | Some index \<Rightarrow> do {
          let auth = Some (finalizers policy ! index);
          dup \<leftarrow> has_voted_sig a index;
          if dup then Some (duplicate, auth, verified, a)
          else if \<not> verified \<and> \<not> bls_verify lib (finalizer_key vote) finalizer_digest (vote_sig vote)
          then Some (invalid_signature, auth, verified, a)
          else do {
            (s, a') \<leftarrow> add_vote lib (vote_strong vote) index (vote_sig vote) (weight (finalizers policy ! index)) a;
            Some (s, auth, True, a')
          }
        })"

definition aggregate_vote ::
    "bls_lib \<Rightarrow> vote_message \<Rightarrow> u8 list \<Rightarrow> aggregating_qc_t \<Rightarrow> (aggregate_vote_result_t \<times> aggregating_qc_t) option" where
  "aggregate_vote lib vote finalizer_digest agg = do {
     (s, auth, verified, a) \<leftarrow>
        add_policy_vote lib vote finalizer_digest (active_finalizer_policy agg) False (active_agg agg);
     let agg1 = agg\<lparr>active_agg := a\<rparr>;
     let r = \<lparr>result = s, active_authority = auth, pending_authority = None\<rparr>;
     if s \<noteq> success \<and> s \<noteq> unknown_public_key then Some (r, agg1)
     else case pending_finalizer_policy agg of
        None \<Rightarrow> Some (r, agg1)
      | Some pending \<Rightarrow>
          (case pending_agg agg of
             None \<Rightarrow> None
           | Some p \<Rightarrow> do {
               (ps, pauth, _, p') \<leftarrow> add_policy_vote lib vote finalizer_digest pending verified p;
               Some (r\<lparr>result := (if ps \<noteq> unknown_public_key then ps else s), pending_authority := pauth\<rparr>,
                     agg1\<lparr>pending_agg := Some p'\<rparr>)
             })
   }"

definition finalizer_has_voted :: "finalizer_policy \<Rightarrow> aggregating_qc_sig_t \<Rightarrow> bls_public_key \<Rightarrow> vote_status_t option" where
  "finalizer_has_voted policy a key =
     (case find_finalizer key (finalizers policy) of
        None \<Rightarrow> Some irrelevant_finalizer
      | Some index \<Rightarrow> do { v \<leftarrow> has_voted_sig a index; Some (if v then voted else not_voted) })"

definition has_voted :: "aggregating_qc_t \<Rightarrow> bls_public_key \<Rightarrow> vote_status_t res" where
  "has_voted agg key =
     bind_res (asserted (finalizer_has_voted (active_finalizer_policy agg) (active_agg agg) key)) (\<lambda>active_status.
     case pending_finalizer_policy agg of
       None \<Rightarrow> Inr active_status
     | Some pending \<Rightarrow>
         if active_status = not_voted then Inr active_status
         else case pending_agg agg of
           None \<Rightarrow> Inl invalid_qc_claim
         | Some p \<Rightarrow>
             bind_res (asserted (finalizer_has_voted pending p key)) (\<lambda>pending_status.
             Inr (if pending_status = irrelevant_finalizer then active_status else pending_status)))"

definition is_quorum_met :: "aggregating_qc_t \<Rightarrow> bool" where
  "is_quorum_met agg =
     (is_quorum_met_sig (active_agg agg) \<and>
      (case pending_agg agg of None \<Rightarrow> True | Some p \<Rightarrow> is_quorum_met_sig p))"

section \<open>Vote metrics\<close>

text \<open>
  A \<^verbatim>\<open>fin_auth_set_t\<close> is a set of finalizers compared by their public key alone, so it is a map from the
  key to the finalizer and the policy generation; \<^verbatim>\<open>std::set::insert\<close> keeps an element already there.
\<close>

type_synonym fin_auth_set_t = "bls_public_key \<rightharpoonup> finalizer_authority \<times> u32"

record qc_vote_metrics_t =
  metrics_strong_votes :: fin_auth_set_t
  metrics_weak_votes :: fin_auth_set_t
  metrics_missing_votes :: fin_auth_set_t

definition fin_auth_insert :: "finalizer_authority \<Rightarrow> u32 \<Rightarrow> fin_auth_set_t \<Rightarrow> fin_auth_set_t" where
  "fin_auth_insert f gen s = (if s (public_key f) = None then s(public_key f \<mapsto> (f, gen)) else s)"

definition add_votes :: "finalizer_policy \<Rightarrow> vote_bitset_t \<Rightarrow> fin_auth_set_t \<Rightarrow> (nat \<times> fin_auth_set_t) option" where
  "add_votes policy votes results = do {
     assert_opt (length votes = length (finalizers policy));
     let marked = map fst (filter snd (zip (finalizers policy) votes));
     Some (length marked, fold (\<lambda>f. fin_auth_insert f (generation policy)) marked results)
   }"

definition add_policy_votes :: "finalizer_policy \<Rightarrow> qc_sig_t \<Rightarrow> qc_vote_metrics_t \<Rightarrow> qc_vote_metrics_t option" where
  "add_policy_votes policy q m = do {
     (added1, m1) \<leftarrow> (case strong_votes q of
        None \<Rightarrow> Some (0, m)
      | Some s \<Rightarrow> do { (n, r) \<leftarrow> add_votes policy s (metrics_strong_votes m);
                      Some (n, m\<lparr>metrics_strong_votes := r\<rparr>) });
     (added2, m2) \<leftarrow> (case weak_votes q of
        None \<Rightarrow> Some (added1, m1)
      | Some w \<Rightarrow> do { (n, r) \<leftarrow> add_votes policy w (metrics_weak_votes m1);
                      Some (n, m1\<lparr>metrics_weak_votes := r\<rparr>) });
     if added2 \<noteq> length (finalizers policy) then do {
       let b0 = (case strong_votes q of None \<Rightarrow> replicate (length (finalizers policy)) False | Some s \<Rightarrow> s);
       b1 \<leftarrow> (case weak_votes q of
          None \<Rightarrow> Some b0
        | Some w \<Rightarrow> do { assert_opt (length b0 = length w); Some (map2 (\<or>) b0 w) });
       (_, r) \<leftarrow> add_votes policy (map Not b1) (metrics_missing_votes m2);
       Some (m2\<lparr>metrics_missing_votes := r\<rparr>)
     } else Some m2
   }"

definition vote_metrics :: "aggregating_qc_t \<Rightarrow> qc_t \<Rightarrow> qc_vote_metrics_t option" where
  "vote_metrics agg q = do {
     m \<leftarrow> add_policy_votes (active_finalizer_policy agg) (active_policy_sig q)
            \<lparr>metrics_strong_votes = Map.empty, metrics_weak_votes = Map.empty, metrics_missing_votes = Map.empty\<rparr>;
     case pending_finalizer_policy agg of
       None \<Rightarrow> Some m
     | Some pending \<Rightarrow> do {
         assert_opt (pending_agg agg \<noteq> None);
         s \<leftarrow> pending_policy_sig q;
         add_policy_votes pending s m
       }
   }"

definition add_not_voted :: "finalizer_policy \<Rightarrow> qc_sig_t \<Rightarrow> fin_auth_set_t \<Rightarrow> fin_auth_set_t option" where
  "add_not_voted policy q not_voted_set = do {
     let fs = finalizers policy;
     votes \<leftarrow> (case strong_votes q of Some s \<Rightarrow> Some s | None \<Rightarrow> weak_votes q);
     let other = (case strong_votes q of Some s \<Rightarrow> weak_votes q | None \<Rightarrow> None);
     assert_opt (length votes = length fs);
     assert_opt (case other of None \<Rightarrow> True | Some ot \<Rightarrow> length ot = length fs);
     let missing = filter (\<lambda>i. \<not> votes ! i \<and> \<not> (case other of None \<Rightarrow> False | Some ot \<Rightarrow> ot ! i)) [0..<length votes];
     Some (fold (\<lambda>i. fin_auth_insert (fs ! i) (generation policy)) missing not_voted_set)
   }"

definition missing_votes :: "aggregating_qc_t \<Rightarrow> qc_t \<Rightarrow> fin_auth_set_t option" where
  "missing_votes agg q = do {
     m \<leftarrow> add_not_voted (active_finalizer_policy agg) (active_policy_sig q) Map.empty;
     case pending_finalizer_policy agg of
       None \<Rightarrow> Some m
     | Some pending \<Rightarrow> do {
         assert_opt (pending_agg agg \<noteq> None);
         s \<leftarrow> pending_policy_sig q;
         add_not_voted pending s m
       }
   }"

end
