(* ===== verification/Qc_Aggregation.thy ===== *)
theory Qc_Aggregation
  imports Aggregating_Qc "HOL-Library.Multiset"
begin

text \<open>
  Correctness of vote aggregation: the invariant of \<^verbatim>\<open>aggregating_qc_sig_t\<close> (the sums are the true
  weights of the marked finalizers and the state tells exactly whether a quorum is reached), its
  preservation by every vote, and the verification of the certificates that are assembled from votes.
\<close>

section \<open>Marking one more finalizer\<close>

lemma voters_update:
  "i < length bs \<Longrightarrow> voters (bs[i := True]) = insert i (voters bs)"
  by (auto simp: voters_def nth_list_update)

lemma weight_of_insert:
  "finite S \<Longrightarrow> i \<notin> S \<Longrightarrow> weight_of p (insert i S) = unat (weight (finalizers p ! i)) + weight_of p S"
  by (simp add: weight_of_def)

lemma weight_of_disjoint:
  "finite A \<Longrightarrow> finite B \<Longrightarrow> A \<inter> B = {} \<Longrightarrow> weight_of p (A \<union> B) = weight_of p A + weight_of p B"
  by (simp add: weight_of_def sum.union_disjoint)

lemma weight_of_le_total:
  "S \<subseteq> {..<length (finalizers p)} \<Longrightarrow> weight_of p S \<le> total_weight (finalizers p)"
  unfolding weight_of_all[symmetric] weight_of_def by (intro sum_mono2) auto

lemma voters_replicate [simp]: "voters (replicate n False) = {}"
  by (auto simp: voters_def)

lemma mset_voted_keys:
  assumes "length bs = length fs"
  shows "mset (voted_keys fs bs) = image_mset (\<lambda>i. public_key (fs ! i)) (mset_set (voters bs))"
  using assms
proof (induction fs arbitrary: bs)
  case (Cons f fs)
  then obtain b bs' where bs: "bs = b # bs'" by (cases bs) auto
  have "image_mset (\<lambda>i. public_key ((f # fs) ! i)) (mset_set (Suc ` voters bs')) =
        image_mset (\<lambda>i. public_key (fs ! i)) (mset_set (voters bs'))"
    by (simp add: image_mset_mset_set[symmetric] multiset.map_comp o_def)
  with Cons bs show ?case
    by (cases b) (simp_all add: voted_keys_def voters_Cons o_def)
qed (simp add: voted_keys_def)

section \<open>The invariant\<close>

text \<open>The strong and the weak voters recorded so far.\<close>

abbreviation agg_strong :: "aggregating_qc_sig_t \<Rightarrow> nat set" where
  "agg_strong a \<equiv> voters (bitset (agg_strong_votes a))"

abbreviation agg_weak :: "aggregating_qc_sig_t \<Rightarrow> nat set" where
  "agg_weak a \<equiv> voters (bitset (agg_weak_votes a))"

definition votes_ok :: "finalizer_policy \<Rightarrow> votes_t \<Rightarrow> bool" where
  "votes_ok p v \<longleftrightarrow> length (bitset v) = length (finalizers p) \<and> processed v = bitset v"

text \<open>What each state says about the weights \<open>s\<close> of the strong and \<open>w\<close> of the weak votes.\<close>

fun state_ok :: "state_t \<Rightarrow> nat \<Rightarrow> nat \<Rightarrow> nat \<Rightarrow> nat \<Rightarrow> bool" where
  "state_ok unrestricted q m s w = (w + s < q \<and> w \<le> m)"
| "state_ok restricted q m s w = (w + s < q \<and> m < w)"
| "state_ok weak_achieved q m s w = (q \<le> w + s \<and> s < q \<and> w \<le> m)"
| "state_ok weak_final q m s w = (q \<le> w + s \<and> m \<le> w)"
| "state_ok strong_achieved q m s w = (q \<le> s)"

definition agg_ok :: "finalizer_policy \<Rightarrow> aggregating_qc_sig_t \<Rightarrow> bool" where
  "agg_ok p a \<longleftrightarrow>
     quorum a = threshold p \<and>
     total_weight (finalizers p) \<le> unat (max_weak_sum a) + unat (threshold p) \<and>
     votes_ok p (agg_strong_votes a) \<and> votes_ok p (agg_weak_votes a) \<and>
     agg_strong a \<inter> agg_weak a = {} \<and>
     unat (strong_sum a) = weight_of p (agg_strong a) \<and> unat (weak_sum a) = weight_of p (agg_weak a) \<and>
     state_ok (aggregating_state a) (unat (threshold p)) (unat (max_weak_sum a))
       (weight_of p (agg_strong a)) (weight_of p (agg_weak a))"

lemma agg_ok_sets:
  assumes "agg_ok p a"
  shows "agg_strong a \<subseteq> {..<length (finalizers p)}" and "agg_weak a \<subseteq> {..<length (finalizers p)}"
    and "weight_of p (agg_strong a \<union> agg_weak a) = weight_of p (agg_strong a) + weight_of p (agg_weak a)"
    and "weight_of p (agg_strong a) + weight_of p (agg_weak a) \<le> total_weight (finalizers p)"
proof -
  show sub: "agg_strong a \<subseteq> {..<length (finalizers p)}" "agg_weak a \<subseteq> {..<length (finalizers p)}"
    using assms voters_subset[of "bitset (agg_strong_votes a)"] voters_subset[of "bitset (agg_weak_votes a)"]
    by (simp_all add: agg_ok_def votes_ok_def)
  show union: "weight_of p (agg_strong a \<union> agg_weak a) = weight_of p (agg_strong a) + weight_of p (agg_weak a)"
    using assms by (intro weight_of_disjoint) (simp_all add: agg_ok_def)
  show "weight_of p (agg_strong a) + weight_of p (agg_weak a) \<le> total_weight (finalizers p)"
    unfolding union[symmetric] using sub by (intro weight_of_le_total) simp
qed

lemma quorum_met_iff:
  assumes "agg_ok p a"
  shows "is_quorum_met_sig a \<longleftrightarrow> unat (threshold p) \<le> weight_of p (agg_strong a \<union> agg_weak a)"
  unfolding agg_ok_sets(3)[OF assms] using assms
  by (cases "aggregating_state a") (auto simp: agg_ok_def is_quorum_met_sig_def)

lemma has_voted_sig_iff:
  assumes "agg_ok p a" and "i < length (finalizers p)"
  shows "has_voted_sig a i = Some (i \<in> agg_strong a \<union> agg_weak a)"
  using assms by (auto simp: agg_ok_def votes_ok_def has_voted_sig_def votes_has_voted_def voters_def)

section \<open>Every vote keeps the invariant\<close>

lemma new_vote_total:
  assumes "agg_ok p a" and "i < length (finalizers p)" and "i \<notin> agg_strong a" and "i \<notin> agg_weak a"
  shows "unat (weight (finalizers p ! i)) + weight_of p (agg_strong a) + weight_of p (agg_weak a)
           \<le> total_weight (finalizers p)"
proof -
  have "weight_of p (insert i (agg_strong a \<union> agg_weak a)) \<le> total_weight (finalizers p)"
    using assms(2) agg_ok_sets(1,2)[OF assms(1)] by (intro weight_of_le_total) auto
  then show ?thesis using assms(3,4) agg_ok_sets(3)[OF assms(1)] by (simp add: weight_of_insert)
qed

lemma add_strong_vote_ok:
  assumes ok: "agg_ok p a" and pol: "total_weight (finalizers p) < 2 ^ 64" and i: "i < length (finalizers p)"
    and new: "i \<notin> agg_strong a" "i \<notin> agg_weak a"
  shows "\<exists>a'. add_strong_vote lib i sg (weight (finalizers p ! i)) a = Some (success, a') \<and> agg_ok p a' \<and>
              agg_strong a' = insert i (agg_strong a) \<and> agg_weak a' = agg_weak a \<and>
              votes_sig (agg_strong_votes a') = sig_aggregate lib (votes_sig (agg_strong_votes a)) sg \<and>
              agg_weak_votes a' = agg_weak_votes a \<and> received_qc_sig a' = received_qc_sig a"
proof -
  let ?w = "unat (weight (finalizers p ! i))"
  let ?S = "weight_of p (agg_strong a)" and ?W = "weight_of p (agg_weak a)"
  have vs: "length (bitset (agg_strong_votes a)) = length (finalizers p)"
      "processed (agg_strong_votes a) = bitset (agg_strong_votes a)"
    using ok by (simp_all add: agg_ok_def votes_ok_def)
  define v where "v = \<lparr>bitset = (bitset (agg_strong_votes a))[i := True],
      votes_sig = sig_aggregate lib (votes_sig (agg_strong_votes a)) sg,
      processed = (processed (agg_strong_votes a))[i := True]\<rparr>"
  define a1 where "a1 = a\<lparr>agg_strong_votes := v, strong_sum := strong_sum a + weight (finalizers p ! i)\<rparr>"
  have set: "voters (bitset v) = insert i (agg_strong a)" using i vs by (simp add: v_def voters_update)
  have weight: "weight_of p (insert i (agg_strong a)) = ?w + ?S" using new by (simp add: weight_of_insert)
  note total = new_vote_total[OF ok i new]
  have sum: "unat (strong_sum a + weight (finalizers p ! i)) = ?w + ?S"
    using ok total pol by (subst unat_add_no_wrap) (simp_all add: agg_ok_def)
  have both: "unat (weak_sum a + (strong_sum a + weight (finalizers p ! i))) = ?W + (?w + ?S)"
    using ok sum total pol by (subst unat_add_no_wrap) (simp_all add: agg_ok_def)
  have max: "total_weight (finalizers p) \<le> unat (max_weak_sum a) + unat (threshold p)"
    using ok by (simp add: agg_ok_def)
  have "\<exists>st. strong_transition a1 = Some st \<and>
      state_ok st (unat (threshold p)) (unat (max_weak_sum a)) (?w + ?S) ?W"
    using ok sum both max total unfolding a1_def
    by (cases "aggregating_state a") (auto simp: agg_ok_def strong_transition_def word_le_nat_alt)
  then obtain st where st: "strong_transition a1 = Some st"
      "state_ok st (unat (threshold p)) (unat (max_weak_sum a)) (?w + ?S) ?W" by blast
  have "add_strong_vote lib i sg (weight (finalizers p ! i)) a = Some (success, a1\<lparr>aggregating_state := st\<rparr>)"
    using i vs st(1) unfolding a1_def v_def by (simp add: add_strong_vote_def votes_add_vote_def Let_def)
  moreover have "agg_ok p (a1\<lparr>aggregating_state := st\<rparr>)"
    using ok st(2) sum set weight new vs by (auto simp: agg_ok_def votes_ok_def a1_def v_def)
  ultimately show ?thesis using set by (auto simp: a1_def v_def)
qed

lemma add_weak_vote_ok:
  assumes ok: "agg_ok p a" and pol: "total_weight (finalizers p) < 2 ^ 64" and i: "i < length (finalizers p)"
    and new: "i \<notin> agg_strong a" "i \<notin> agg_weak a"
  shows "\<exists>a'. add_weak_vote lib i sg (weight (finalizers p ! i)) a = Some (success, a') \<and> agg_ok p a' \<and>
              agg_strong a' = agg_strong a \<and> agg_weak a' = insert i (agg_weak a) \<and>
              votes_sig (agg_weak_votes a') = sig_aggregate lib (votes_sig (agg_weak_votes a)) sg \<and>
              agg_strong_votes a' = agg_strong_votes a \<and> received_qc_sig a' = received_qc_sig a"
proof -
  let ?w = "unat (weight (finalizers p ! i))"
  let ?S = "weight_of p (agg_strong a)" and ?W = "weight_of p (agg_weak a)"
  have vs: "length (bitset (agg_weak_votes a)) = length (finalizers p)"
      "processed (agg_weak_votes a) = bitset (agg_weak_votes a)"
    using ok by (simp_all add: agg_ok_def votes_ok_def)
  define v where "v = \<lparr>bitset = (bitset (agg_weak_votes a))[i := True],
      votes_sig = sig_aggregate lib (votes_sig (agg_weak_votes a)) sg,
      processed = (processed (agg_weak_votes a))[i := True]\<rparr>"
  define a1 where "a1 = a\<lparr>agg_weak_votes := v, weak_sum := weak_sum a + weight (finalizers p ! i)\<rparr>"
  have set: "voters (bitset v) = insert i (agg_weak a)" using i vs by (simp add: v_def voters_update)
  have weight: "weight_of p (insert i (agg_weak a)) = ?w + ?W" using new by (simp add: weight_of_insert)
  note total = new_vote_total[OF ok i new]
  have sum: "unat (weak_sum a + weight (finalizers p ! i)) = ?w + ?W"
    using ok total pol by (subst unat_add_no_wrap) (simp_all add: agg_ok_def)
  have both: "unat (weak_sum a + weight (finalizers p ! i) + strong_sum a) = ?w + ?W + ?S"
    using ok sum total pol by (subst unat_add_no_wrap) (simp_all add: agg_ok_def)
  have st: "state_ok (weak_transition a1) (unat (threshold p)) (unat (max_weak_sum a)) ?S (?w + ?W)"
    using ok sum both unfolding a1_def
    by (cases "aggregating_state a")
       (auto simp: agg_ok_def weak_transition_def Let_def word_le_nat_alt word_less_nat_alt)
  have "add_weak_vote lib i sg (weight (finalizers p ! i)) a =
      Some (success, a1\<lparr>aggregating_state := weak_transition a1\<rparr>)"
    using i vs unfolding a1_def v_def by (simp add: add_weak_vote_def votes_add_vote_def Let_def)
  moreover have "agg_ok p (a1\<lparr>aggregating_state := weak_transition a1\<rparr>)"
    using ok st sum set weight new vs by (auto simp: agg_ok_def votes_ok_def a1_def v_def)
  ultimately show ?thesis using set by (auto simp: a1_def v_def)
qed

text \<open>
  One vote: it is recorded exactly once, in the set of its strength, unless the finalizer has already
  voted, in which case nothing changes.
\<close>

lemma add_vote_ok:
  assumes ok: "agg_ok p a" and pol: "total_weight (finalizers p) < 2 ^ 64" and i: "i < length (finalizers p)"
  shows "if i \<in> agg_strong a \<union> agg_weak a
         then add_vote lib strong i sg (weight (finalizers p ! i)) a = Some (duplicate, a)
         else \<exists>a'. add_vote lib strong i sg (weight (finalizers p ! i)) a = Some (success, a') \<and> agg_ok p a' \<and>
                   received_qc_sig a' = received_qc_sig a \<and>
                   (if strong
                    then agg_strong a' = insert i (agg_strong a) \<and> agg_weak_votes a' = agg_weak_votes a \<and>
                         votes_sig (agg_strong_votes a') = sig_aggregate lib (votes_sig (agg_strong_votes a)) sg
                    else agg_weak a' = insert i (agg_weak a) \<and> agg_strong_votes a' = agg_strong_votes a \<and>
                         votes_sig (agg_weak_votes a') = sig_aggregate lib (votes_sig (agg_weak_votes a)) sg)"
proof -
  have len: "i < length (bitset (agg_strong_votes a))" "i < length (bitset (agg_weak_votes a))"
    using ok i by (simp_all add: agg_ok_def votes_ok_def)
  show ?thesis
  proof (cases "i \<in> agg_strong a \<union> agg_weak a")
    case True
    then have "check_duplicate a i = Some duplicate"
      using len by (auto simp: check_duplicate_def voters_def)
    with True show ?thesis by (simp add: add_vote_def)
  next
    case False
    then have "check_duplicate a i = Some success"
      using len by (auto simp: check_duplicate_def voters_def)
    with False add_strong_vote_ok[OF ok pol i, of lib sg] add_weak_vote_ok[OF ok pol i, of lib sg]
    show ?thesis by (cases strong) (simp_all add: add_vote_def, blast+)
  qed
qed

lemma agg_ok_received: "agg_ok p a \<Longrightarrow> agg_ok p (a\<lparr>received_qc_sig := r\<rparr>)"
  by (simp add: agg_ok_def)

section \<open>The initial state\<close>

text \<open>The value of the 32-bit accumulator never falls below the slack of an accepted policy.\<close>

lemma accumulate_mod:
  "fold (\<lambda>f acc :: u32. ucast (scast acc + weight f :: u64)) fs acc = acc + of_nat (total_weight fs)"
proof (induction fs arbitrary: acc)
  case (Cons f fs)
  have "(ucast (scast acc + weight f :: u64) :: u32) = acc + of_nat (unat (weight f))"
  proof -
    have "(ucast (scast acc :: u64) :: u32) = acc"
      by (intro bit_word_eqI) (simp add: bit_simps)
    moreover have "(ucast (x + y) :: u32) = ucast x + ucast y" for x y :: u64
    proof -
      have "take_bit 32 (take_bit 64 a + take_bit 64 b) = take_bit 32 (a + b)" for a b :: int
        by (subst take_bit_add[symmetric]) (simp add: take_bit_add)
      then show ?thesis by transfer (simp add: take_bit_add)
    qed
    ultimately show ?thesis by simp
  qed
  with Cons show ?case by (simp add: add.assoc)
qed simp


lemma unat_scast_u32:
  "unat (scast (a :: u32) :: u64) = (if unat a < 2 ^ 31 then unat a else unat a + (2 ^ 64 - 2 ^ 32))"
proof (cases "unat a < 2 ^ 31")
  case True
  then show ?thesis by (simp add: scast_small unsigned_ucast_eq take_bit_nat_eq_self)
next
  case False
  have lt: "unat a < 2 ^ 32" using unsigned_less[where 'a = nat, of a] by simp
  have "unat a div 2 ^ 31 = 1" using False lt by (intro div_nat_eqI) simp_all
  then have "bit (unat a) 31" by (simp only: bit_iff_odd) simp
  then have msb: "bit a 31" by (simp add: bit_simps)
  have low: "\<not> bit a n" if "32 \<le> n" for n using that bit_imp_le_length[of a n] by auto
  have "scast a = (ucast a OR 0xffffffff00000000 :: u64)"
  proof (rule bit_word_eqI)
    fix n assume "n < LENGTH(64)"
    then show "bit (scast a :: u64) n = bit (ucast a OR 0xffffffff00000000 :: u64) n"
      unfolding high_mask_u64 using msb low
      by (cases "n < 31"; cases "n = 31") (auto simp: bit_simps min_def)
  qed
  also have "\<dots> = ucast a + 0xffffffff00000000"
  proof -
    have "ucast a AND 0xffffffff00000000 = (0 :: u64)"
      unfolding high_mask_u64 using low by (intro bit_word_eqI) (auto simp: bit_simps)
    then show ?thesis by (simp add: disjunctive_add_eq_or)
  qed
  also have "unat \<dots> = unat a + (2 ^ 64 - 2 ^ 32)"
    using lt by (subst unat_add_no_wrap) (simp_all add: unsigned_ucast_eq take_bit_nat_eq_self)
  finally show ?thesis using False by simp
qed

lemma max_weak_sum_ge_slack:
  assumes "policy_ok p"
  shows "total_weight (finalizers p) \<le> unat (max_weak_sum_before_weak_final p) + unat (threshold p)"
proof -
  let ?T = "total_weight (finalizers p)" and ?sum = "scast (of_nat (total_weight (finalizers p)) :: u32) :: u64"
  have T: "?T < 2 ^ 64" "?T < 2 * unat (threshold p)" using assms by (simp_all add: policy_ok_def)
  have t: "unat (of_nat ?T :: u32) = ?T mod 2 ^ 32" by (simp add: unat_of_nat)
  have max: "max_weak_sum_before_weak_final p = ?sum - threshold p"
    by (simp add: max_weak_sum_before_weak_final_def accumulate_mod Let_def)
  have "?T \<le> unat ?sum \<or> unat ?sum < unat (threshold p)"
  proof (cases "?T mod 2 ^ 32 < 2 ^ 31")
    case True
    then have "unat ?sum = ?T mod 2 ^ 32" by (simp add: unat_scast_u32 t)
    then show ?thesis using True T(2) by (cases "?T < 2 ^ 32") auto
  next
    case False
    then have "unat ?sum = ?T mod 4294967296 + 18446744069414584320" by (simp add: unat_scast_u32 t)
    moreover have "?T div 4294967296 < 4294967296" using T(1) by (simp add: less_mult_imp_div_less)
    moreover have "?T = 4294967296 * (?T div 4294967296) + ?T mod 4294967296" by simp
    ultimately have "?T \<le> unat ?sum" by linarith
    then show ?thesis ..
  qed
  moreover have "unat (?sum - threshold p) + unat (threshold p) = unat ?sum"
    if "unat (threshold p) \<le> unat ?sum" using that by (simp add: unat_sub_le word_le_nat_alt)
  moreover have "unat (?sum - threshold p) + unat (threshold p) \<ge> 2 ^ 64"
    if "unat ?sum < unat (threshold p)"
  proof (rule ccontr)
    assume "\<not> ?thesis"
    then have "unat (?sum - threshold p + threshold p) = unat (?sum - threshold p) + unat (threshold p)"
      by (intro unat_add_no_wrap) simp
    with that show False by simp
  qed
  ultimately show ?thesis unfolding max using T(1) by linarith
qed

lemma agg_ok_init:
  assumes "policy_ok p"
  shows "agg_ok p (aggregating_qc_sig_of_policy lib p)"
  using assms max_weak_sum_ge_slack[OF assms]
  by (simp add: agg_ok_def aggregating_qc_sig_of_policy_def aggregating_qc_sig_init_def votes_init_def
      votes_ok_def weight_of_def policy_ok_def)

section \<open>Signatures\<close>

text \<open>
  What the code relies on of the BLS library: \<open>signs M s\<close> says that \<open>s\<close> is the aggregate of one valid
  signature for every key and message of \<open>M\<close>. Aggregation is additive, and an aggregate over one or
  two messages passes \<^verbatim>\<open>aggregate_verify\<close> for the aggregated keys of each message.
\<close>

type_synonym signed_by = "(bls_public_key \<times> u8 list) multiset \<Rightarrow> bls_aggregate_signature \<Rightarrow> bool"

definition bls_correct :: "bls_lib \<Rightarrow> signed_by \<Rightarrow> bool" where
  "bls_correct lib signs \<longleftrightarrow>
     signs {#} (sig_default lib) \<and>
     (\<forall>k m s M t. bls_verify lib k m s \<and> signs M t \<longrightarrow> signs (add_mset (k, m) M) (sig_aggregate lib t s)) \<and>
     (\<forall>M N s t. signs M s \<and> signs N t \<longrightarrow> signs (M + N) (sig_aggregate lib s t)) \<and>
     (\<forall>ks d s. signs (mset (map (\<lambda>k. (k, d)) ks)) s \<longrightarrow>
        aggregate_verify lib [aggregate_public_keys lib ks] [d] s) \<and>
     (\<forall>ks ls d e s. signs (mset (map (\<lambda>k. (k, d)) ks) + mset (map (\<lambda>k. (k, e)) ls)) s \<longrightarrow>
        aggregate_verify lib [aggregate_public_keys lib ks, aggregate_public_keys lib ls] [d, e] s)"

definition key_msgs :: "finalizer_policy \<Rightarrow> nat set \<Rightarrow> u8 list \<Rightarrow> (bls_public_key \<times> u8 list) multiset" where
  "key_msgs p S d = image_mset (\<lambda>i. (public_key (finalizers p ! i), d)) (mset_set S)"

lemma key_msgs_insert:
  "finite S \<Longrightarrow> i \<notin> S \<Longrightarrow> key_msgs p (insert i S) d = add_mset (public_key (finalizers p ! i), d) (key_msgs p S d)"
  by (simp add: key_msgs_def)

lemma key_msgs_voted_keys:
  "length bs = length (finalizers p) \<Longrightarrow>
   mset (map (\<lambda>k. (k, d)) (voted_keys (finalizers p) bs)) = key_msgs p (voters bs) d"
  using mset_voted_keys[of bs "finalizers p"]
  by (simp add: key_msgs_def multiset.map_comp o_def)

text \<open>A certificate of one policy that passes both checks.\<close>

definition sig_valid :: "bls_lib \<Rightarrow> finalizer_policy \<Rightarrow> digest_type \<Rightarrow> u8 list \<Rightarrow> qc_sig_t \<Rightarrow> bool" where
  "sig_valid lib p sd wd q \<longleftrightarrow> verify_vote_format q p = Inr () \<and> qc_sig_verify lib q p sd wd = Inr ()"

definition agg_inv ::
    "bls_lib \<Rightarrow> signed_by \<Rightarrow> digest_type \<Rightarrow> u8 list \<Rightarrow> finalizer_policy \<Rightarrow> aggregating_qc_sig_t \<Rightarrow> bool" where
  "agg_inv lib signs sd wd p a \<longleftrightarrow>
     agg_ok p a \<and>
     signs (key_msgs p (agg_strong a) (sha256_data sd)) (votes_sig (agg_strong_votes a)) \<and>
     signs (key_msgs p (agg_weak a) wd) (votes_sig (agg_weak_votes a)) \<and>
     pred_option (sig_valid lib p sd wd) (received_qc_sig a)"

lemma agg_inv_init:
  "policy_ok p \<Longrightarrow> bls_correct lib signs \<Longrightarrow> agg_inv lib signs sd wd p (aggregating_qc_sig_of_policy lib p)"
  using agg_ok_init[of p lib]
  by (simp add: agg_inv_def bls_correct_def key_msgs_def aggregating_qc_sig_of_policy_def
      aggregating_qc_sig_init_def votes_init_def)

lemma extract_valid:
  assumes inv: "agg_inv lib signs sd wd p a" and pol: "policy_ok p" and bls: "bls_correct lib signs"
    and met: "is_quorum_met_sig a"
  shows "\<exists>q. extract_qc_sig_from_aggregating lib a = Inr q \<and> sig_valid lib p sd wd q \<and>
             (qc_sig_is_strong q \<longleftrightarrow> aggregating_state a = strong_achieved)"
proof -
  have ok: "agg_ok p a" using inv by (simp add: agg_inv_def)
  let ?s = "bitset (agg_strong_votes a)" and ?w = "bitset (agg_weak_votes a)"
  have len: "length ?s = length (finalizers p)" "length ?w = length (finalizers p)"
    using ok by (simp_all add: agg_ok_def votes_ok_def)
  have total: "total_weight (finalizers p) < 2 ^ 64" using pol by (simp add: policy_ok_def)
  obtain sw where sw: "weights (finalizers p) ?s = Some sw" "unat sw = weight_of p (agg_strong a)"
    using weights_exact[OF len(1) total] by (auto simp: weight_of_def)
  obtain ww where ww: "weights (finalizers p) ?w = Some ww" "unat ww = weight_of p (agg_weak a)"
    using weights_exact[OF len(2) total] by (auto simp: weight_of_def)
  have disj: "\<forall>i\<in>{..<length ?s}. \<not> (?s ! i \<and> ?w ! i)"
    using ok len by (auto simp: agg_ok_def voters_def)
  show ?thesis
  proof (cases "aggregating_state a = strong_achieved")
    case True
    have "threshold p \<le> sw" using ok True sw(2) by (simp add: agg_ok_def word_le_nat_alt)
    moreover have "aggregate_verify lib [aggregate_public_keys lib (voted_keys (finalizers p) ?s)]
        [sha256_data sd] (votes_sig (agg_strong_votes a))"
      using bls inv key_msgs_voted_keys[OF len(1), of "sha256_data sd"]
      unfolding bls_correct_def agg_inv_def by metis
    ultimately show ?thesis
      using True len sw(1)
      by (simp add: extract_qc_sig_from_aggregating_def sig_valid_def verify_vote_format_def
          qc_sig_verify_def qc_sig_is_strong_def)
  next
    case False
    have "unat (sw + ww) = unat sw + unat ww"
      using agg_ok_sets(4)[OF ok] sw(2) ww(2) total by (intro unat_add_no_wrap) simp
    then have "threshold p \<le> sw + ww"
      using met quorum_met_iff[OF ok] agg_ok_sets(3)[OF ok] sw(2) ww(2) by (simp add: word_le_nat_alt)
    moreover have "aggregate_verify lib
        [aggregate_public_keys lib (voted_keys (finalizers p) ?s), aggregate_public_keys lib (voted_keys (finalizers p) ?w)]
        [sha256_data sd, wd] (sig_aggregate lib (votes_sig (agg_strong_votes a)) (votes_sig (agg_weak_votes a)))"
      using bls inv key_msgs_voted_keys[OF len(1), of "sha256_data sd"] key_msgs_voted_keys[OF len(2), of wd]
      unfolding bls_correct_def agg_inv_def by metis
    ultimately show ?thesis
      using False len sw(1) ww(1) met disj
      by (simp add: extract_qc_sig_from_aggregating_def sig_valid_def verify_vote_format_def
          qc_sig_verify_def qc_sig_is_strong_def)
  qed
qed

lemma get_best_qc_sig_valid:
  assumes inv: "agg_inv lib signs sd wd p a" and pol: "policy_ok p" and bls: "bls_correct lib signs"
  shows "\<exists>r. get_best_qc_sig lib a = Inr r \<and> pred_option (sig_valid lib p sd wd) r \<and>
             (is_quorum_met_sig a \<longrightarrow> r \<noteq> None)"
proof (cases "is_quorum_met_sig a")
  case True
  with extract_valid[OF inv pol bls] inv show ?thesis
    by (cases "received_qc_sig a") (auto simp: get_best_qc_sig_def agg_inv_def)
next
  case False
  with inv show ?thesis by (simp add: get_best_qc_sig_def agg_inv_def)
qed

section \<open>Both policies\<close>

text \<open>The digest a vote signs.\<close>

definition vote_digest :: "digest_type \<Rightarrow> u8 list \<Rightarrow> vote_message \<Rightarrow> u8 list" where
  "vote_digest sd wd v = (if vote_strong v then sha256_data sd else wd)"

lemma add_policy_vote_ok:
  assumes inv: "agg_inv lib signs sd wd p a" and pol: "policy_ok p" and bls: "bls_correct lib signs"
    and ver: "verified \<Longrightarrow> bls_verify lib (finalizer_key v) (vote_digest sd wd v) (vote_sig v)"
  shows "\<exists>r auth verified' a'. add_policy_vote lib v (vote_digest sd wd v) p verified a = Some (r, auth, verified', a') \<and>
           agg_inv lib signs sd wd p a' \<and>
           (verified' \<longrightarrow> bls_verify lib (finalizer_key v) (vote_digest sd wd v) (vote_sig v))"
proof (cases "find_finalizer (finalizer_key v) (finalizers p)")
  case None
  with inv ver show ?thesis by (auto simp: add_policy_vote_def)
next
  case (Some i)
  have i: "i < length (finalizers p)" and key: "public_key (finalizers p ! i) = finalizer_key v"
    using find_finalizer_Some[OF Some] by simp_all
  have ok: "agg_ok p a" using inv by (simp add: agg_inv_def)
  have voted: "has_voted_sig a i = Some (i \<in> agg_strong a \<union> agg_weak a)"
    by (rule has_voted_sig_iff[OF ok i])
  show ?thesis
  proof (cases "i \<in> agg_strong a \<union> agg_weak a \<or>
      \<not> verified \<and> \<not> bls_verify lib (finalizer_key v) (vote_digest sd wd v) (vote_sig v)")
    case True
    with Some inv ver voted show ?thesis by (auto simp: add_policy_vote_def Let_def)
  next
    case False
    then have bv: "bls_verify lib (finalizer_key v) (vote_digest sd wd v) (vote_sig v)"
      and new: "i \<notin> agg_strong a" "i \<notin> agg_weak a" using ver by auto
    have total: "total_weight (finalizers p) < 2 ^ 64" using pol by (simp add: policy_ok_def)
    from add_vote_ok[OF ok total i, of lib "vote_strong v" "vote_sig v"] new
    obtain a' where a': "add_vote lib (vote_strong v) i (vote_sig v) (weight (finalizers p ! i)) a = Some (success, a')"
      "agg_ok p a'" "received_qc_sig a' = received_qc_sig a"
      "if vote_strong v
       then agg_strong a' = insert i (agg_strong a) \<and> agg_weak_votes a' = agg_weak_votes a \<and>
            votes_sig (agg_strong_votes a') = sig_aggregate lib (votes_sig (agg_strong_votes a)) (vote_sig v)
       else agg_weak a' = insert i (agg_weak a) \<and> agg_strong_votes a' = agg_strong_votes a \<and>
            votes_sig (agg_weak_votes a') = sig_aggregate lib (votes_sig (agg_weak_votes a)) (vote_sig v)"
      by auto
    have add: "signs (add_mset (finalizer_key v, vote_digest sd wd v) M) (sig_aggregate lib t (vote_sig v))"
      if "signs M t" for M t
      using bls bv that unfolding bls_correct_def by blast
    have "agg_inv lib signs sd wd p a'"
      using a' inv new key add
      by (cases "vote_strong v") (simp_all add: agg_inv_def key_msgs_insert vote_digest_def)
    with Some voted new False a'(1) bv show ?thesis by (auto simp: add_policy_vote_def Let_def)
  qed
qed

definition agg_qc_inv ::
    "bls_lib \<Rightarrow> signed_by \<Rightarrow> finalizer_policy \<Rightarrow> finalizer_policy option \<Rightarrow> digest_type \<Rightarrow> u8 list \<Rightarrow> aggregating_qc_t \<Rightarrow> bool" where
  "agg_qc_inv lib signs active pending sd wd agg \<longleftrightarrow>
     active_finalizer_policy agg = active \<and> pending_finalizer_policy agg = pending \<and>
     agg_inv lib signs sd wd active (active_agg agg) \<and>
     (case pending of
        None \<Rightarrow> pending_agg agg = None
      | Some p \<Rightarrow> \<exists>a. pending_agg agg = Some a \<and> agg_inv lib signs sd wd p a)"

text \<open>All that can happen to an aggregation: votes (of any content), and certificates received in blocks.\<close>

inductive agg_reachable ::
    "bls_lib \<Rightarrow> finalizer_policy \<Rightarrow> finalizer_policy option \<Rightarrow> digest_type \<Rightarrow> u8 list \<Rightarrow> aggregating_qc_t \<Rightarrow> bool"
  for lib active pending sd wd where
    init: "agg_reachable lib active pending sd wd (aggregating_qc_init lib active pending)"
  | vote: "agg_reachable lib active pending sd wd agg \<Longrightarrow>
           aggregate_vote lib v (vote_digest sd wd v) agg = Some (r, agg') \<Longrightarrow>
           agg_reachable lib active pending sd wd agg'"
  | received: "agg_reachable lib active pending sd wd agg \<Longrightarrow>
           verify_qc lib active pending q sd wd = Inr () \<Longrightarrow> set_received_qc q agg = Inr (better, agg') \<Longrightarrow>
           agg_reachable lib active pending sd wd agg'"

lemma aggregate_vote_ok:
  assumes inv: "agg_qc_inv lib signs active pending sd wd agg" and bls: "bls_correct lib signs"
    and pol: "policy_ok active" "pred_option policy_ok pending"
  shows "\<exists>r agg'. aggregate_vote lib v (vote_digest sd wd v) agg = Some (r, agg') \<and>
                  agg_qc_inv lib signs active pending sd wd agg'"
proof -
  have fields: "active_finalizer_policy agg = active" "pending_finalizer_policy agg = pending"
    and ainv: "agg_inv lib signs sd wd active (active_agg agg)"
    using inv by (simp_all add: agg_qc_inv_def)
  obtain s auth ver a where step: "add_policy_vote lib v (vote_digest sd wd v) active False (active_agg agg) = Some (s, auth, ver, a)"
    and a: "agg_inv lib signs sd wd active a"
    and ver: "ver \<Longrightarrow> bls_verify lib (finalizer_key v) (vote_digest sd wd v) (vote_sig v)"
    using add_policy_vote_ok[OF ainv pol(1) bls, of False v] by blast
  show ?thesis
  proof (cases pending)
    case None
    with inv step a fields show ?thesis by (auto simp: aggregate_vote_def agg_qc_inv_def Let_def)
  next
    case (Some p)
    then obtain pa where pa: "pending_agg agg = Some pa" "agg_inv lib signs sd wd p pa"
      using inv by (auto simp: agg_qc_inv_def)
    have "policy_ok p" using pol(2) Some by simp
    from add_policy_vote_ok[OF pa(2) this bls, of ver v] ver
    obtain s' auth' ver' a' where "add_policy_vote lib v (vote_digest sd wd v) p ver pa = Some (s', auth', ver', a')"
      "agg_inv lib signs sd wd p a'" by blast
    with Some pa step a fields show ?thesis
      by (cases "s \<noteq> success \<and> s \<noteq> unknown_public_key") (auto simp: aggregate_vote_def agg_qc_inv_def Let_def)
  qed
qed

lemma verify_qc_sig_valid:
  assumes "verify_qc lib active pending q sd wd = Inr ()"
  shows "sig_valid lib active sd wd (active_policy_sig q)"
    and "pending = Some p \<Longrightarrow> \<exists>s. pending_policy_sig q = Some s \<and> sig_valid lib p sd wd s"
  using assms by (auto simp: verify_qc_def sig_valid_def bind_res_Inr_iff eos_assert_Inr_iff split: option.splits)

lemma set_received_qc_sig_inv:
  assumes "agg_inv lib signs sd wd p a" and "sig_valid lib p sd wd q"
  shows "agg_inv lib signs sd wd p (snd (set_received_qc_sig q a))"
  using assms agg_ok_received[of p a] by (auto simp: set_received_qc_sig_def agg_inv_def)

lemma set_received_qc_inv:
  assumes inv: "agg_qc_inv lib signs active pending sd wd agg"
    and ver: "verify_qc lib active pending q sd wd = Inr ()" and step: "set_received_qc q agg = Inr (b, agg')"
  shows "agg_qc_inv lib signs active pending sd wd agg'"
proof -
  note valid = verify_qc_sig_valid[OF ver]
  have active: "agg_inv lib signs sd wd active (snd (set_received_qc_sig (active_policy_sig q) (active_agg agg)))"
    using inv by (intro set_received_qc_sig_inv valid) (simp add: agg_qc_inv_def)
  show ?thesis
  proof (cases pending)
    case None
    with inv active step show ?thesis
      by (auto simp: agg_qc_inv_def set_received_qc_def Let_def split: prod.splits)
  next
    case (Some p)
    then obtain a s where a: "pending_agg agg = Some a" "agg_inv lib signs sd wd p a"
        and s: "pending_policy_sig q = Some s" "sig_valid lib p sd wd s"
      using inv valid(2) by (auto simp: agg_qc_inv_def)
    from set_received_qc_sig_inv[OF a(2) s(2)] active inv step a(1) s(1) Some show ?thesis
      by (auto simp: agg_qc_inv_def set_received_qc_def Let_def split: prod.splits)
  qed
qed

lemma agg_reachable_inv:
  assumes "agg_reachable lib active pending sd wd agg" and "bls_correct lib signs"
    and "policy_ok active" and "pred_option policy_ok pending"
  shows "agg_qc_inv lib signs active pending sd wd agg"
  using assms
proof (induction rule: agg_reachable.induct)
  case init
  then show ?case
    by (cases pending) (auto simp: agg_qc_inv_def aggregating_qc_init_def intro: agg_inv_init)
next
  case (vote agg v r agg')
  then show ?case using aggregate_vote_ok[of lib signs active pending sd wd agg v] by auto
next
  case (received agg q better agg')
  then show ?case by (blast intro: set_received_qc_inv)
qed

section \<open>Properties\<close>

text \<open>
  C10. Vote aggregation counts exactly. In every state reachable by votes (valid, invalid, repeated or
  from unknown keys) and by certificates received in blocks, the next vote fires no assertion, and
  each policy reports a quorum exactly when the true weight of the finalizers recorded for it, each
  counted once, reaches its threshold.
\<close>

theorem vote_aggregation_exact:
  assumes "bls_correct lib signs" and "policy_ok active" and "pred_option policy_ok pending"
    and "agg_reachable lib active pending sd wd agg"
  shows "(\<exists>r agg'. aggregate_vote lib v (vote_digest sd wd v) agg = Some (r, agg')) \<and>
         (is_quorum_met_sig (active_agg agg) \<longleftrightarrow>
            unat (threshold active) \<le> weight_of active (agg_strong (active_agg agg) \<union> agg_weak (active_agg agg))) \<and>
         (\<forall>p a. pending = Some p \<and> pending_agg agg = Some a \<longrightarrow>
            (is_quorum_met_sig a \<longleftrightarrow> unat (threshold p) \<le> weight_of p (agg_strong a \<union> agg_weak a)))"
proof -
  have inv: "agg_qc_inv lib signs active pending sd wd agg"
    by (rule agg_reachable_inv[OF assms(4,1-3)])
  then have "agg_ok active (active_agg agg)"
    and "\<forall>p a. pending = Some p \<and> pending_agg agg = Some a \<longrightarrow> agg_ok p a"
    by (auto simp: agg_qc_inv_def agg_inv_def)
  with aggregate_vote_ok[OF inv assms(1-3), of v] show ?thesis
    by (blast dest: quorum_met_iff)
qed

lemma ex_bls_correct: "bls_correct ex_lib (\<lambda>_ _. True)"
  by (simp add: bls_correct_def ex_lib_def)

theorem vote_aggregation_exact_witness:
  "is_quorum_met_sig (active_agg (aggregating_qc_init ex_lib ex_policy None)) \<longleftrightarrow>
     unat (threshold ex_policy) \<le> weight_of ex_policy {}"
  using vote_aggregation_exact[OF ex_bls_correct ex_policy_ok _ agg_reachable.init[where pending = None and sd = sha256_zero and wd = "[]"]]
  by (simp add: aggregating_qc_init_def aggregating_qc_sig_of_policy_def aggregating_qc_sig_init_def votes_init_def)

text \<open>
  C11. A certificate assembled from votes verifies. With a single finalizer policy, in every reachable
  state \<^verbatim>\<open>get_best_qc\<close> raises no exception; it returns a certificate as soon as the quorum is met; and
  what it returns, be it assembled from the votes or received in a block, passes \<^verbatim>\<open>verify_qc\<close>: vote
  format, quorum and aggregated signature.
\<close>

theorem best_qc_verifies:
  assumes "bls_correct lib signs" and "policy_ok active" and "agg_reachable lib active None sd wd agg"
  shows "\<exists>r. get_best_qc lib agg bn = Inr r \<and> (is_quorum_met agg \<longrightarrow> r \<noteq> None) \<and>
             (\<forall>q. r = Some q \<longrightarrow> qc_block_num q = bn \<and> verify_qc lib active None q sd wd = Inr ())"
proof -
  have "agg_qc_inv lib signs active None sd wd agg"
    using assms by (intro agg_reachable_inv) simp_all
  then have inv: "agg_inv lib signs sd wd active (active_agg agg)" and none: "pending_agg agg = None"
    by (simp_all add: agg_qc_inv_def)
  obtain r where r: "get_best_qc_sig lib (active_agg agg) = Inr r" "pred_option (sig_valid lib active sd wd) r"
      "is_quorum_met_sig (active_agg agg) \<longrightarrow> r \<noteq> None"
    using get_best_qc_sig_valid[OF inv assms(2,1)] by blast
  then show ?thesis
    using none by (cases r) (auto simp: get_best_qc_def is_quorum_met_def verify_qc_def sig_valid_def)
qed

definition ex_vote :: "u8 \<Rightarrow> bool \<Rightarrow> vote_message" where
  "ex_vote k s = \<lparr>vote_block_id = sha256_zero, vote_strong = s, finalizer_key = public_key (ex_finalizer k 1), vote_sig = []\<rparr>"

lemmas agg_eval =
  aggregating_qc_init_def aggregating_qc_sig_of_policy_def aggregating_qc_sig_init_def votes_init_def
  aggregate_vote_def add_policy_vote_def find_finalizer_def has_voted_sig_def votes_has_voted_def add_vote_def
  check_duplicate_def add_strong_vote_def add_weak_vote_def votes_add_vote_def strong_transition_def
  weak_transition_def max_weak_sum_before_weak_final_def Let_def ex_vote_def ex_finalizer_def ex_lib_def upt_rec
  word_le_nat_alt word_less_nat_alt

theorem best_qc_verifies_witness:
  "\<exists>agg r. agg_reachable ex_lib ex_policy None sha256_zero [] agg \<and> is_quorum_met agg \<and>
           get_best_qc ex_lib agg 9 = Inr r \<and> r \<noteq> None"
proof -
  let ?a0 = "aggregating_qc_init ex_lib ex_policy None"
  obtain r1 a1 where a1: "aggregate_vote ex_lib (ex_vote 1 True) (vote_digest sha256_zero [] (ex_vote 1 True)) ?a0 = Some (r1, a1)"
    and a1': "a1 = ?a0\<lparr>active_agg := (active_agg ?a0)\<lparr>agg_strong_votes := \<lparr>bitset = [True, False, False], votes_sig = [],
        processed = [True, False, False]\<rparr>, strong_sum := 1\<rparr>\<rparr>"
    by (simp add: agg_eval ex_policy_def)
  obtain r2 a2 where a2: "aggregate_vote ex_lib (ex_vote 3 True) (vote_digest sha256_zero [] (ex_vote 3 True)) a1 = Some (r2, a2)"
    and met: "is_quorum_met a2"
    unfolding a1' by (simp add: agg_eval ex_policy_def is_quorum_met_def is_quorum_met_sig_def)
  have reach: "agg_reachable ex_lib ex_policy None sha256_zero [] a2"
    by (rule agg_reachable.vote[OF agg_reachable.vote[OF agg_reachable.init a1] a2])
  from best_qc_verifies[OF ex_bls_correct ex_policy_ok reach, of 9] met reach show ?thesis by blast
qed

end
