(* ===== verification/Block_Header_State.thy ===== *)
theory Block_Header_State
  imports Quorum_Cert
begin

text \<open>
  The Savanna block header state (block_header_state.hpp, block_header_state.cpp,
  block_header_state_utils.hpp, block_header.hpp, block_header.cpp, finality/finality_extension.hpp):
  the header and its extensions, the rounds, the promotion of proposed finalizer and proposer policies,
  the step from a block to the next one, and the retrieval of the policies that a QC has to be
  verified with.

  Hashes of structures are the record \<open>hash_lib\<close> (SHA-256 of their serialization) and the binary
  encoding of header extensions is the record \<open>ext_codec\<close>; both are arguments.
\<close>

section \<open>Headers and their extensions\<close>

record finality_extension =
  f_qc_claim :: qc_claim_t
  new_finalizer_policy_diff :: "finalizer_policy_diff option"
  new_proposer_policy_diff :: "proposer_policy_diff option"

text \<open>\<^verbatim>\<open>block_header_extension\<close>; the extension ids are 0, 1 and 2.\<close>

datatype block_header_extension =
    protocol_feature_activation "digest_type list"
  | producer_schedule_change_extension producer_authority_schedule
  | finality_ext finality_extension

type_synonym extensions_type = "(u16 \<times> u8 list) list"
type_synonym header_extension_multimap = "(u16 \<times> block_header_extension) list"

record block_header =
  hdr_timestamp :: block_timestamp_type
  producer :: account_name
  confirmed :: u16
  previous :: block_id_type
  transaction_mroot :: digest_type
  action_mroot :: digest_type
  schedule_version :: u32
  new_producers :: "(u32 \<times> (account_name \<times> public_key_type) list) option"
  header_extensions :: extensions_type

text \<open>Decoding and encoding of one extension (\<^verbatim>\<open>decompose_t::extract\<close>, \<^verbatim>\<open>fc::raw::pack\<close>).\<close>

record ext_codec =
  ext_extract :: "u16 \<Rightarrow> u8 list \<Rightarrow> block_header_extension option"
  ext_pack :: "block_header_extension \<Rightarrow> u8 list"

definition pfa_extension_id :: u16 where "pfa_extension_id = 0"
definition finality_extension_id :: u16 where "finality_extension_id = 2"

definition header_block_num :: "block_header \<Rightarrow> block_num_type" where
  "header_block_num h = num_from_id (previous h) + 1"

definition proper_svnn_schedule_version :: u32 where
  "proper_svnn_schedule_version = push_bit 31 1"

definition is_proper_svnn_header :: "block_header \<Rightarrow> bool" where
  "is_proper_svnn_header h = (schedule_version h = proper_svnn_schedule_version)"

text \<open>The loop of \<^verbatim>\<open>validate_and_extract_header_extensions\<close>; all three extensions are unique.\<close>

fun extract_loop ::
    "ext_codec \<Rightarrow> bool \<Rightarrow> u16 \<Rightarrow> extensions_type \<Rightarrow> header_extension_multimap \<Rightarrow> header_extension_multimap res" where
  "extract_loop cod is_first lower [] results = Inr results"
| "extract_loop cod is_first lower ((eid, bytes) # es) results =
     bind_res (eos_assert (eid \<ge> lower) invalid_block_header_extension) (\<lambda>_.
     case ext_extract cod eid bytes of
       None \<Rightarrow> Inl invalid_block_header_extension
     | Some e \<Rightarrow>
         bind_res (eos_assert (is_first \<or> eid > lower) invalid_block_header_extension) (\<lambda>_.
         extract_loop cod False eid es (results @ [(eid, e)])))"

definition validate_and_extract_header_extensions :: "ext_codec \<Rightarrow> block_header \<Rightarrow> header_extension_multimap res" where
  "validate_and_extract_header_extensions cod h = extract_loop cod True 0 (header_extensions h) []"

text \<open>\<^verbatim>\<open>emplace_extension\<close> inserts after the extensions of smaller or equal id.\<close>

fun emplace_extension :: "extensions_type \<Rightarrow> u16 \<Rightarrow> u8 list \<Rightarrow> extensions_type" where
  "emplace_extension [] eid bytes = [(eid, bytes)]"
| "emplace_extension (x # xs) eid bytes =
     (if eid < fst x then (eid, bytes) # x # xs else x # emplace_extension xs eid bytes)"

section \<open>Rounds\<close>

definition producer_repetitions_u32 :: u32 where
  "producer_repetitions_u32 = 12"

definition get_current_round_start_slot :: "block_timestamp_type \<Rightarrow> u32" where
  "get_current_round_start_slot t = t - (t mod producer_repetitions_u32)"

definition in_same_round :: "block_timestamp_type \<Rightarrow> block_timestamp_type \<Rightarrow> bool" where
  "in_same_round next_ts curr_ts = (next_ts < get_current_round_start_slot curr_ts + producer_repetitions_u32)"

definition get_prior_round_start_slot :: "block_timestamp_type \<Rightarrow> u32 option" where
  "get_prior_round_start_slot t =
     (if t < producer_repetitions_u32 then None
      else Some (get_current_round_start_slot t - producer_repetitions_u32))"

definition first_block_of_round :: "block_timestamp_type \<Rightarrow> block_timestamp_type \<Rightarrow> bool option" where
  "first_block_of_round curr_block_time parent_block_time = do {
     assert_opt (parent_block_time < curr_block_time);
     Some (parent_block_time < get_current_round_start_slot curr_block_time)
   }"

section \<open>The state\<close>

text \<open>
  The code compares \<^verbatim>\<open>proposer_policy_ptr\<close>s by address, so a shared pointer is an address with the
  object it points to.
\<close>

datatype 'a shared_ptr = Ptr (addr: nat) (deref: 'a)

record block_header_state =
  bhs_block_id :: block_id_type
  header :: block_header
  activated_protocol_features :: "digest_type set"
  core :: finality_core
  active_policy :: finalizer_policy
  active_proposer_policy :: "proposer_policy shared_ptr"
  latest_proposed_proposer_policy :: "proposer_policy shared_ptr option"
  latest_pending_proposer_policy :: "proposer_policy shared_ptr option"
  proposed_finalizer_policies :: "(block_num_type \<times> finalizer_policy) list"
  pending_policy :: "(block_num_type \<times> finalizer_policy) option"
  latest_qc_claim_block_active_finalizer_policy :: "finalizer_policy option"
  finalizer_policy_generation :: u32
  last_pending_finalizer_policy_digest :: digest_type
  last_pending_finalizer_policy_start_timestamp :: block_timestamp_type
  header_exts :: header_extension_multimap

record level_3_commitments_t =
  l3_reversible_blocks_mroot :: digest_type
  l3_latest_qc_claim_block_num :: block_num_type
  l3_latest_qc_claim_finality_digest :: digest_type
  l3_latest_qc_claim_timestamp :: block_timestamp_type
  l3_timestamp :: block_timestamp_type
  l3_base_digest :: digest_type

record level_2_commitments_t =
  l2_last_pending_fin_pol_digest :: digest_type
  l2_last_pending_fin_pol_start_timestamp :: block_timestamp_type
  l2_l3_commitments_digest :: digest_type

record finality_digest_data_v1 =
  fd_major_version :: u32
  fd_minor_version :: u32
  fd_active_finalizer_policy_generation :: u32
  fd_last_pending_finalizer_policy_generation :: u32
  fd_finality_tree_digest :: digest_type
  fd_l2_commitments_digest :: digest_type

text \<open>
  What \<^verbatim>\<open>compute_base_digest\<close> feeds to the encoder, in its order; of a reference, \<^verbatim>\<open>pack_for_digest\<close> omits
  the policy generations.
\<close>

record base_digest_data =
  bd_header :: block_header
  bd_links :: "qc_link list"
  bd_refs :: "(block_id_type \<times> block_timestamp_type \<times> digest_type) list"
  bd_genesis_timestamp :: block_timestamp_type
  bd_proposed_finalizer_policies :: "(block_num_type \<times> finalizer_policy) list"
  bd_pending_finalizer_policy :: "(block_num_type \<times> finalizer_policy) option"
  bd_active_proposer_policy :: proposer_policy
  bd_latest_proposed_proposer_policy :: "proposer_policy option"
  bd_latest_pending_proposer_policy :: "proposer_policy option"
  bd_activated_protocol_features :: "digest_type set"

text \<open>\<^verbatim>\<open>fc::sha256::hash\<close> at the types it is used with; \<open>hash_header\<close> is \<^verbatim>\<open>block_header::digest\<close>.\<close>

record hash_lib =
  hash_combine :: "digest_type \<Rightarrow> digest_type \<Rightarrow> digest_type"
  hash_ref :: "block_ref_digest_data \<Rightarrow> digest_type"
  hash_l3 :: "level_3_commitments_t \<Rightarrow> digest_type"
  hash_l2 :: "level_2_commitments_t \<Rightarrow> digest_type"
  hash_fd :: "finality_digest_data_v1 \<Rightarrow> digest_type"
  hash_policy :: "finalizer_policy \<Rightarrow> digest_type"
  hash_base :: "base_digest_data \<Rightarrow> digest_type"
  hash_header :: "block_header \<Rightarrow> digest_type"

definition bhs_timestamp :: "block_header_state \<Rightarrow> block_timestamp_type" where
  "bhs_timestamp s = hdr_timestamp (header s)"

definition bhs_block_num :: "block_header_state \<Rightarrow> block_num_type" where
  "bhs_block_num s = num_from_id (previous (header s)) + 1"

definition finality_mroot :: "block_header_state \<Rightarrow> digest_type" where
  "finality_mroot s = (if is_proper_svnn_header (header s) then action_mroot (header s) else sha256_zero)"

definition is_savanna_genesis_block :: "block_header_state \<Rightarrow> bool option" where
  "is_savanna_genesis_block s = is_genesis_block_num (core s) (bhs_block_num s)"

definition is_needed :: "block_header_state \<Rightarrow> qc_claim_t \<Rightarrow> bool option" where
  "is_needed s qc_claim = do { latest \<leftarrow> latest_qc_claim (core s); Some (\<not> qc_claim_le qc_claim latest) }"

definition get_last_pending_finalizer_policy :: "block_header_state \<Rightarrow> finalizer_policy" where
  "get_last_pending_finalizer_policy s =
     (case pending_policy s of Some (_, p) \<Rightarrow> p | None \<Rightarrow> active_policy s)"

definition get_last_proposed_finalizer_policy :: "block_header_state \<Rightarrow> finalizer_policy" where
  "get_last_proposed_finalizer_policy s =
     (if proposed_finalizer_policies s \<noteq> [] then snd (last (proposed_finalizer_policies s))
      else case pending_policy s of Some (_, p) \<Rightarrow> p | None \<Rightarrow> active_policy s)"

definition get_last_proposed_proposer_policy :: "block_header_state \<Rightarrow> proposer_policy" where
  "get_last_proposed_proposer_policy s =
     (case latest_proposed_proposer_policy s of
        Some p \<Rightarrow> deref p
      | None \<Rightarrow> (case latest_pending_proposer_policy s of
                  Some p \<Rightarrow> deref p | None \<Rightarrow> deref (active_proposer_policy s)))"

definition pending_producers :: "block_header_state \<Rightarrow> producer_authority_schedule option" where
  "pending_producers s = map_option (proposer_schedule \<circ> deref) (latest_pending_proposer_policy s)"

definition compute_base_digest :: "hash_lib \<Rightarrow> block_header_state \<Rightarrow> digest_type" where
  "compute_base_digest hl s = hash_base hl
     \<lparr>bd_header = header s, bd_links = links (core s),
      bd_refs = map (\<lambda>r. (block_id r, timestamp r, finality_digest r)) (refs (core s)),
      bd_genesis_timestamp = genesis_timestamp (core s),
      bd_proposed_finalizer_policies = proposed_finalizer_policies s, bd_pending_finalizer_policy = pending_policy s,
      bd_active_proposer_policy = deref (active_proposer_policy s),
      bd_latest_proposed_proposer_policy = map_option deref (latest_proposed_proposer_policy s),
      bd_latest_pending_proposer_policy = map_option deref (latest_pending_proposer_policy s),
      bd_activated_protocol_features = activated_protocol_features s\<rparr>"

definition compute_finality_digest :: "hash_lib \<Rightarrow> block_header_state \<Rightarrow> digest_type option" where
  "compute_finality_digest hl s = do {
     claim \<leftarrow> latest_qc_claim (core s);
     (fdigest, ts) \<leftarrow> (if is_genesis_core (core s) then Some (sha256_zero, 0)
                      else do { r \<leftarrow> get_block_reference (core s) (block_num claim);
                                Some (finality_digest r, timestamp r) });
     mroot \<leftarrow> get_reversible_blocks_mroot (hash_combine hl) (hash_ref hl) (core s);
     let l3 = \<lparr>l3_reversible_blocks_mroot = mroot, l3_latest_qc_claim_block_num = block_num claim,
               l3_latest_qc_claim_finality_digest = fdigest, l3_latest_qc_claim_timestamp = ts,
               l3_timestamp = bhs_timestamp s, l3_base_digest = compute_base_digest hl s\<rparr>;
     let l2 = \<lparr>l2_last_pending_fin_pol_digest = last_pending_finalizer_policy_digest s,
               l2_last_pending_fin_pol_start_timestamp = last_pending_finalizer_policy_start_timestamp s,
               l2_l3_commitments_digest = hash_l3 hl l3\<rparr>;
     Some (hash_fd hl
       \<lparr>fd_major_version = 1, fd_minor_version = 0,
        fd_active_finalizer_policy_generation = generation (active_policy s),
        fd_last_pending_finalizer_policy_generation = generation (get_last_pending_finalizer_policy s),
        fd_finality_tree_digest = finality_mroot s, fd_l2_commitments_digest = hash_l2 hl l2\<rparr>)
   }"

definition bhs_make_block_ref :: "hash_lib \<Rightarrow> block_header_state \<Rightarrow> block_ref option" where
  "bhs_make_block_ref hl s = do {
     d \<leftarrow> compute_finality_digest hl s;
     Some \<lparr>block_id = bhs_block_id s, timestamp = bhs_timestamp s, finality_digest = d,
           active_policy_generation = generation (active_policy s),
           pending_policy_generation = (case pending_policy s of Some (_, p) \<Rightarrow> generation p | None \<Rightarrow> 0)\<rparr>
   }"

section \<open>Proposer policies\<close>

definition get_active_proposer_policy_for_block_at ::
    "block_header_state \<Rightarrow> block_timestamp_type \<Rightarrow> proposer_policy shared_ptr option" where
  "get_active_proposer_policy_for_block_at s next_ts = do {
     assert_opt (next_ts > bhs_timestamp s);
     if in_same_round next_ts (bhs_timestamp s) then Some (active_proposer_policy s)
     else if latest_proposed_proposer_policy s = None \<and> latest_pending_proposer_policy s = None
     then Some (active_proposer_policy s)
     else do {
       proposed_ready \<leftarrow> (case (latest_proposed_proposer_policy s, get_prior_round_start_slot (bhs_timestamp s)) of
           (Some p, Some prior_round_start_slot) \<Rightarrow>
             if proposal_time (deref p) < prior_round_start_slot then do {
               final_ts \<leftarrow> last_final_block_timestamp (core s);
               Some (proposal_time (deref p) \<le> final_ts)
             } else Some False
         | _ \<Rightarrow> Some False);
       if proposed_ready then latest_proposed_proposer_policy s
       else case latest_pending_proposer_policy s of
         Some q \<Rightarrow> do {
           final_ts \<leftarrow> last_final_block_timestamp (core s);
           Some (if proposal_time (deref q) \<le> final_ts then q else active_proposer_policy s)
         }
       | None \<Rightarrow> Some (active_proposer_policy s)
     }
   }"

definition get_producer_for_block_at ::
    "block_header_state \<Rightarrow> block_timestamp_type \<Rightarrow> producer_authority option" where
  "get_producer_for_block_at s next_ts = do {
     assert_opt (next_ts > bhs_timestamp s);
     p \<leftarrow> get_active_proposer_policy_for_block_at s next_ts;
     get_scheduled_producer (proposer_schedule (deref p)) next_ts
   }"

text \<open>\<^verbatim>\<open>a && b == a\<close> on shared pointers.\<close>

definition same_ptr :: "'p shared_ptr \<Rightarrow> 'p shared_ptr option \<Rightarrow> bool" where
  "same_ptr p q = (case q of None \<Rightarrow> False | Some r \<Rightarrow> addr p = addr r)"

definition activate_proposer_policy :: "proposer_policy shared_ptr \<Rightarrow> block_header_state \<Rightarrow> block_header_state" where
  "activate_proposer_policy new_policy nxt =
     (if addr new_policy \<noteq> addr (active_proposer_policy nxt) then
        (if same_ptr new_policy (latest_proposed_proposer_policy nxt) then
           nxt\<lparr>active_proposer_policy := new_policy, latest_proposed_proposer_policy := None,
               latest_pending_proposer_policy := None\<rparr>
         else if same_ptr new_policy (latest_pending_proposer_policy nxt) then
           nxt\<lparr>active_proposer_policy := new_policy, latest_pending_proposer_policy := None\<rparr>
         else nxt\<lparr>active_proposer_policy := new_policy\<rparr>)
      else nxt)"

definition pend_proposer_policy :: "bool \<Rightarrow> block_header_state \<Rightarrow> block_header_state" where
  "pend_proposer_policy is_first nxt =
     (if is_first \<and> latest_proposed_proposer_policy nxt \<noteq> None \<and> latest_pending_proposer_policy nxt = None
      then nxt\<lparr>latest_pending_proposer_policy := latest_proposed_proposer_policy nxt,
               latest_proposed_proposer_policy := None\<rparr>
      else nxt)"

definition evaluate_proposer_policies_for_promotion ::
    "block_header_state \<Rightarrow> block_header_state \<Rightarrow> block_header_state option" where
  "evaluate_proposer_policies_for_promotion prev nxt = do {
     assert_opt (bhs_timestamp nxt > bhs_timestamp prev);
     new_policy \<leftarrow> get_active_proposer_policy_for_block_at prev (bhs_timestamp nxt);
     is_first \<leftarrow> first_block_of_round (bhs_timestamp nxt) (bhs_timestamp prev);
     Some (pend_proposer_policy is_first (activate_proposer_policy new_policy nxt))
   }"

section \<open>Finalizer policies\<close>

text \<open>
  \<^verbatim>\<open>evaluate_finalizer_policies_for_promotion\<close>: \<open>lib\<close> is the last final block number of the next core. The
  proposed policies are split at the first one whose block is still reversible.
\<close>

definition evaluate_finalizer_policies_for_promotion ::
    "block_header_state \<Rightarrow> block_header_state \<Rightarrow> block_header_state option" where
  "evaluate_finalizer_policies_for_promotion prev nxt =
     (if pending_policy prev = None \<and> proposed_finalizer_policies prev = [] then Some nxt
      else do {
        lib \<leftarrow> last_final_block_num (core nxt);
        let (n1, pending_slot_open) =
          (case pending_policy prev of
             None \<Rightarrow> (nxt, True)
           | Some (bn, p) \<Rightarrow> if bn \<le> lib then (nxt\<lparr>active_policy := p\<rparr>, True)
                            else (nxt\<lparr>pending_policy := Some (bn, p)\<rparr>, False));
        let prev_proposed = proposed_finalizer_policies prev;
        if prev_proposed = [] then Some n1
        else do {
          let irreversible = takeWhile (\<lambda>p. fst p \<le> lib) prev_proposed;
          let reversible = dropWhile (\<lambda>p. fst p \<le> lib) prev_proposed;
          if irreversible \<noteq> [] then
            (let target = last irreversible;
                 n2 = (if pending_slot_open
                       then n1\<lparr>pending_policy := Some (bhs_block_num n1, snd target),
                               last_pending_finalizer_policy_start_timestamp := bhs_timestamp n1\<rparr>
                       else n1\<lparr>proposed_finalizer_policies := proposed_finalizer_policies n1 @ [target]\<rparr>)
             in Some (n2\<lparr>proposed_finalizer_policies := proposed_finalizer_policies n2 @ reversible\<rparr>))
          else Some (n1\<lparr>proposed_finalizer_policies := prev_proposed\<rparr>)
        }
      })"

record finalizer_policies_t =
  fp_finality_digest :: digest_type
  fp_active :: finalizer_policy
  fp_pending :: "finalizer_policy option"

text \<open>
  \<^verbatim>\<open>get_finalizer_policies\<close>: an assertion that fails is also an exception in a release build here, so
  the two are the same branch.
\<close>

definition get_finalizer_policies :: "block_header_state \<Rightarrow> block_ref \<Rightarrow> finalizer_policies_t res" where
  "get_finalizer_policies s ref =
     bind_res (if links (core s) = [] then Inr ()
               else asserted (do {
                 claim \<leftarrow> latest_qc_claim (core s);
                 cur \<leftarrow> current_block_num (core s);
                 assert_opt (block_num claim \<le> block_ref_block_num ref \<and> block_ref_block_num ref \<le> cur)
               })) (\<lambda>_.
     bind_res (asserted (assert_opt (active_policy_generation ref \<noteq> 0))) (\<lambda>_.
     bind_res (if generation (active_policy s) = active_policy_generation ref then Inr (active_policy s)
               else bind_res (asserted (assert_opt (case pending_policy s of None \<Rightarrow> True
                              | Some (_, p) \<Rightarrow> generation p > active_policy_generation ref))) (\<lambda>_.
                    case latest_qc_claim_block_active_finalizer_policy s of
                      None \<Rightarrow> Inl chain_exception
                    | Some p \<Rightarrow> bind_res (eos_assert (generation p = active_policy_generation ref) chain_exception) (\<lambda>_. Inr p)))
       (\<lambda>active.
     bind_res (if pending_policy_generation ref = 0 then Inr None
               else if pending_policy_generation ref = generation (active_policy s) then Inr (Some (active_policy s))
               else (case pending_policy s of
                       None \<Rightarrow> Inl chain_exception
                     | Some (_, p) \<Rightarrow>
                         bind_res (eos_assert (generation p = pending_policy_generation ref) chain_exception) (\<lambda>_. Inr (Some p))))
       (\<lambda>pending.
     Inr \<lparr>fp_finality_digest = finality_digest ref, fp_active = active, fp_pending = pending\<rparr>))))"

definition get_active_finalizer_policy_generation :: "block_header_state \<Rightarrow> block_num_type \<Rightarrow> u32 option" where
  "get_active_finalizer_policy_generation s num = do {
     _ \<leftarrow> (if links (core s) = [] then Some ()
          else do { lf \<leftarrow> last_final_block_num (core s); cur \<leftarrow> current_block_num (core s);
                    assert_opt (lf \<le> num \<and> num \<le> cur) });
     if num = bhs_block_num s then Some (generation (active_policy s))
     else do { r \<leftarrow> get_block_reference (core s) num; Some (active_policy_generation r) }
   }"

section \<open>The step to the next header state\<close>

text \<open>The constructor of \<^verbatim>\<open>protocol_feature_activation_set\<close>, which requires new features (protocol\_feature\_activation.cpp).\<close>

definition add_protocol_features :: "digest_type set \<Rightarrow> digest_type list \<Rightarrow> digest_type set res" where
  "add_protocol_features orig additional =
     bind_res (eos_assert (distinct additional \<and> orig \<inter> set additional = {}) invalid_block_header_extension) (\<lambda>_.
     Inr (orig \<union> set additional))"

text \<open>
  \<^verbatim>\<open>finish_next\<close>, one definition for each of its sections; \<open>fresh\<close> is the address of the policy object that
  may be allocated. The header fields of \<open>nxt\<close> are already set, and its policy members are the default ones
  (none proposed, none pending).
\<close>

definition finish_proposer_policy ::
    "nat \<Rightarrow> block_header_state \<Rightarrow> block_header_state \<Rightarrow> finality_extension \<Rightarrow> block_header_state res" where
  "finish_proposer_policy fresh prev nxt f_ext =
     bind_res (asserted (evaluate_proposer_policies_for_promotion prev
       (nxt\<lparr>active_proposer_policy := active_proposer_policy prev,
            latest_proposed_proposer_policy := latest_proposed_proposer_policy prev,
            latest_pending_proposer_policy := latest_pending_proposer_policy prev\<rparr>))) (\<lambda>n.
     case new_proposer_policy_diff f_ext of
       None \<Rightarrow> Inr n
     | Some d \<Rightarrow> bind_res (apply_proposer_diff (get_last_proposed_proposer_policy prev) d) (\<lambda>p.
                 Inr (n\<lparr>latest_proposed_proposer_policy := Some (Ptr fresh p)\<rparr>)))"

definition finish_finality_core ::
    "hash_lib \<Rightarrow> block_header_state \<Rightarrow> block_header_state \<Rightarrow> finality_extension \<Rightarrow> block_header_state res" where
  "finish_finality_core hl prev nxt f_ext =
     bind_res (asserted (bhs_make_block_ref hl prev)) (\<lambda>parent_block.
     bind_res (asserted (next_core (core prev) parent_block (f_qc_claim f_ext))) (\<lambda>c.
     Inr (nxt\<lparr>core := c\<rparr>)))"

definition finish_finalizer_policy ::
    "hash_lib \<Rightarrow> block_header_state \<Rightarrow> block_header_state \<Rightarrow> finality_extension \<Rightarrow> block_header_state res" where
  "finish_finalizer_policy hl prev nxt f_ext =
     bind_res (asserted (evaluate_finalizer_policies_for_promotion prev
       (nxt\<lparr>active_policy := active_policy prev,
            last_pending_finalizer_policy_start_timestamp := last_pending_finalizer_policy_start_timestamp prev\<rparr>))) (\<lambda>n.
     let n' = n\<lparr>last_pending_finalizer_policy_digest := hash_policy hl (get_last_pending_finalizer_policy n)\<rparr> in
     case new_finalizer_policy_diff f_ext of
       None \<Rightarrow> Inr (n'\<lparr>finalizer_policy_generation := finalizer_policy_generation prev\<rparr>)
     | Some d \<Rightarrow>
         bind_res (apply_finalizer_diff (get_last_proposed_finalizer_policy prev) d) (\<lambda>p.
         bind_res (asserted (assert_opt (generation p > finalizer_policy_generation prev))) (\<lambda>_.
         Inr (n'\<lparr>finalizer_policy_generation := generation p,
                 proposed_finalizer_policies := proposed_finalizer_policies n' @ [(bhs_block_num n', p)]\<rparr>))))"

definition finish_qc_claim_policy :: "block_header_state \<Rightarrow> block_header_state \<Rightarrow> block_header_state res" where
  "finish_qc_claim_policy prev nxt =
     bind_res (asserted (latest_qc_claim (core nxt))) (\<lambda>claim.
     bind_res (asserted (get_active_finalizer_policy_generation prev (block_num claim))) (\<lambda>gen.
     if gen \<noteq> generation (active_policy nxt) then
       bind_res (asserted (get_block_reference (core nxt) (block_num claim))) (\<lambda>ref.
       bind_res (get_finalizer_policies prev ref) (\<lambda>ps.
       Inr (nxt\<lparr>latest_qc_claim_block_active_finalizer_policy := Some (fp_active ps)\<rparr>)))
     else Inr (nxt\<lparr>latest_qc_claim_block_active_finalizer_policy := None\<rparr>)))"

definition finish_next ::
    "hash_lib \<Rightarrow> nat \<Rightarrow> block_header_state \<Rightarrow> block_header_state \<Rightarrow> digest_type list \<Rightarrow> finality_extension \<Rightarrow> block_header_state res" where
  "finish_next hl fresh prev nxt new_features f_ext =
     bind_res (if new_features \<noteq> [] then add_protocol_features (activated_protocol_features prev) new_features
               else Inr (activated_protocol_features prev)) (\<lambda>features.
     bind_res (finish_proposer_policy fresh prev (nxt\<lparr>activated_protocol_features := features\<rparr>) f_ext) (\<lambda>n1.
     bind_res (finish_finality_core hl prev n1 f_ext) (\<lambda>n2.
     bind_res (finish_finalizer_policy hl prev n2 f_ext) (\<lambda>n3.
     bind_res (finish_qc_claim_policy prev n3) (\<lambda>n4.
     Inr (n4\<lparr>bhs_block_id := calculate_id (hash_header hl (header n4)) (header_block_num (header n4))\<rparr>))))))"

text \<open>A default-constructed next header state; what \<^verbatim>\<open>finish_next\<close> overwrites is left as in \<open>prev\<close>.\<close>

definition new_header_state :: "block_header_state \<Rightarrow> block_header \<Rightarrow> header_extension_multimap \<Rightarrow> block_header_state" where
  "new_header_state prev h exts =
     prev\<lparr>header := h, header_exts := exts, proposed_finalizer_policies := [], pending_policy := None\<rparr>"

record block_header_state_input =
  parent_id :: block_id_type
  parent_timestamp :: block_timestamp_type
  in_timestamp :: block_timestamp_type
  in_producer :: account_name
  new_protocol_feature_activations :: "digest_type list"
  in_transaction_mroot :: digest_type
  new_proposer_policy :: "proposer_policy option"
  new_finalizer_policy :: "finalizer_policy option"
  most_recent_ancestor_with_qc :: qc_claim_t
  finality_mroot_claim :: digest_type

text \<open>
  \<^verbatim>\<open>block_header_state::next(block_header_state_input&)\<close>, assembling a block: the extensions that it adds
  to the header, the same extensions in \<^verbatim>\<open>header_exts\<close>, and the header.
\<close>

definition assembled_extensions :: "ext_codec \<Rightarrow> digest_type list \<Rightarrow> finality_extension \<Rightarrow> extensions_type" where
  "assembled_extensions cod features f_ext =
     (let exts = emplace_extension [] finality_extension_id (ext_pack cod (finality_ext f_ext)) in
      if features \<noteq> []
      then emplace_extension exts pfa_extension_id (ext_pack cod (protocol_feature_activation features))
      else exts)"

definition assembled_header_exts :: "digest_type list \<Rightarrow> finality_extension \<Rightarrow> header_extension_multimap" where
  "assembled_header_exts features f_ext =
     (if features \<noteq> [] then [(pfa_extension_id, protocol_feature_activation features)] else []) @
     [(finality_extension_id, finality_ext f_ext)]"

definition assembled_header :: "block_header_state_input \<Rightarrow> extensions_type \<Rightarrow> block_header" where
  "assembled_header inp exts =
     \<lparr>hdr_timestamp = in_timestamp inp, producer = in_producer inp, confirmed = 0, previous = parent_id inp,
      transaction_mroot = in_transaction_mroot inp, action_mroot = finality_mroot_claim inp,
      schedule_version = proper_svnn_schedule_version, new_producers = None, header_extensions = exts\<rparr>"

definition assembled_finality_extension ::
    "block_header_state \<Rightarrow> block_header_state_input \<Rightarrow> finality_extension res" where
  "assembled_finality_extension s inp =
     bind_res (case new_finalizer_policy inp of None \<Rightarrow> Inr None
               | Some p \<Rightarrow> bind_res (create_finalizer_diff (get_last_proposed_finalizer_policy s) p) (\<lambda>d. Inr (Some d))) (\<lambda>fdiff.
     bind_res (case new_proposer_policy inp of None \<Rightarrow> Inr None
               | Some p \<Rightarrow> bind_res (create_proposer_diff (get_last_proposed_proposer_policy s) p) (\<lambda>d. Inr (Some d))) (\<lambda>pdiff.
     Inr \<lparr>f_qc_claim = most_recent_ancestor_with_qc inp, new_finalizer_policy_diff = fdiff,
          new_proposer_policy_diff = pdiff\<rparr>))"

definition next_assembled ::
    "hash_lib \<Rightarrow> ext_codec \<Rightarrow> nat \<Rightarrow> block_header_state \<Rightarrow> block_header_state_input \<Rightarrow> block_header_state res" where
  "next_assembled hl cod fresh s inp =
     bind_res (assembled_finality_extension s inp) (\<lambda>f_ext.
     let features = new_protocol_feature_activations inp;
         h = assembled_header inp (assembled_extensions cod features f_ext)
     in finish_next hl fresh s (new_header_state s h (assembled_header_exts features f_ext)) features f_ext)"

text \<open>\<^verbatim>\<open>exts.find(id)\<close>.\<close>

definition find_pfa :: "header_extension_multimap \<Rightarrow> digest_type list option" where
  "find_pfa exts = (case map_of exts pfa_extension_id of Some (protocol_feature_activation fs) \<Rightarrow> Some fs | _ \<Rightarrow> None)"

definition find_finality_ext :: "header_extension_multimap \<Rightarrow> finality_extension option" where
  "find_finality_ext exts = (case map_of exts finality_extension_id of Some (finality_ext f) \<Rightarrow> Some f | _ \<Rightarrow> None)"

text \<open>\<^verbatim>\<open>block_header_state::next(const signed_block_header&, validator_t&)\<close>: a received block.\<close>

definition next_received ::
    "hash_lib \<Rightarrow> ext_codec \<Rightarrow> (block_timestamp_type \<Rightarrow> digest_type set \<Rightarrow> digest_type list \<Rightarrow> unit res) \<Rightarrow> nat \<Rightarrow>
     block_header_state \<Rightarrow> block_header \<Rightarrow> block_header_state res" where
  "next_received hl cod validator fresh s h =
     bind_res (asserted (get_producer_for_block_at s (hdr_timestamp h))) (\<lambda>pr.
     bind_res (eos_assert (previous h = bhs_block_id s) unlinkable_block_exception) (\<lambda>_.
     bind_res (eos_assert (producer h = producer_name pr) wrong_producer) (\<lambda>_.
     bind_res (eos_assert (new_producers h = None) producer_schedule_exception) (\<lambda>_.
     bind_res (validate_and_extract_header_extensions cod h) (\<lambda>exts.
     bind_res (case find_pfa exts of
         None \<Rightarrow> Inr []
       | Some fs \<Rightarrow> bind_res (validator (bhs_timestamp s) (activated_protocol_features s) fs) (\<lambda>_. Inr fs)) (\<lambda>features.
     case find_finality_ext exts of
       None \<Rightarrow> Inl invalid_block_header_extension
     | Some f_ext \<Rightarrow>
         bind_res (if is_proper_svnn_header h then
                     bind_res (asserted (do {
                       md \<leftarrow> next_metadata (core s) (f_qc_claim f_ext);
                       is_genesis_block_num (core s) (md_latest_qc_claim_block_num md)
                     })) (\<lambda>no_finality_tree_associated.
                     eos_assert (no_finality_tree_associated = sha256_empty (action_mroot h)) block_validate_exception)
                   else Inr ()) (\<lambda>_.
         finish_next hl fresh s (new_header_state s h exts) features f_ext)))))))"

end
