(* ===== verification/Policy_History.thy ===== *)
theory Policy_History
  imports Block_Header_State "HOL-Library.Sublist"
begin

text \<open>
  Properties of the block header state over the chain of blocks: the life of a finalizer policy from
  its proposal to its activation, and that \<^verbatim>\<open>get_finalizer_policies\<close> recovers, from the state of a
  block, the policies that an ancestor had (the argument of the comment ``See full explanation in
  issue #694'' of block\_header\_state.cpp).
\<close>

section \<open>What one step does\<close>

text \<open>\<open>h_step\<close>: the block \<open>nxt\<close> follows \<open>prev\<close>; both forms of \<^verbatim>\<open>next\<close> are such steps.\<close>

definition h_step :: "hash_lib \<Rightarrow> block_header_state \<Rightarrow> block_header_state \<Rightarrow> bool" where
  "h_step hl prev nxt \<longleftrightarrow>
     (\<exists>fresh h exts features f_ext. previous h = bhs_block_id prev \<and>
        finish_next hl fresh prev (new_header_state prev h exts) features f_ext = Inr nxt)"

lemma next_received_step: "next_received hl cod v fresh s h = Inr s' \<Longrightarrow> h_step hl s s'"
  unfolding h_step_def next_received_def
  by (clarsimp simp: res_simps split: option.splits) blast

lemma next_assembled_step:
  "next_assembled hl cod fresh s inp = Inr s' \<Longrightarrow> parent_id inp = bhs_block_id s \<Longrightarrow> h_step hl s s'"
  unfolding h_step_def next_assembled_def Let_def
  by (clarsimp simp: res_simps) (metis assembled_header_def block_header.select_convs(4))

text \<open>The policy that the promotion makes active, and the pending and proposed policies it leaves.\<close>

definition promoted_active :: "block_num_type \<Rightarrow> block_header_state \<Rightarrow> finalizer_policy" where
  "promoted_active lib s = (case pending_policy s of Some (b, p) \<Rightarrow> if b \<le> lib then p else active_policy s | None \<Rightarrow> active_policy s)"

definition kept_pending :: "block_num_type \<Rightarrow> block_header_state \<Rightarrow> (block_num_type \<times> finalizer_policy) option" where
  "kept_pending lib s = (case pending_policy s of Some (b, p) \<Rightarrow> if b \<le> lib then None else Some (b, p) | None \<Rightarrow> None)"

definition ripe :: "block_num_type \<Rightarrow> block_header_state \<Rightarrow> (block_num_type \<times> finalizer_policy) list" where
  "ripe lib s = takeWhile (\<lambda>p. fst p \<le> lib) (proposed_finalizer_policies s)"

definition unripe :: "block_num_type \<Rightarrow> block_header_state \<Rightarrow> (block_num_type \<times> finalizer_policy) list" where
  "unripe lib s = dropWhile (\<lambda>p. fst p \<le> lib) (proposed_finalizer_policies s)"

definition promoted_pending ::
    "block_num_type \<Rightarrow> block_num_type \<Rightarrow> block_header_state \<Rightarrow> (block_num_type \<times> finalizer_policy) option" where
  "promoted_pending lib n s =
     (if kept_pending lib s = None \<and> ripe lib s \<noteq> [] then Some (n, snd (last (ripe lib s))) else kept_pending lib s)"

definition promoted_proposed :: "block_num_type \<Rightarrow> block_header_state \<Rightarrow> (block_num_type \<times> finalizer_policy) list" where
  "promoted_proposed lib s =
     (if kept_pending lib s \<noteq> None \<and> ripe lib s \<noteq> [] then [last (ripe lib s)] else []) @ unripe lib s"

lemma dropWhile_hd_unchanged: "\<not> P (hd xs) \<Longrightarrow> dropWhile P xs = xs"
  by (cases xs) auto

lemma evaluate_finalizer_policies_spec:
  assumes "evaluate_finalizer_policies_for_promotion prev nxt = Some n"
    and "last_final_block_num (core nxt) = Some lib"
    and "active_policy nxt = active_policy prev" and "pending_policy nxt = None" and "proposed_finalizer_policies nxt = []"
  shows "active_policy n = promoted_active lib prev" "pending_policy n = promoted_pending lib (bhs_block_num nxt) prev"
    "proposed_finalizer_policies n = promoted_proposed lib prev"
    "core n = core nxt" "header n = header nxt"
  using assms
  by (auto simp: evaluate_finalizer_policies_for_promotion_def promoted_active_def promoted_pending_def promoted_proposed_def
      kept_pending_def ripe_def unripe_def Let_def bhs_block_num_def takeWhile_eq_Nil_iff dropWhile_hd_unchanged
      split: if_splits option.splits prod.splits)

text \<open>The promotion of proposer policies changes no other member.\<close>

lemma evaluate_proposer_policies_keeps:
  assumes "evaluate_proposer_policies_for_promotion prev nxt = Some n"
  shows "header n = header nxt" "header_exts n = header_exts nxt" "pending_policy n = pending_policy nxt"
    "proposed_finalizer_policies n = proposed_finalizer_policies nxt"
    "activated_protocol_features n = activated_protocol_features nxt"
proof -
  obtain f a where n: "n = pend_proposer_policy f (activate_proposer_policy a nxt)"
    using assms unfolding evaluate_proposer_policies_for_promotion_def bind_eq_Some_conv by blast
  show "header n = header nxt" "header_exts n = header_exts nxt" "pending_policy n = pending_policy nxt"
    "proposed_finalizer_policies n = proposed_finalizer_policies nxt"
    "activated_protocol_features n = activated_protocol_features nxt"
    unfolding n pend_proposer_policy_def activate_proposer_policy_def by simp_all
qed

lemma finish_proposer_policy_keeps:
  assumes "finish_proposer_policy fresh prev nxt f = Inr n"
  shows "header n = header nxt" "header_exts n = header_exts nxt" "pending_policy n = pending_policy nxt"
    "proposed_finalizer_policies n = proposed_finalizer_policies nxt"
    "activated_protocol_features n = activated_protocol_features nxt"
proof -
  obtain m where m: "evaluate_proposer_policies_for_promotion prev
       (nxt\<lparr>active_proposer_policy := active_proposer_policy prev,
            latest_proposed_proposer_policy := latest_proposed_proposer_policy prev,
            latest_pending_proposer_policy := latest_pending_proposer_policy prev\<rparr>) = Some m"
    and c: "(case new_proposer_policy_diff f of None \<Rightarrow> Inr m
      | Some d \<Rightarrow> bind_res (apply_proposer_diff (get_last_proposed_proposer_policy prev) d) (\<lambda>p.
                 Inr (m\<lparr>latest_proposed_proposer_policy := Some (Ptr fresh p)\<rparr>))) = Inr n"
    using assms unfolding finish_proposer_policy_def bind_res_Inr_iff asserted_Inr_iff by blast
  from c have n: "n = m \<or> (\<exists>p. n = m\<lparr>latest_proposed_proposer_policy := Some p\<rparr>)"
    by (cases "new_proposer_policy_diff f") (auto simp: bind_res_Inr_iff)
  have keeps: "header n = header m" "header_exts n = header_exts m" "pending_policy n = pending_policy m"
    "proposed_finalizer_policies n = proposed_finalizer_policies m"
    "activated_protocol_features n = activated_protocol_features m"
    using n by (elim disjE exE; simp)+
  show "header n = header nxt" "header_exts n = header_exts nxt" "pending_policy n = pending_policy nxt"
    "proposed_finalizer_policies n = proposed_finalizer_policies nxt"
    "activated_protocol_features n = activated_protocol_features nxt"
    unfolding keeps evaluate_proposer_policies_keeps[OF m] by simp_all
qed

lemma finish_finalizer_policy_spec:
  assumes "finish_finalizer_policy hl prev nxt f = Inr n" and "last_final_block_num (core nxt) = Some lib"
    and "pending_policy nxt = None" and "proposed_finalizer_policies nxt = []"
  obtains new where "active_policy n = promoted_active lib prev"
    and "pending_policy n = promoted_pending lib (bhs_block_num nxt) prev"
    and "proposed_finalizer_policies n = promoted_proposed lib prev @ new"
    and "new = [] \<and> finalizer_policy_generation n = finalizer_policy_generation prev \<or>
     (\<exists>p. new = [(bhs_block_num nxt, p)] \<and> generation p > finalizer_policy_generation prev \<and>
          finalizer_policy_generation n = generation p)"
    and "core n = core nxt" and "header n = header nxt"
proof -
  from assms(1) obtain m where m: "evaluate_finalizer_policies_for_promotion prev
       (nxt\<lparr>active_policy := active_policy prev,
            last_pending_finalizer_policy_start_timestamp := last_pending_finalizer_policy_start_timestamp prev\<rparr>) = Some m"
    by (auto simp: finish_finalizer_policy_def res_simps)
  have ev: "active_policy m = promoted_active lib prev"
    "pending_policy m = promoted_pending lib (bhs_block_num nxt) prev"
    "proposed_finalizer_policies m = promoted_proposed lib prev" "core m = core nxt" "header m = header nxt"
    using evaluate_finalizer_policies_spec[OF m, of lib] assms(2-4) by (simp_all add: bhs_block_num_def)
  show thesis
  proof (cases "new_finalizer_policy_diff f")
    case None
    with assms(1) m ev show thesis
      by (intro that[of "[]"]) (auto simp: finish_finalizer_policy_def Let_def)
  next
    case (Some d)
    with assms(1) m ev show thesis
      by (auto simp: finish_finalizer_policy_def Let_def res_simps bhs_block_num_def intro!: that)
  qed
qed

lemma next_core_links_ne: "next_core c b q = Some c' \<Longrightarrow> links c' \<noteq> []"
  by (auto simp: next_core_def Let_def bind_eq_Some_conv)

lemma finish_qc_claim_policy_spec:
  assumes "finish_qc_claim_policy prev nxt = Inr n"
  obtains v claim gen where "n = nxt\<lparr>latest_qc_claim_block_active_finalizer_policy := v\<rparr>"
    and "latest_qc_claim (core nxt) = Some claim"
    and "get_active_finalizer_policy_generation prev (block_num claim) = Some gen"
    and "gen = generation (active_policy nxt) \<or> (\<exists>r ps. get_block_reference (core nxt) (block_num claim) = Some r \<and>
             get_finalizer_policies prev r = Inr ps \<and> v = Some (fp_active ps))"
proof -
  obtain claim gen where c: "latest_qc_claim (core nxt) = Some claim"
    and g: "get_active_finalizer_policy_generation prev (block_num claim) = Some gen"
    using assms unfolding finish_qc_claim_policy_def bind_res_Inr_iff asserted_Inr_iff by blast
  show thesis
  proof (cases "gen = generation (active_policy nxt)")
    case True
    with assms c g have "n = nxt\<lparr>latest_qc_claim_block_active_finalizer_policy := None\<rparr>"
      by (simp add: finish_qc_claim_policy_def)
    with True c g show thesis using that by blast
  next
    case False
    with assms c g obtain r ps where "get_block_reference (core nxt) (block_num claim) = Some r"
      "get_finalizer_policies prev r = Inr ps" "n = nxt\<lparr>latest_qc_claim_block_active_finalizer_policy := Some (fp_active ps)\<rparr>"
      by (auto simp: finish_qc_claim_policy_def res_simps)
    with c g show thesis using that by blast
  qed
qed

lemma h_step_spec:
  assumes "h_step hl prev nxt"
  obtains ref q lib new where
    "bhs_make_block_ref hl prev = Some ref" "next_core (core prev) ref q = Some (core nxt)"
    "last_final_block_num (core nxt) = Some lib"
    "previous (header nxt) = bhs_block_id prev"
    "bhs_block_id nxt = calculate_id (hash_header hl (header nxt)) (bhs_block_num nxt)"
    "active_policy nxt = promoted_active lib prev"
    "pending_policy nxt = promoted_pending lib (bhs_block_num nxt) prev"
    "proposed_finalizer_policies nxt = promoted_proposed lib prev @ new"
    "new = [] \<and> finalizer_policy_generation nxt = finalizer_policy_generation prev \<or>
     (\<exists>p. new = [(bhs_block_num nxt, p)] \<and> generation p > finalizer_policy_generation prev \<and>
          finalizer_policy_generation nxt = generation p)"
    "\<exists>claim gen. latest_qc_claim (core nxt) = Some claim \<and>
       get_active_finalizer_policy_generation prev (block_num claim) = Some gen \<and>
       (gen = generation (active_policy nxt) \<or> (\<exists>r ps. get_block_reference (core nxt) (block_num claim) = Some r \<and>
             get_finalizer_policies prev r = Inr ps \<and>
             latest_qc_claim_block_active_finalizer_policy nxt = Some (fp_active ps)))"
proof -
  from assms obtain fresh h exts features f where prev: "previous h = bhs_block_id prev"
    and fn: "finish_next hl fresh prev (new_header_state prev h exts) features f = Inr nxt"
    unfolding h_step_def by blast
  from fn obtain feats n1 n2 n3 n4 where
    n1: "finish_proposer_policy fresh prev ((new_header_state prev h exts)\<lparr>activated_protocol_features := feats\<rparr>) f = Inr n1"
    and n2: "finish_finality_core hl prev n1 f = Inr n2" and n3: "finish_finalizer_policy hl prev n2 f = Inr n3"
    and n4: "finish_qc_claim_policy prev n3 = Inr n4"
    and nxt: "nxt = n4\<lparr>bhs_block_id := calculate_id (hash_header hl (header n4)) (header_block_num (header n4))\<rparr>"
    by (auto simp: finish_next_def bind_res_Inr_iff)
  have h1: "header n1 = h" "pending_policy n1 = None" "proposed_finalizer_policies n1 = []"
    using finish_proposer_policy_keeps[OF n1] by (simp_all add: new_header_state_def)
  obtain ref c where ref: "bhs_make_block_ref hl prev = Some ref"
    and c: "next_core (core prev) ref (f_qc_claim f) = Some c" and n2': "n2 = n1\<lparr>core := c\<rparr>"
    using n2 by (auto simp: finish_finality_core_def res_simps)
  have "links c \<noteq> []" using c by (rule next_core_links_ne)
  then obtain lib where lib: "last_final_block_num (core n2) = Some lib" by (simp add: core_reads n2')
  have num: "bhs_block_num n2 = bhs_block_num n1" by (simp add: n2' bhs_block_num_def)
  obtain new where new: "active_policy n3 = promoted_active lib prev"
    "pending_policy n3 = promoted_pending lib (bhs_block_num n2) prev"
    "proposed_finalizer_policies n3 = promoted_proposed lib prev @ new"
    "new = [] \<and> finalizer_policy_generation n3 = finalizer_policy_generation prev \<or>
     (\<exists>p. new = [(bhs_block_num n2, p)] \<and> generation p > finalizer_policy_generation prev \<and>
          finalizer_policy_generation n3 = generation p)"
    "core n3 = core n2" "header n3 = header n2"
    using finish_finalizer_policy_spec[OF n3 lib] h1 n2' by auto
  obtain v claim gen where n4': "n4 = n3\<lparr>latest_qc_claim_block_active_finalizer_policy := v\<rparr>"
    and claim: "latest_qc_claim (core n3) = Some claim"
      "get_active_finalizer_policy_generation prev (block_num claim) = Some gen"
      "gen = generation (active_policy n3) \<or> (\<exists>r ps. get_block_reference (core n3) (block_num claim) = Some r \<and>
             get_finalizer_policies prev r = Inr ps \<and> v = Some (fp_active ps))"
    using finish_qc_claim_policy_spec[OF n4] by blast
  from n4' have same: "core n4 = core n3" "header n4 = header n3" "active_policy n4 = active_policy n3"
    "pending_policy n4 = pending_policy n3" "proposed_finalizer_policies n4 = proposed_finalizer_policies n3"
    "finalizer_policy_generation n4 = finalizer_policy_generation n3"
    by simp_all
  have num': "bhs_block_num nxt = bhs_block_num n2" using same new by (simp add: nxt bhs_block_num_def)
  have fg: "finalizer_policy_generation nxt = finalizer_policy_generation n3" by (simp add: nxt same)
  show thesis
  proof (rule that[of ref "f_qc_claim f" lib new])
    show "bhs_block_id nxt = calculate_id (hash_header hl (header nxt)) (bhs_block_num nxt)"
      by (simp add: nxt header_block_num_def bhs_block_num_def)
    show "\<exists>claim gen. latest_qc_claim (core nxt) = Some claim \<and>
       get_active_finalizer_policy_generation prev (block_num claim) = Some gen \<and>
       (gen = generation (active_policy nxt) \<or> (\<exists>r ps. get_block_reference (core nxt) (block_num claim) = Some r \<and>
             get_finalizer_policies prev r = Inr ps \<and>
             latest_qc_claim_block_active_finalizer_policy nxt = Some (fp_active ps)))"
      using claim unfolding nxt n4' by (intro exI[of _ claim] exI[of _ gen]) simp
    show "bhs_make_block_ref hl prev = Some ref" by (fact ref)
    show "next_core (core prev) ref (f_qc_claim f) = Some (core nxt)" using c same new(5) n2' by (simp add: nxt)
    show "last_final_block_num (core nxt) = Some lib" using lib same new(5) by (simp add: nxt)
    show "previous (header nxt) = bhs_block_id prev" using prev h1 same new(6) n2' by (simp add: nxt)
    show "active_policy nxt = promoted_active lib prev" using new(1) same by (simp add: nxt)
    show "pending_policy nxt = promoted_pending lib (bhs_block_num nxt) prev" unfolding num' using new(2) same by (simp add: nxt)
    show "proposed_finalizer_policies nxt = promoted_proposed lib prev @ new" using new(3) same by (simp add: nxt)
    show "new = [] \<and> finalizer_policy_generation nxt = finalizer_policy_generation prev \<or>
     (\<exists>p. new = [(bhs_block_num nxt, p)] \<and> generation p > finalizer_policy_generation prev \<and>
          finalizer_policy_generation nxt = generation p)"
      unfolding num' fg by (fact new(4))
  qed
qed

section \<open>Generations\<close>

text \<open>The policies of a state in the order of their life: active, pending, proposed.\<close>

definition policy_line :: "block_header_state \<Rightarrow> finalizer_policy list" where
  "policy_line s = active_policy s # map snd (case pending_policy s of None \<Rightarrow> [] | Some x \<Rightarrow> [x]) @ map snd (proposed_finalizer_policies s)"

definition gens_ok :: "block_header_state \<Rightarrow> bool" where
  "gens_ok s \<longleftrightarrow>
     sorted_wrt (<) (map generation (policy_line s)) \<and>
     (\<forall>p\<in>set (policy_line s). generation p \<noteq> 0 \<and> generation p \<le> finalizer_policy_generation s)"

lemma gens_ok_active: "gens_ok s \<Longrightarrow> generation (active_policy s) \<noteq> 0"
  by (simp add: gens_ok_def policy_line_def)

lemma gens_ok_pending:
  assumes "gens_ok s" and "pending_policy s = Some (b, p)"
  shows "generation (active_policy s) < generation p"
  using assms by (simp add: gens_ok_def policy_line_def)

lemma subseq_in_set: "subseq xs ys \<Longrightarrow> x \<in> set xs \<Longrightarrow> x \<in> set ys"
  using list_emb_set[of "(=)" xs ys x] by blast

lemma sorted_wrt_subseq: "subseq xs ys \<Longrightarrow> sorted_wrt P ys \<Longrightarrow> sorted_wrt P xs"
  by (induction rule: list_emb.induct) (auto dest: subseq_in_set)

lemma subseq_snd_last: "xs \<noteq> [] \<Longrightarrow> subseq (snd (last xs) # map snd us) (map snd xs @ map snd us)"
  using list_emb_append_mono[of "(=)" "[snd (last xs)]" "map snd xs" "map snd us" "map snd us"]
  by (simp add: subseq_singleton_left)

lemma promoted_subseq:
  "subseq (promoted_active lib s # map snd (case promoted_pending lib n s of None \<Rightarrow> [] | Some x \<Rightarrow> [x]) @
           map snd (promoted_proposed lib s)) (policy_line s)"
proof -
  have line: "proposed_finalizer_policies s = ripe lib s @ unripe lib s"
    by (simp add: ripe_def unripe_def)
  have drop: "subseq (map snd (unripe lib s)) (map snd (ripe lib s) @ map snd (unripe lib s))"
    by (rule list_emb_append2) simp
  have last: "subseq (snd (last (ripe lib s)) # map snd (unripe lib s)) (map snd (ripe lib s) @ map snd (unripe lib s))"
    if "ripe lib s \<noteq> []" using that by (rule subseq_snd_last)
  note defs = policy_line_def line promoted_active_def promoted_pending_def promoted_proposed_def kept_pending_def
  show ?thesis
  proof (cases "pending_policy s")
    case None
    then show ?thesis using drop last by (cases "ripe lib s = []") (simp_all add: defs)
  next
    case (Some x)
    obtain b p where "x = (b, p)" by (cases x)
    with Some show ?thesis using drop last
      by (cases "ripe lib s = []"; cases "b \<le> lib") (simp_all add: defs list_emb_Cons)
  qed
qed

lemma gens_ok_step:
  assumes "gens_ok prev" and "h_step hl prev nxt"
  shows "gens_ok nxt"
proof -
  obtain lib new where line: "active_policy nxt = promoted_active lib prev"
    "pending_policy nxt = promoted_pending lib (bhs_block_num nxt) prev"
    "proposed_finalizer_policies nxt = promoted_proposed lib prev @ new"
    and new: "new = [] \<and> finalizer_policy_generation nxt = finalizer_policy_generation prev \<or>
     (\<exists>p. new = [(bhs_block_num nxt, p)] \<and> generation p > finalizer_policy_generation prev \<and>
          finalizer_policy_generation nxt = generation p)"
    by (rule h_step_spec[OF assms(2)]) (rule that)
  define l where "l = promoted_active lib prev # map snd (case promoted_pending lib (bhs_block_num nxt) prev of None \<Rightarrow> [] | Some x \<Rightarrow> [x]) @
           map snd (promoted_proposed lib prev)"
  have sub: "subseq l (policy_line prev)" unfolding l_def by (rule promoted_subseq)
  have sorted: "sorted_wrt (<) (map generation l)"
    using assms(1) subseq_map[OF sub] unfolding gens_ok_def by (blast intro: sorted_wrt_subseq)
  have bound: "generation p \<noteq> 0" "generation p \<le> finalizer_policy_generation prev" if "p \<in> set l" for p
    using assms(1) subseq_in_set[OF sub that] unfolding gens_ok_def by blast+
  have line': "policy_line nxt = l @ map snd new" by (simp add: policy_line_def line l_def)
  from new show ?thesis
  proof (elim disjE exE conjE)
    assume "new = []" "finalizer_policy_generation nxt = finalizer_policy_generation prev"
    with sorted bound show ?thesis by (simp add: gens_ok_def line')
  next
    fix p assume p: "new = [(bhs_block_num nxt, p)]" "finalizer_policy_generation prev < generation p"
      "finalizer_policy_generation nxt = generation p"
    have less: "generation x < generation p" if "x \<in> set l" for x
      using bound(2)[OF that] p(2) by simp
    moreover from p(2) have "generation p \<noteq> 0" by auto
    ultimately show ?thesis
      using sorted bound(1) by (auto simp: gens_ok_def line' p(1,3) sorted_wrt_append dest: less)
  qed
qed

section \<open>Retrieving the policies of an ancestor\<close>

text \<open>\<open>sees s s'\<close>: the policies of \<open>s'\<close> are still among those that \<open>s\<close> stores, where \<^verbatim>\<open>get_finalizer_policies\<close> looks for them.\<close>

definition sees :: "block_header_state \<Rightarrow> block_header_state \<Rightarrow> bool" where
  "sees s s' \<longleftrightarrow>
     active_policy s' = active_policy s \<and>
       (pending_policy s' = None \<or> map_option snd (pending_policy s') = map_option snd (pending_policy s)) \<or>
     generation (active_policy s') < generation (active_policy s) \<and>
       latest_qc_claim_block_active_finalizer_policy s = Some (active_policy s') \<and>
       (pending_policy s' = None \<or> map_option snd (pending_policy s') = Some (active_policy s))"

definition ref_policies :: "block_header_state \<Rightarrow> block_ref \<Rightarrow> finalizer_policies_t" where
  "ref_policies s ref = \<lparr>fp_finality_digest = finality_digest ref, fp_active = active_policy s,
                         fp_pending = map_option snd (pending_policy s)\<rparr>"

lemma make_block_ref_reads:
  assumes "bhs_make_block_ref hl s = Some ref"
  shows "block_id ref = bhs_block_id s" "active_policy_generation ref = generation (active_policy s)"
    "pending_policy_generation ref = (case pending_policy s of Some (_, p) \<Rightarrow> generation p | None \<Rightarrow> 0)"
    "timestamp ref = bhs_timestamp s"
  using assms by (auto simp: bhs_make_block_ref_def bind_eq_Some_conv)

lemma sees_retrieves:
  assumes "sees s s'" and "gens_ok s" and "gens_ok s'" and ref: "bhs_make_block_ref hl s' = Some ref"
    and ne: "links (core s) \<noteq> []"
    and range: "target_block_num (last (links (core s))) \<le> block_ref_block_num ref"
      "block_ref_block_num ref \<le> source_block_num (last (links (core s)))"
  shows "get_finalizer_policies s ref = Inr (ref_policies s' ref)"
proof -
  note reads = make_block_ref_reads[OF ref]
  have a': "generation (active_policy s') \<noteq> 0" and a: "generation (active_policy s) \<noteq> 0"
    using assms(2,3) by (simp_all add: gens_ok_active)
  have p: "generation (active_policy s) < generation p" if "pending_policy s = Some (b, p)" for b p
    using assms(2) that by (rule gens_ok_pending)
  have p': "generation (active_policy s') < generation p" if "pending_policy s' = Some (b, p)" for b p
    using assms(3) that by (rule gens_ok_pending)
  note start = get_finalizer_policies_def core_reads ne range reads ref_policies_def
  from assms(1) show ?thesis unfolding sees_def
  proof (elim disjE conjE)
    assume act: "active_policy s' = active_policy s" and "pending_policy s' = None"
    with a show ?thesis by (simp add: start)
  next
    assume act: "active_policy s' = active_policy s"
      and pend: "map_option snd (pending_policy s') = map_option snd (pending_policy s)"
    show ?thesis
    proof (cases "pending_policy s'")
      case None
      with act a show ?thesis by (simp add: start)
    next
      case (Some x)
      obtain b q where x: "x = (b, q)" by (cases x)
      with Some pend obtain b' where s: "pending_policy s = Some (b', q)" by (cases "pending_policy s") auto
      have "generation (active_policy s) \<noteq> generation q" "generation q \<noteq> 0" using p[OF s] by auto
      with Some x act a s show ?thesis by (simp add: start)
    qed
  next
    assume less: "generation (active_policy s') < generation (active_policy s)"
      and latest: "latest_qc_claim_block_active_finalizer_policy s = Some (active_policy s')"
      and none: "pending_policy s' = None"
    have later: "generation q > generation (active_policy s')" if "pending_policy s = Some (b, q)" for b q
      using p[OF that] less by simp
    with less latest none a' show ?thesis by (cases "pending_policy s") (auto simp: start)
  next
    assume less: "generation (active_policy s') < generation (active_policy s)"
      and latest: "latest_qc_claim_block_active_finalizer_policy s = Some (active_policy s')"
      and "map_option snd (pending_policy s') = Some (active_policy s)"
    then obtain b where s': "pending_policy s' = Some (b, active_policy s)" by auto
    have later: "generation q > generation (active_policy s')" if "pending_policy s = Some (b, q)" for b q
      using p[OF that] less by simp
    with less latest s' a a' show ?thesis by (cases "pending_policy s") (auto simp: start)
  qed
qed

section \<open>Chains of blocks\<close>

text \<open>The state of the first Savanna block, as \<^verbatim>\<open>block_state::create_if_genesis_block\<close> builds it.\<close>

definition genesis_state :: "block_header_state \<Rightarrow> bool" where
  "genesis_state s \<longleftrightarrow>
     (\<exists>ts. core s = create_core_for_genesis_block (bhs_block_id s) ts) \<and>
     num_from_id (bhs_block_id s) = bhs_block_num s \<and>
     pending_policy s = None \<and> proposed_finalizer_policies s = [] \<and>
     generation (active_policy s) \<noteq> 0 \<and> generation (active_policy s) \<le> finalizer_policy_generation s"

inductive header_chain :: "hash_lib \<Rightarrow> block_header_state list \<Rightarrow> bool" for hl where
  genesis: "genesis_state s \<Longrightarrow> header_chain hl [s]"
| extend: "header_chain hl hist \<Longrightarrow> h_step hl (last hist) nxt \<Longrightarrow> header_chain hl (hist @ [nxt])"

lemma header_chain_ne: "header_chain hl hist \<Longrightarrow> hist \<noteq> []"
  by (induction rule: header_chain.induct) auto

lemma header_chain_gens: "header_chain hl hist \<Longrightarrow> \<forall>s\<in>set hist. gens_ok s"
proof (induction rule: header_chain.induct)
  case (genesis s)
  then show ?case by (simp add: genesis_state_def gens_ok_def policy_line_def)
next
  case (extend hist nxt)
  then have "gens_ok (last hist)" using header_chain_ne by simp
  then show ?case using extend gens_ok_step by simp
qed

text \<open>The core of the last block, against the states of the chain.\<close>

definition chain_core :: "hash_lib \<Rightarrow> block_header_state list \<Rightarrow> bool" where
  "chain_core hl hist \<longleftrightarrow>
     (\<exists>steps. core_refines (bhs_block_num (hd hist)) steps (core (last hist)) \<and> Suc (length steps) = length hist \<and>
        (\<forall>i<length steps. bhs_make_block_ref hl (hist ! i) = Some (fst (steps ! i)))) \<and>
     (\<forall>i<length hist. unat (bhs_block_num (hist ! i)) = unat (bhs_block_num (hd hist)) + i \<and>
        num_from_id (bhs_block_id (hist ! i)) = bhs_block_num (hist ! i))"

lemma header_chain_core:
  assumes "header_chain hl hist" and "unat (bhs_block_num (hd hist)) + length hist \<le> 2 ^ 32"
  shows "chain_core hl hist"
  using assms
proof (induction rule: header_chain.induct)
  case (genesis s)
  then obtain ts where "core s = create_core_for_genesis_block (bhs_block_id s) ts" "num_from_id (bhs_block_id s) = bhs_block_num s"
    by (auto simp: genesis_state_def)
  with core_refines_genesis[of "bhs_block_id s" ts] show ?case
    by (auto simp: chain_core_def intro!: exI[of _ "[]"])
next
  case (extend hist nxt)
  let ?g = "bhs_block_num (hd hist)"
  have ne: "hist \<noteq> []" by (rule header_chain_ne[OF extend.hyps(1)])
  then have hd: "hd (hist @ [nxt]) = hd hist" by simp
  have wrap: "unat ?g + Suc (length hist) \<le> 2 ^ 32" using extend.prems ne by simp
  then obtain steps where steps: "core_refines ?g steps (core (last hist))" "Suc (length steps) = length hist"
      "\<And>i. i < length steps \<Longrightarrow> bhs_make_block_ref hl (hist ! i) = Some (fst (steps ! i))"
    and nums: "\<And>i. i < length hist \<Longrightarrow> unat (bhs_block_num (hist ! i)) = unat ?g + i \<and>
        num_from_id (bhs_block_id (hist ! i)) = bhs_block_num (hist ! i)"
    using extend.IH by (auto simp: chain_core_def)
  obtain ref q where ref: "bhs_make_block_ref hl (last hist) = Some ref"
    and core: "next_core (core (last hist)) ref q = Some (core nxt)"
    and prev: "previous (header nxt) = bhs_block_id (last hist)"
    and bid: "bhs_block_id nxt = calculate_id (hash_header hl (header nxt)) (bhs_block_num nxt)"
    by (rule h_step_spec[OF extend.hyps(2)]) (rule that)
  have last: "last hist = hist ! length steps" using ne steps(2) by (simp add: last_conv_nth flip: steps(2))
  have "core_refines ?g (steps @ [(ref, q)]) (core nxt)"
    using wrap steps(2) by (intro core_refines_next[OF steps(1) core]) simp
  moreover have "bhs_make_block_ref hl ((hist @ [nxt]) ! i) = Some (fst ((steps @ [(ref, q)]) ! i))"
    if "i < length (steps @ [(ref, q)])" for i
  proof (cases "i = length steps")
    case True
    then show ?thesis using ref last steps(2) by (simp add: nth_append)
  next
    case False
    with that have "i < length steps" by simp
    with steps(2,3) show ?thesis by (simp add: nth_append)
  qed
  moreover have "bhs_block_num nxt = bhs_block_num (last hist) + 1"
    using prev nums[of "length steps"] last steps(2) by (simp add: bhs_block_num_def)
  then have "unat (bhs_block_num nxt) = unat ?g + length hist"
    using nums[of "length steps"] last steps(2) wrap by (simp add: unat_Suc_no_wrap)
  then have "unat (bhs_block_num ((hist @ [nxt]) ! i)) = unat ?g + i \<and>
        num_from_id (bhs_block_id ((hist @ [nxt]) ! i)) = bhs_block_num ((hist @ [nxt]) ! i)"
    if "i < length (hist @ [nxt])" for i
    using that nums bid by (auto simp: nth_append less_Suc_eq num_from_id_calculate_id)
  ultimately show ?case using steps(2) unfolding chain_core_def hd
    by (intro conjI exI[of _ "steps @ [(ref, q)]"]) auto
qed

text \<open>What a chain below block number \<open>2\<^sup>3\<^sup>2\<close> says about positions.\<close>

lemma chain_core_reads:
  assumes "chain_core hl hist" and "hist \<noteq> []"
  shows "core_ok (core (last hist))"
    and "unat (source_block_num (last (links (core (last hist))))) = unat (bhs_block_num (hd hist)) + (length hist - 1)"
    and "i < length hist \<Longrightarrow> unat (bhs_block_num (hist ! i)) = unat (bhs_block_num (hd hist)) + i"
    and "i < length hist \<Longrightarrow> num_from_id (bhs_block_id (hist ! i)) = bhs_block_num (hist ! i)"
    and "unat (bhs_block_num (hd hist)) \<le> unat (target_block_num (hd (links (core (last hist)))))"
    and "source_block_num (last (links (core (last hist)))) = bhs_block_num (last hist)"
proof -
  obtain steps where "core_refines (bhs_block_num (hd hist)) steps (core (last hist))" "Suc (length steps) = length hist"
    using assms(1) unfolding chain_core_def by blast
  then show "core_ok (core (last hist))"
    and src: "unat (source_block_num (last (links (core (last hist))))) = unat (bhs_block_num (hd hist)) + (length hist - 1)"
    and "unat (bhs_block_num (hd hist)) \<le> unat (target_block_num (hd (links (core (last hist)))))"
    unfolding core_refines_def by auto
  show nums: "unat (bhs_block_num (hist ! i)) = unat (bhs_block_num (hd hist)) + i" if "i < length hist" for i
    using assms(1) that unfolding chain_core_def by blast
  show "num_from_id (bhs_block_id (hist ! i)) = bhs_block_num (hist ! i)" if "i < length hist" for i
    using assms(1) that unfolding chain_core_def by blast
  show "source_block_num (last (links (core (last hist)))) = bhs_block_num (last hist)"
    using src nums[of "length hist - 1"] assms(2) by (simp add: last_conv_nth word_unat_eq_iff)
qed

lemma chain_reference:
  assumes "chain_core hl hist" and "hist \<noteq> []" and "get_block_reference (core (last hist)) n = Some r"
  obtains i where "i < length hist" and "unat n = unat (bhs_block_num (hd hist)) + i"
    and "bhs_make_block_ref hl (hist ! i) = Some r"
proof -
  let ?c = "core (last hist)" and ?g = "bhs_block_num (hd hist)"
  obtain steps where steps: "core_refines ?g steps ?c" "Suc (length steps) = length hist"
      "\<forall>i<length steps. bhs_make_block_ref hl (hist ! i) = Some (fst (steps ! i))"
    using assms(1) unfolding chain_core_def by blast
  have ok: "core_ok ?c" by (rule chain_core_reads(1)[OF assms(1,2)])
  have range: "target_block_num (hd (links ?c)) \<le> n" "n < source_block_num (last (links ?c))"
    using assms(3) ok by (auto simp: get_block_reference_def core_reads bind_eq_Some_conv res_simps)
  obtain j where j: "j < length (refs ?c)" "get_block_reference ?c n = Some (refs ?c ! j)"
      "j = unat n - unat (target_block_num (hd (links ?c)))"
    by (rule get_block_reference_ok[OF ok range]) (rule that)
  have refs: "refs ?c = drop (unat (target_block_num (hd (links ?c))) - unat ?g) (map fst steps)"
    and g: "unat ?g \<le> unat (target_block_num (hd (links ?c)))"
    using steps(1) unfolding core_refines_def by blast+
  let ?i = "unat n - unat ?g"
  have le: "unat (target_block_num (hd (links ?c))) \<le> unat n" using range(1) by (simp add: word_le_nat_alt)
  have i: "?i < length steps" "refs ?c ! j = fst (steps ! ?i)"
    using j(1,3) g le unfolding refs by simp_all
  show thesis
  proof (rule that[of ?i])
    show "?i < length hist" using i(1) steps(2) by simp
    show "unat n = unat ?g + ?i" using g le by simp
    show "bhs_make_block_ref hl (hist ! ?i) = Some r" using steps(3) i j(2) assms(3) by simp
  qed
qed

lemma chain_generation:
  assumes "chain_core hl hist" and "hist \<noteq> []"
    and "get_active_finalizer_policy_generation (last hist) n = Some gen" and "n \<le> bhs_block_num (last hist)"
  obtains i where "i < length hist" and "unat n = unat (bhs_block_num (hd hist)) + i"
    and "gen = generation (active_policy (hist ! i))"
proof (cases "n = bhs_block_num (last hist)")
  case True
  with assms chain_core_reads(3)[OF assms(1,2), of "length hist - 1"] show thesis
    by (intro that[of "length hist - 1"])
      (auto simp: get_active_finalizer_policy_generation_def bind_eq_Some_conv last_conv_nth)
next
  case False
  then obtain r where r: "get_block_reference (core (last hist)) n = Some r" "gen = active_policy_generation r"
    using assms(3) by (auto simp: get_active_finalizer_policy_generation_def bind_eq_Some_conv)
  obtain i where "i < length hist" "unat n = unat (bhs_block_num (hd hist)) + i" "bhs_make_block_ref hl (hist ! i) = Some r"
    using chain_reference[OF assms(1,2) r(1)] by blast
  with r(2) show thesis by (intro that[of i]) (simp_all add: make_block_ref_reads)
qed

text \<open>
  The window: since the block that made it pending, nothing changed for the pending policy; every block
  from the latest claim on is seen by the last one; generations never go back.
\<close>

definition pending_since :: "block_header_state list \<Rightarrow> bool" where
  "pending_since hist \<longleftrightarrow>
     (\<forall>b p. pending_policy (last hist) = Some (b, p) \<longrightarrow>
        (\<forall>i<length hist. b \<le> bhs_block_num (hist ! i) \<longrightarrow>
           active_policy (hist ! i) = active_policy (last hist) \<and> pending_policy (hist ! i) = Some (b, p)))"

definition claim_window :: "block_header_state list \<Rightarrow> bool" where
  "claim_window hist \<longleftrightarrow>
     (\<forall>i<length hist. target_block_num (last (links (core (last hist)))) \<le> bhs_block_num (hist ! i) \<longrightarrow>
        sees (last hist) (hist ! i))"

definition gens_mono :: "block_header_state list \<Rightarrow> bool" where
  "gens_mono hist \<longleftrightarrow>
     (\<forall>i j. i \<le> j \<and> j < length hist \<longrightarrow>
        generation (active_policy (hist ! i)) \<le> generation (active_policy (hist ! j)))"

lemma promoted_active_cases:
  obtains "promoted_active lib s = active_policy s" and "kept_pending lib s = pending_policy s"
  | b p where "pending_policy s = Some (b, p)" and "b \<le> lib" and "promoted_active lib s = p"
proof (cases "pending_policy s")
  case None
  then show thesis using that(1) by (simp add: promoted_active_def kept_pending_def)
next
  case (Some x)
  obtain b p where "x = (b, p)" by (cases x)
  with Some that show thesis by (cases "b \<le> lib") (simp_all add: promoted_active_def kept_pending_def)
qed

lemma pending_since_step:
  assumes "pending_since hist" and "hist \<noteq> []" and "h_step hl (last hist) nxt"
    and core: "chain_core hl (hist @ [nxt])"
  shows "pending_since (hist @ [nxt])"
  unfolding pending_since_def
proof (intro allI impI)
  fix b p i
  assume pend: "pending_policy (last (hist @ [nxt])) = Some (b, p)" and i: "i < length (hist @ [nxt])"
    and b: "b \<le> bhs_block_num ((hist @ [nxt]) ! i)"
  let ?s = "last hist"
  obtain lib where active: "active_policy nxt = promoted_active lib ?s"
    and pending: "pending_policy nxt = promoted_pending lib (bhs_block_num nxt) ?s"
    by (rule h_step_spec[OF assms(3)]) (rule that)
  have num: "unat (bhs_block_num ((hist @ [nxt]) ! j)) = unat (bhs_block_num (hd hist)) + j" if "j < length (hist @ [nxt])" for j
    using chain_core_reads(3)[OF core _ that] assms(2) by simp
  show "active_policy ((hist @ [nxt]) ! i) = active_policy (last (hist @ [nxt])) \<and>
        pending_policy ((hist @ [nxt]) ! i) = Some (b, p)"
  proof (cases "i = length hist")
    case True
    with pend show ?thesis by simp
  next
    case False
    with i have i': "i < length hist" by simp
    have "bhs_block_num (hist ! i) < bhs_block_num nxt"
      using num[of i] num[of "length hist"] i' by (simp add: nth_append word_less_nat_alt)
    with b i' have "b \<noteq> bhs_block_num nxt" by (auto simp: nth_append)
    with pend pending have kept: "kept_pending lib ?s = Some (b, p)"
      by (auto simp: promoted_pending_def split: if_splits)
    then have s: "pending_policy ?s = Some (b, p)" "promoted_active lib ?s = active_policy ?s"
      by (auto simp: kept_pending_def promoted_active_def split: option.splits if_splits)
    with assms(1) i' b have "active_policy (hist ! i) = active_policy ?s \<and> pending_policy (hist ! i) = Some (b, p)"
      unfolding pending_since_def by (auto simp: nth_append)
    with i' s(2) active show ?thesis by (simp add: nth_append)
  qed
qed

lemma gens_mono_step:
  assumes "gens_mono hist" and "hist \<noteq> []" and "h_step hl (last hist) nxt" and "gens_ok (last hist)"
  shows "gens_mono (hist @ [nxt])"
proof -
  let ?s = "last hist"
  obtain lib where active: "active_policy nxt = promoted_active lib ?s"
    by (rule h_step_spec[OF assms(3)]) (rule that)
  have up: "generation (active_policy ?s) \<le> generation (active_policy nxt)"
    unfolding active using gens_ok_pending[OF assms(4)]
    by (cases rule: promoted_active_cases[of lib ?s]) (auto simp: order.strict_implies_order)
  show ?thesis
    unfolding gens_mono_def
  proof (intro allI impI, elim conjE)
    fix i j assume ij: "i \<le> j" "j < length (hist @ [nxt])"
    show "generation (active_policy ((hist @ [nxt]) ! i)) \<le> generation (active_policy ((hist @ [nxt]) ! j))"
    proof (cases "j = length hist \<and> i < j")
      case True
      then have "i \<le> length hist - 1 \<and> length hist - 1 < length hist" by auto
      then have "generation (active_policy (hist ! i)) \<le> generation (active_policy ?s)"
        using assms(1,2) unfolding gens_mono_def by (simp add: last_conv_nth)
      with up True show ?thesis by (simp add: nth_append)
    next
      case False
      with ij assms(1) show ?thesis by (cases "i = j") (auto simp: nth_append gens_mono_def)
    qed
  qed
qed

lemma next_core_claim:
  assumes "core_ok c" and "next_core c b q = Some c'"
  shows "target_block_num (last (links c')) = block_num q"
    and "target_block_num (last (links c)) \<le> block_num q" and "block_num q \<le> source_block_num (last (links c))"
proof -
  have pre: "next_pre c b q" by (rule next_core_Some_pre[OF assms(2)])
  then show "target_block_num (last (links c)) \<le> block_num q" and "block_num q \<le> source_block_num (last (links c))"
    using core_links_ne[OF assms(1)] by (auto simp: next_pre_def core_reads qc_claim_le_def)
  show "target_block_num (last (links c')) = block_num q"
    by (rule next_core_ok[OF assms(1) pre]) (use assms(2) in simp)
qed

text \<open>One more block: \<open>si\<close> is an earlier block from the claim on, \<open>sk\<close> the claimed block.\<close>

lemma sees_step:
  assumes gens: "gens_ok s" and si: "sees s si" and sk: "sees s sk"
    and le: "generation (active_policy sk) \<le> generation (active_policy si)"
    and since: "\<And>b p. pending_policy s = Some (b, p) \<Longrightarrow> b \<le> lib \<Longrightarrow>
      active_policy si = active_policy s \<and> pending_policy si = Some (b, p) \<and> active_policy sk = active_policy s"
    and active: "active_policy nxt = promoted_active lib s" and pending: "pending_policy nxt = promoted_pending lib n s"
    and latest: "generation (active_policy sk) \<noteq> generation (active_policy nxt) \<Longrightarrow>
      latest_qc_claim_block_active_finalizer_policy nxt = Some (active_policy sk)"
  shows "sees nxt si"
proof (cases rule: promoted_active_cases[of lib s])
  case 1
  then have act: "active_policy nxt = active_policy s" by (simp add: active)
  have pend: "pending_policy nxt = pending_policy s" if "pending_policy s \<noteq> None"
    using that 1 by (simp add: pending promoted_pending_def)
  from si show ?thesis
    unfolding sees_def[of s si]
  proof (elim disjE[of "_ \<and> _"] conjE)
    assume "active_policy si = active_policy s"
      and "pending_policy si = None \<or> map_option snd (pending_policy si) = map_option snd (pending_policy s)"
    with act pend show ?thesis by (cases "pending_policy s") (auto simp: sees_def)
  next
    assume less: "generation (active_policy si) < generation (active_policy s)"
      and "latest_qc_claim_block_active_finalizer_policy s = Some (active_policy si)"
      and p: "pending_policy si = None \<or> map_option snd (pending_policy si) = Some (active_policy s)"
    with le sk have "active_policy sk = active_policy si" by (auto simp: sees_def)
    with latest less act p show ?thesis by (auto simp: sees_def)
  qed
next
  case (2 b p)
  then have act: "active_policy nxt = p" and lt: "generation (active_policy s) < generation p"
    using gens_ok_pending[OF gens] by (simp_all add: active)
  have "active_policy si = active_policy s" "pending_policy si = Some (b, p)" "active_policy sk = active_policy s"
    using since[OF 2(1,2)] by simp_all
  with latest act lt show ?thesis by (simp add: sees_def)
qed

lemma claim_window_step:
  assumes chain: "header_chain hl hist" and step: "h_step hl (last hist) nxt"
    and core: "chain_core hl hist" and core': "chain_core hl (hist @ [nxt])"
    and since: "pending_since hist" and window: "claim_window hist" and mono: "gens_mono hist"
  shows "claim_window (hist @ [nxt])"
proof -
  let ?s = "last hist" and ?g = "bhs_block_num (hd hist)"
  have ne: "hist \<noteq> []" by (rule header_chain_ne[OF chain])
  have gens: "gens_ok (hist ! i)" if "i < length hist" for i
    using header_chain_gens[OF chain] that by simp
  have gens_s: "gens_ok ?s" using header_chain_gens[OF chain] ne by simp
  obtain ref qc lib where c: "next_core (core ?s) ref qc = Some (core nxt)"
    and lib: "last_final_block_num (core nxt) = Some lib"
    and active: "active_policy nxt = promoted_active lib ?s"
    and pending: "pending_policy nxt = promoted_pending lib (bhs_block_num nxt) ?s"
    and claim: "\<exists>claim gen. latest_qc_claim (core nxt) = Some claim \<and>
       get_active_finalizer_policy_generation ?s (block_num claim) = Some gen \<and>
       (gen = generation (active_policy nxt) \<or> (\<exists>r ps. get_block_reference (core nxt) (block_num claim) = Some r \<and>
             get_finalizer_policies ?s r = Inr ps \<and>
             latest_qc_claim_block_active_finalizer_policy nxt = Some (fp_active ps)))"
    by (rule h_step_spec[OF step]) (rule that)
  have ok: "core_ok (core ?s)" and ok': "core_ok (core nxt)"
    using chain_core_reads(1)[OF core ne] chain_core_reads(1)[OF core'] by auto
  let ?q = "target_block_num (last (links (core ?s)))" and ?q' = "target_block_num (last (links (core nxt)))"
  have q: "?q \<le> ?q'" "?q' \<le> bhs_block_num ?s"
    using next_core_claim[OF ok c] chain_core_reads(6)[OF core ne] by auto
  have "lib = target_block_num (hd (links (core nxt)))" using lib ok' by (simp add: core_reads)
  with core_front[OF ok'] have lib_q: "lib \<le> ?q'" by (auto intro: order_trans)
  have num: "unat (bhs_block_num (hist ! i)) = unat ?g + i" if "i < length hist" for i
    by (rule chain_core_reads(3)[OF core ne that])
  have saw: "sees ?s (hist ! i)" if "i < length hist" "?q' \<le> bhs_block_num (hist ! i)" for i
    using window that order_trans[OF q(1)] unfolding claim_window_def by blast
  \<comment> \<open>the claimed block\<close>
  obtain gen where gen: "get_active_finalizer_policy_generation ?s ?q' = Some gen"
    and gen': "gen = generation (active_policy nxt) \<or> (\<exists>r ps. get_block_reference (core nxt) ?q' = Some r \<and>
             get_finalizer_policies ?s r = Inr ps \<and>
             latest_qc_claim_block_active_finalizer_policy nxt = Some (fp_active ps))"
    using claim ok' by (auto simp: core_reads)
  obtain k where k: "k < length hist" "unat ?q' = unat ?g + k" "gen = generation (active_policy (hist ! k))"
    by (rule chain_generation[OF core ne gen q(2)]) (rule that)
  have qk: "?q' \<le> bhs_block_num (hist ! k)" using num[OF k(1)] k(2) by (simp add: word_le_nat_alt)
  let ?A = "active_policy (hist ! k)"
  have latest: "latest_qc_claim_block_active_finalizer_policy nxt = Some ?A"
    if differ: "generation ?A \<noteq> generation (active_policy nxt)"
  proof -
    obtain r ps where r: "get_block_reference (core nxt) ?q' = Some r" "get_finalizer_policies ?s r = Inr ps"
      "latest_qc_claim_block_active_finalizer_policy nxt = Some (fp_active ps)"
      using gen' differ k(3) by auto
    obtain j where j: "j < length (hist @ [nxt])" "unat ?q' = unat ?g + j" "bhs_make_block_ref hl ((hist @ [nxt]) ! j) = Some r"
      using chain_reference[OF core', of ?q' r] r(1) ne by auto
    with k have "j = k" by simp
    with j k(1) have ref_k: "bhs_make_block_ref hl (hist ! k) = Some r" by (simp add: nth_append)
    have bn: "block_ref_block_num r = ?q'"
      using make_block_ref_reads(1)[OF ref_k] chain_core_reads(4)[OF core ne k(1)] num[OF k(1)] k(2)
      by (simp add: block_ref_block_num_def word_unat_eq_iff)
    have "get_finalizer_policies ?s r = Inr (ref_policies (hist ! k) r)"
      using sees_retrieves[OF saw[OF k(1) qk] gens_s gens[OF k(1)] ref_k] core_links_ne[OF ok] q bn
        chain_core_reads(6)[OF core ne] by simp
    with r(2) have "ps = ref_policies (hist ! k) r" by simp
    with r(3) show ?thesis by (simp add: ref_policies_def)
  qed
  show ?thesis
    unfolding claim_window_def
  proof (intro allI impI)
    fix i assume i: "i < length (hist @ [nxt])"
      and qi: "target_block_num (last (links (core (last (hist @ [nxt]))))) \<le> bhs_block_num ((hist @ [nxt]) ! i)"
    show "sees (last (hist @ [nxt])) ((hist @ [nxt]) ! i)"
    proof (cases "i = length hist")
      case True
      then show ?thesis by (simp add: sees_def)
    next
      case False
      with i qi have i': "i < length hist" "?q' \<le> bhs_block_num (hist ! i)" by (auto simp: nth_append)
      have ki: "k \<le> i" using i' num[OF i'(1)] k(2) by (simp add: word_le_nat_alt)
      have old: "active_policy (hist ! j) = active_policy ?s \<and> pending_policy (hist ! j) = Some (b, p)"
        if "pending_policy ?s = Some (b, p)" "b \<le> lib" "j < length hist" "?q' \<le> bhs_block_num (hist ! j)" for b p j
        using since that lib_q unfolding pending_since_def by (meson order_trans)
      have "generation ?A \<le> generation (active_policy (hist ! i))"
        using mono ki i'(1) unfolding gens_mono_def by blast
      then have "sees nxt (hist ! i)"
        using old[OF _ _ i'] old[OF _ _ k(1) qk]
        by (intro sees_step[OF gens_s saw[OF i'] saw[OF k(1) qk] _ _ active pending latest]) blast+
      with i' show ?thesis by (simp add: nth_append)
    qed
  qed
qed

lemma header_chain_window:
  assumes "header_chain hl hist" and "unat (bhs_block_num (hd hist)) + length hist \<le> 2 ^ 32"
  shows "pending_since hist \<and> claim_window hist \<and> gens_mono hist"
  using assms
proof (induction rule: header_chain.induct)
  case (genesis s)
  then show ?case
    by (auto simp: pending_since_def claim_window_def gens_mono_def genesis_state_def sees_def)
next
  case (extend hist nxt)
  have ne: "hist \<noteq> []" by (rule header_chain_ne[OF extend.hyps(1)])
  with extend.prems have wrap: "unat (bhs_block_num (hd hist)) + length hist \<le> 2 ^ 32" by simp
  have core: "chain_core hl hist" by (rule header_chain_core[OF extend.hyps(1) wrap])
  have core': "chain_core hl (hist @ [nxt])"
    by (rule header_chain_core[OF header_chain.extend[OF extend.hyps(1,2)] extend.prems])
  have gens: "gens_ok (last hist)" using header_chain_gens[OF extend.hyps(1)] ne by simp
  from extend.IH[OF wrap] show ?case
    using pending_since_step[OF _ ne extend.hyps(2) core'] claim_window_step[OF extend.hyps(1,2) core core']
      gens_mono_step[OF _ ne extend.hyps(2) gens] by blast
qed

section \<open>The life of a policy\<close>

text \<open>
  \<open>proposed_in hist p l\<close>: some block at most \<open>l\<close> proposed \<open>p\<close>. \<open>pended_in hist p l\<close>: some block at most \<open>l\<close> made
  \<open>p\<close> pending, when the proposing block was final.
\<close>

definition proposed_in :: "block_header_state list \<Rightarrow> finalizer_policy \<Rightarrow> block_num_type \<Rightarrow> bool" where
  "proposed_in hist p l \<longleftrightarrow>
     (\<exists>sa\<in>set hist. (bhs_block_num sa, p) \<in> set (proposed_finalizer_policies sa) \<and> bhs_block_num sa \<le> l)"

definition pended_in :: "block_header_state list \<Rightarrow> finalizer_policy \<Rightarrow> block_num_type \<Rightarrow> bool" where
  "pended_in hist p l \<longleftrightarrow>
     (\<exists>sb\<in>set hist. \<exists>l'. pending_policy sb = Some (bhs_block_num sb, p) \<and> bhs_block_num sb \<le> l \<and>
        last_final_block_num (core sb) = Some l' \<and> proposed_in hist p l')"

definition life_ok :: "block_header_state list \<Rightarrow> bool" where
  "life_ok hist \<longleftrightarrow>
     (\<forall>a p. (a, p) \<in> set (proposed_finalizer_policies (last hist)) \<longrightarrow> proposed_in hist p a) \<and>
     (\<forall>b p. pending_policy (last hist) = Some (b, p) \<longrightarrow> pended_in hist p b) \<and>
     (\<forall>l. last_final_block_num (core (last hist)) = Some l \<longrightarrow>
        active_policy (last hist) = active_policy (hd hist) \<or> pended_in hist (active_policy (last hist)) l)"

lemma proposed_in_mono: "proposed_in hist p l \<Longrightarrow> l \<le> l' \<Longrightarrow> set hist \<subseteq> set hist' \<Longrightarrow> proposed_in hist' p l'"
  unfolding proposed_in_def by (meson order_trans subsetD)

lemma pended_in_mono: "pended_in hist p l \<Longrightarrow> l \<le> l' \<Longrightarrow> set hist \<subseteq> set hist' \<Longrightarrow> pended_in hist' p l'"
  unfolding pended_in_def by (meson order_trans subsetD proposed_in_mono order_refl)

lemma next_core_final_mono:
  assumes "core_ok c" and "next_core c b q = Some c'" and "last_final_block_num c = Some l" and "last_final_block_num c' = Some l'"
  shows "l \<le> l'"
proof (rule next_core_ok[OF assms(1) next_core_Some_pre[OF assms(2)]])
  fix i assume i: "i < length (links c)"
    and eq: "next_core c b q = Some
           \<lparr>links = drop i (links c) @ [\<lparr>source_block_num = source_block_num (last (links c)) + 1,
                                         target_block_num = block_num q, is_link_strong = is_strong_qc q\<rparr>],
            refs = drop (unat (target_block_num (links c ! i)) - unat (target_block_num (hd (links c)))) (refs c) @ [b],
            genesis_timestamp = 0\<rparr>"
  have "l = target_block_num (links c ! 0)" "l' = target_block_num (links c ! i)"
    using assms eq i core_links_ne[OF assms(1)] by (auto simp: core_reads hd_conv_nth nth_append)
  with link_target_mono[OF assms(1) _ i, of 0] show "l \<le> l'" by simp
qed

lemma life_ok_step:
  assumes life: "life_ok hist" and ne: "hist \<noteq> []" and ok: "core_ok (core (last hist))"
    and step: "h_step hl (last hist) nxt"
  shows "life_ok (hist @ [nxt])"
proof -
  let ?s = "last hist" and ?h = "hist @ [nxt]"
  obtain ref q lib new where c: "next_core (core ?s) ref q = Some (core nxt)"
    and lib: "last_final_block_num (core nxt) = Some lib"
    and active: "active_policy nxt = promoted_active lib ?s"
    and pending: "pending_policy nxt = promoted_pending lib (bhs_block_num nxt) ?s"
    and proposed: "proposed_finalizer_policies nxt = promoted_proposed lib ?s @ new"
    and new: "new = [] \<and> finalizer_policy_generation nxt = finalizer_policy_generation ?s \<or>
     (\<exists>p. new = [(bhs_block_num nxt, p)] \<and> generation p > finalizer_policy_generation ?s \<and>
          finalizer_policy_generation nxt = generation p)"
    by (rule h_step_spec[OF step]) (rule that)
  obtain l0 where l0: "last_final_block_num (core ?s) = Some l0" using ok by (simp add: core_reads)
  have sub: "set hist \<subseteq> set ?h" by auto
  have up: "l0 \<le> lib" by (rule next_core_final_mono[OF ok c l0 lib])
  have old_prop: "proposed_in ?h p a" if "(a, p) \<in> set (proposed_finalizer_policies ?s)" for a p
    using life that sub unfolding life_ok_def by (blast intro: proposed_in_mono)
  have pend: "pended_in ?h p b" if "pending_policy ?s = Some (b, p)" for b p
    using life that sub unfolding life_ok_def by (blast intro: pended_in_mono)
  have ripe_in: "last (ripe lib ?s) \<in> set (proposed_finalizer_policies ?s) \<and> fst (last (ripe lib ?s)) \<le> lib"
    if "ripe lib ?s \<noteq> []"
    using last_in_set[OF that] unfolding ripe_def by (auto dest: set_takeWhileD)
  have 1: "proposed_in ?h p a" if ap: "(a, p) \<in> set (proposed_finalizer_policies nxt)" for a p
  proof (cases "(a, p) \<in> set new")
    case True
    with new ap show ?thesis unfolding proposed_in_def by auto
  next
    case False
    with ap proposed ripe_in have "(a, p) \<in> set (proposed_finalizer_policies ?s)"
      by (auto simp: promoted_proposed_def unripe_def split: if_splits dest: set_dropWhileD)
    then show ?thesis by (rule old_prop)
  qed
  have 2: "pended_in ?h p b" if bp: "pending_policy nxt = Some (b, p)" for b p
  proof (cases "kept_pending lib ?s = None \<and> ripe lib ?s \<noteq> []")
    case True
    with bp pending have b: "b = bhs_block_num nxt" "p = snd (last (ripe lib ?s))" by (auto simp: promoted_pending_def)
    obtain a where a: "(a, p) \<in> set (proposed_finalizer_policies ?s)" "a \<le> lib"
      using ripe_in True b(2) by (metis prod.collapse)
    have "proposed_in ?h p lib" using old_prop[OF a(1)] a(2) by (rule proposed_in_mono) simp
    with bp b(1) lib show ?thesis unfolding pended_in_def by auto
  next
    case False
    with bp pending have "pending_policy ?s = Some (b, p)"
      by (auto simp: promoted_pending_def kept_pending_def split: option.splits if_splits)
    then show ?thesis by (rule pend)
  qed
  have 3: "active_policy nxt = active_policy (hd hist) \<or> pended_in ?h (active_policy nxt) lib"
  proof (cases rule: promoted_active_cases[of lib ?s])
    case 1
    with life l0 active have "active_policy nxt = active_policy (hd hist) \<or> pended_in hist (active_policy nxt) l0"
      unfolding life_ok_def by simp
    with up sub show ?thesis by (blast intro: pended_in_mono)
  next
    case (2 b p)
    with pend active show ?thesis by (auto intro: pended_in_mono)
  qed
  from 1 2 3 lib ne show ?thesis unfolding life_ok_def by simp
qed

lemma header_chain_life:
  assumes "header_chain hl hist" and "unat (bhs_block_num (hd hist)) + length hist \<le> 2 ^ 32"
  shows "life_ok hist"
  using assms
proof (induction rule: header_chain.induct)
  case (genesis s)
  then show ?case by (simp add: life_ok_def genesis_state_def)
next
  case (extend hist nxt)
  have ne: "hist \<noteq> []" by (rule header_chain_ne[OF extend.hyps(1)])
  with extend.prems have wrap: "unat (bhs_block_num (hd hist)) + length hist \<le> 2 ^ 32" by simp
  have "core_ok (core (last hist))"
    by (rule chain_core_reads(1)[OF header_chain_core[OF extend.hyps(1) wrap] ne])
  with extend.IH[OF wrap] ne extend.hyps(2) show ?case by (intro life_ok_step)
qed

lemma get_finalizer_policies_eq:
  assumes "header_chain hl hist" and "unat (bhs_block_num (hd hist)) + length hist \<le> 2 ^ 32"
    and "s' \<in> set hist" and "bhs_make_block_ref hl s' = Some ref"
    and "latest_qc_claim (core (last hist)) = Some claim" and "block_num claim \<le> bhs_block_num s'"
  shows "get_finalizer_policies (last hist) ref =
           Inr \<lparr>fp_finality_digest = finality_digest ref, fp_active = active_policy s',
                fp_pending = map_option snd (pending_policy s')\<rparr>"
proof -
  have ne: "hist \<noteq> []" by (rule header_chain_ne[OF assms(1)])
  have core: "chain_core hl hist" by (rule header_chain_core[OF assms(1,2)])
  obtain i where i: "i < length hist" "s' = hist ! i" using assms(3) by (auto simp: in_set_conv_nth)
  have links: "links (core (last hist)) \<noteq> []" using chain_core_reads(1)[OF core ne] by simp
  with assms(5,6) have q: "target_block_num (last (links (core (last hist)))) \<le> bhs_block_num s'"
    by (auto simp: core_reads)
  have num: "block_ref_block_num ref = bhs_block_num s'"
    using make_block_ref_reads(1)[OF assms(4)] chain_core_reads(4)[OF core ne i(1)] i(2)
    by (simp add: block_ref_block_num_def)
  have "bhs_block_num s' \<le> source_block_num (last (links (core (last hist))))"
    using chain_core_reads(2,3)[OF core ne] i by (simp add: word_le_nat_alt)
  moreover have "sees (last hist) s'"
    using header_chain_window[OF assms(1,2)] q i unfolding claim_window_def by blast
  ultimately have "get_finalizer_policies (last hist) ref = Inr (ref_policies s' ref)"
    using header_chain_gens[OF assms(1)] assms(3,4) ne links q num by (intro sees_retrieves) auto
  then show ?thesis by (simp add: ref_policies_def)
qed

section \<open>Properties\<close>

text \<open>
  C25. The finalizer policies of an ancestor are recovered exactly. Take any chain of blocks from the
  Savanna genesis block, and any of its blocks \<open>s'\<close> that is not below the latest claim of the last block.
  Then \<^verbatim>\<open>get_finalizer_policies\<close>, called on the last block with the reference of \<open>s'\<close>, raises nothing and
  returns the policies that were active and pending in \<open>s'\<close>, whatever promotions happened in between.
\<close>

theorem get_finalizer_policies_exact:
  assumes "header_chain hl hist" and "unat (bhs_block_num (hd hist)) + length hist \<le> 2 ^ 32"
    and "s' \<in> set hist" and "bhs_make_block_ref hl s' = Some ref"
    and "latest_qc_claim (core (last hist)) = Some claim" and "block_num claim \<le> bhs_block_num s'"
  shows "get_finalizer_policies (last hist) ref =
           Inr \<lparr>fp_finality_digest = finality_digest ref, fp_active = active_policy s',
                fp_pending = map_option snd (pending_policy s')\<rparr>"
  by (rule get_finalizer_policies_eq[OF assms])

text \<open>
  A chain of six blocks with constant hashes: block 2 proposes a policy, block 4 makes it pending and
  block 6 activates it, while block 6 still claims block 5.
\<close>

definition ex_hl :: hash_lib where
  "ex_hl = \<lparr>hash_combine = (\<lambda>_ _. sha256_zero), hash_ref = (\<lambda>_. sha256_zero), hash_l3 = (\<lambda>_. sha256_zero),
            hash_l2 = (\<lambda>_. sha256_zero), hash_fd = (\<lambda>_. sha256_zero), hash_policy = (\<lambda>_. sha256_zero),
            hash_base = (\<lambda>_. sha256_zero), hash_header = (\<lambda>_. sha256_zero)\<rparr>"

definition ex_pol :: "u32 \<Rightarrow> finalizer_policy" where
  "ex_pol g = \<lparr>generation = g, threshold = 2, finalizers = [ex_finalizer 1 1, ex_finalizer 2 1, ex_finalizer 3 1]\<rparr>"

definition ex_header :: "u32 \<Rightarrow> block_header" where
  "ex_header n = \<lparr>hdr_timestamp = n, producer = 0, confirmed = 0, previous = calculate_id sha256_zero (n - 1),
     transaction_mroot = sha256_zero, action_mroot = sha256_zero, schedule_version = proper_svnn_schedule_version,
     new_producers = None, header_extensions = []\<rparr>"

definition ex_state :: "u32 \<Rightarrow> finality_core \<Rightarrow> u32 \<Rightarrow> (u32 \<times> u32) option \<Rightarrow> (u32 \<times> u32) list \<Rightarrow> u32 option \<Rightarrow> u32 \<Rightarrow> u32 \<Rightarrow> block_header_state" where
  "ex_state n c a p ps l g ts = \<lparr>bhs_block_id = calculate_id sha256_zero n, header = ex_header n, activated_protocol_features = {},
     core = c, active_policy = ex_pol a,
     active_proposer_policy = Ptr 0 \<lparr>proposal_time = 0, proposer_schedule = \<lparr>version = 1, producers = []\<rparr>\<rparr>,
     latest_proposed_proposer_policy = None, latest_pending_proposer_policy = None,
     proposed_finalizer_policies = map (map_prod (\<lambda>x. x) ex_pol) ps,
     pending_policy = map_option (map_prod (\<lambda>x. x) ex_pol) p,
     latest_qc_claim_block_active_finalizer_policy = map_option ex_pol l, finalizer_policy_generation = g,
     last_pending_finalizer_policy_digest = sha256_zero, last_pending_finalizer_policy_start_timestamp = ts, header_exts = []\<rparr>"

definition ex_fext :: "u32 \<Rightarrow> bool \<Rightarrow> bool \<Rightarrow> finality_extension" where
  "ex_fext q strong new = \<lparr>f_qc_claim = ex_claim q strong,
     new_finalizer_policy_diff = (if new then Some \<lparr>diff_generation = 2, diff_threshold = 2,
        finalizers_diff = \<lparr>remove_indexes = [], insert_indexes = []\<rparr>\<rparr> else None),
     new_proposer_policy_diff = None\<rparr>"

definition ex_bref :: "u32 \<Rightarrow> u32 \<Rightarrow> u32 \<Rightarrow> block_ref" where
  "ex_bref n a p = \<lparr>block_id = calculate_id sha256_zero n, timestamp = n, finality_digest = sha256_zero,
     active_policy_generation = a, pending_policy_generation = p\<rparr>"

definition ex_link :: "u32 \<Rightarrow> u32 \<Rightarrow> bool \<Rightarrow> qc_link" where
  "ex_link a b c = \<lparr>source_block_num = a, target_block_num = b, is_link_strong = c\<rparr>"

definition ex_s1 :: block_header_state where
  "ex_s1 = ex_state 1 \<lparr>links = [ex_link 1 1 False], refs = [], genesis_timestamp = 1\<rparr> 1 None [] None 1 1"

definition ex_s2 :: block_header_state where
  "ex_s2 = ex_state 2 \<lparr>links = [ex_link 1 1 False, ex_link 2 1 False], refs = [ex_bref 1 1 0], genesis_timestamp = 0\<rparr> 1 None [(2, 2)] None 2 1"

definition ex_s3 :: block_header_state where
  "ex_s3 = ex_state 3 \<lparr>links = [ex_link 2 1 False, ex_link 3 2 True], refs = [ex_bref 1 1 0, ex_bref 2 1 0], genesis_timestamp = 0\<rparr>
     1 None [(2, 2)] None 2 1"

definition ex_s4 :: block_header_state where
  "ex_s4 = ex_state 4 \<lparr>links = [ex_link 3 2 True, ex_link 4 3 True], refs = [ex_bref 2 1 0, ex_bref 3 1 0], genesis_timestamp = 0\<rparr>
     1 (Some (4, 2)) [] None 2 4"

definition ex_s5 :: block_header_state where
  "ex_s5 = ex_state 5 \<lparr>links = [ex_link 4 3 True, ex_link 5 4 True], refs = [ex_bref 3 1 0, ex_bref 4 1 2], genesis_timestamp = 0\<rparr>
     1 (Some (4, 2)) [] None 2 4"

definition ex_s6 :: block_header_state where
  "ex_s6 = ex_state 6 \<lparr>links = [ex_link 5 4 True, ex_link 6 5 True], refs = [ex_bref 4 1 2, ex_bref 5 1 2], genesis_timestamp = 0\<rparr>
     2 None [] (Some 1) 2 4"

lemma calculate_merkle_single: "calculate_merkle hc [x] = Some x"
  by (subst calculate_merkle.simps) simp

lemmas ex_eval = calculate_merkle_single ex_hl_def ex_pol_def ex_header_def ex_state_def ex_fext_def ex_bref_def ex_link_def ex_claim_def
  finish_next_def finish_proposer_policy_def finish_finality_core_def finish_finalizer_policy_def finish_qc_claim_policy_def
  evaluate_proposer_policies_for_promotion_def get_active_proposer_policy_for_block_at_def activate_proposer_policy_def
  pend_proposer_policy_def first_block_of_round_def in_same_round_def get_current_round_start_slot_def producer_repetitions_u32_def
  evaluate_finalizer_policies_for_promotion_def bhs_make_block_ref_def compute_finality_digest_def get_reversible_blocks_mroot_def
  latest_qc_claim_def current_block_num_def last_final_block_num_def get_block_reference_def is_genesis_core_def next_core_def
  get_new_block_numbers_def get_qc_link_from_def qc_claim_le_def block_ref_block_num_def num_from_id_calculate_id
  new_header_state_def header_block_num_def bhs_block_num_def bhs_timestamp_def apply_finalizer_diff_def apply_diff_def
  get_active_finalizer_policy_generation_def get_finalizer_policies_def same_ptr_def Let_def get_last_proposed_finalizer_policy_def
  word_less_nat_alt word_le_nat_alt

lemma ex_step1: "finish_next ex_hl 0 ex_s1 (new_header_state ex_s1 (ex_header 2) []) [] (ex_fext 1 False True) = Inr ex_s2"
  by (simp add: ex_s1_def ex_s2_def ex_eval)

lemma ex_step2: "finish_next ex_hl 0 ex_s2 (new_header_state ex_s2 (ex_header 3) []) [] (ex_fext 2 True False) = Inr ex_s3"
  by (simp add: ex_s2_def ex_s3_def ex_eval)

lemma ex_step3: "finish_next ex_hl 0 ex_s3 (new_header_state ex_s3 (ex_header 4) []) [] (ex_fext 3 True False) = Inr ex_s4"
  by (simp add: ex_s3_def ex_s4_def ex_eval)

lemma ex_step4: "finish_next ex_hl 0 ex_s4 (new_header_state ex_s4 (ex_header 5) []) [] (ex_fext 4 True False) = Inr ex_s5"
  by (simp add: ex_s4_def ex_s5_def ex_eval)

lemma ex_step5: "finish_next ex_hl 0 ex_s5 (new_header_state ex_s5 (ex_header 6) []) [] (ex_fext 5 True False) = Inr ex_s6"
  by (simp add: ex_s5_def ex_s6_def ex_eval)

lemma ex_previous [simp]: "previous (ex_header n) = calculate_id sha256_zero (n - 1)" "bhs_block_id (ex_state n c a p ps l g ts) = calculate_id sha256_zero n"
  by (simp_all add: ex_header_def ex_state_def)

lemma ex_chain: "header_chain ex_hl [ex_s1, ex_s2, ex_s3, ex_s4, ex_s5, ex_s6]"
proof -
  have step: "header_chain ex_hl hist \<Longrightarrow> last hist = s \<Longrightarrow> previous h = bhs_block_id s \<Longrightarrow>
      finish_next ex_hl 0 s (new_header_state s h []) [] f = Inr nxt \<Longrightarrow> header_chain ex_hl (hist @ [nxt])" for hist s h f nxt
    by (rule header_chain.extend) (auto simp: h_step_def intro!: exI)
  have "genesis_state ex_s1"
    by (simp add: genesis_state_def ex_s1_def ex_state_def create_core_for_genesis_block_def num_from_id_calculate_id
        ex_link_def bhs_block_num_def ex_pol_def)
  then have "header_chain ex_hl [ex_s1]" by (rule header_chain.genesis)
  from step[OF this _ _ ex_step1] have "header_chain ex_hl ([ex_s1] @ [ex_s2])" by (simp add: ex_s1_def)
  from step[OF this _ _ ex_step2] have "header_chain ex_hl (([ex_s1] @ [ex_s2]) @ [ex_s3])" by (simp add: ex_s2_def)
  from step[OF this _ _ ex_step3] have "header_chain ex_hl ((([ex_s1] @ [ex_s2]) @ [ex_s3]) @ [ex_s4])" by (simp add: ex_s3_def)
  from step[OF this _ _ ex_step4] have "header_chain ex_hl (((([ex_s1] @ [ex_s2]) @ [ex_s3]) @ [ex_s4]) @ [ex_s5])" by (simp add: ex_s4_def)
  from step[OF this _ _ ex_step5] show ?thesis by (simp add: ex_s5_def)
qed

theorem get_finalizer_policies_exact_witness:
  "get_finalizer_policies ex_s6 (ex_bref 5 1 2) =
     Inr \<lparr>fp_finality_digest = sha256_zero, fp_active = ex_pol 1, fp_pending = Some (ex_pol 2)\<rparr>"
proof -
  have "bhs_make_block_ref ex_hl ex_s5 = Some (ex_bref 5 1 2)" by (simp add: ex_s5_def ex_eval)
  moreover have "latest_qc_claim (core ex_s6) = Some (ex_claim 5 True)"
    by (simp add: ex_s6_def ex_state_def latest_qc_claim_def ex_link_def ex_claim_def)
  ultimately show ?thesis
    using get_finalizer_policies_exact[OF ex_chain, of ex_s5 "ex_bref 5 1 2" "ex_claim 5 True"]
    by (simp add: ex_s1_def ex_s5_def ex_state_def ex_header_def bhs_block_num_def num_from_id_calculate_id ex_bref_def)
qed

text \<open>
  C26. A finalizer policy becomes active only after two finalities. In any chain of blocks from the
  Savanna genesis block, if the active policy of the last block is not the one of the genesis block,
  then some ancestor made it pending and is final now, and the block that proposed it was already final
  for that ancestor.
\<close>

theorem policy_active_after_two_finalities:
  assumes "header_chain hl hist" and "unat (bhs_block_num (hd hist)) + length hist \<le> 2 ^ 32"
    and "active_policy (last hist) \<noteq> active_policy (hd hist)"
  shows "\<exists>sa\<in>set hist. \<exists>sb\<in>set hist. \<exists>l l'.
           (bhs_block_num sa, active_policy (last hist)) \<in> set (proposed_finalizer_policies sa) \<and>
           last_final_block_num (core sb) = Some l' \<and> bhs_block_num sa \<le> l' \<and>
           pending_policy sb = Some (bhs_block_num sb, active_policy (last hist)) \<and>
           last_final_block_num (core (last hist)) = Some l \<and> bhs_block_num sb \<le> l"
proof -
  have "core_ok (core (last hist))"
    by (rule chain_core_reads(1)[OF header_chain_core[OF assms(1,2)] header_chain_ne[OF assms(1)]])
  then obtain l where l: "last_final_block_num (core (last hist)) = Some l" by (simp add: core_reads)
  with header_chain_life[OF assms(1,2)] assms(3) have "pended_in hist (active_policy (last hist)) l"
    unfolding life_ok_def by blast
  with l show ?thesis unfolding pended_in_def proposed_in_def by blast
qed

theorem policy_active_after_two_finalities_witness:
  "\<exists>sb\<in>set [ex_s1, ex_s2, ex_s3, ex_s4, ex_s5, ex_s6].
     pending_policy sb = Some (bhs_block_num sb, ex_pol 2) \<and> bhs_block_num sb \<le> 4"
proof -
  have "unat (bhs_block_num ex_s1) + 6 \<le> 2 ^ 32" "active_policy ex_s6 = ex_pol 2" "active_policy ex_s1 = ex_pol 1"
      "last_final_block_num (core ex_s6) = Some 4" "ex_pol 2 \<noteq> ex_pol 1"
    by (simp_all add: ex_s1_def ex_s6_def ex_state_def ex_header_def bhs_block_num_def num_from_id_calculate_id
        last_final_block_num_def ex_link_def ex_pol_def)
  with policy_active_after_two_finalities[OF ex_chain] show ?thesis by auto
qed

end
