(* ===== verification/Header_Agreement.thy ===== *)
theory Header_Agreement
  imports Policy_History
begin

text \<open>
  Two nodes and one header: the header that \<^verbatim>\<open>block_header_state::next(block_header_state_input&)\<close> assembles is
  accepted by \<^verbatim>\<open>block_header_state::next(const signed_block_header&, validator_t&)\<close> of any node that has the same
  parent state, and both compute the same state. Also the rounds of producers and the promotion of proposer
  policies.
\<close>

section \<open>Assembled headers are accepted\<close>

text \<open>What \<^verbatim>\<open>fc::raw::unpack\<close> promises for an extension: it inverts \<^verbatim>\<open>fc::raw::pack\<close>.\<close>

definition codec_inverts :: "ext_codec \<Rightarrow> u16 \<Rightarrow> block_header_extension \<Rightarrow> bool" where
  "codec_inverts cod eid e \<longleftrightarrow> ext_extract cod eid (ext_pack cod e) = Some e"

lemma finish_next_keeps:
  assumes "finish_next hl fresh prev (new_header_state prev h exts) features f = Inr n"
  shows "header n = h" and "features \<noteq> [] \<Longrightarrow> distinct features"
proof -
  from assms obtain feats n1 n2 n3 n4 where
    n0: "(if features \<noteq> [] then add_protocol_features (activated_protocol_features prev) features
         else Inr (activated_protocol_features prev)) = Inr feats"
    and n1: "finish_proposer_policy fresh prev ((new_header_state prev h exts)\<lparr>activated_protocol_features := feats\<rparr>) f = Inr n1"
    and n2: "finish_finality_core hl prev n1 f = Inr n2" and n3: "finish_finalizer_policy hl prev n2 f = Inr n3"
    and n4: "finish_qc_claim_policy prev n3 = Inr n4"
    and n: "n = n4\<lparr>bhs_block_id := calculate_id (hash_header hl (header n4)) (header_block_num (header n4))\<rparr>"
    by (auto simp: finish_next_def bind_res_Inr_iff)
  show "distinct features" if "features \<noteq> []"
    using n0 that by (simp add: add_protocol_features_def res_simps)
  have h1: "header n1 = h" "pending_policy n1 = None" "proposed_finalizer_policies n1 = []"
    using finish_proposer_policy_keeps[OF n1] by (simp_all add: new_header_state_def)
  obtain ref c where c: "next_core (core prev) ref (f_qc_claim f) = Some c" and n2': "n2 = n1\<lparr>core := c\<rparr>"
    using n2 by (auto simp: finish_finality_core_def res_simps)
  obtain lib where lib: "last_final_block_num (core n2) = Some lib"
    using next_core_links_ne[OF c] by (simp add: core_reads n2')
  have "header n3 = header n2"
    by (rule finish_finalizer_policy_spec[OF n3 lib]) (use h1 n2' in simp_all)
  moreover have "header n4 = header n3"
    by (rule finish_qc_claim_policy_spec[OF n4]) simp
  ultimately show "header n = h" using h1 n2' by (simp add: n)
qed

lemma assembled_extensions_extracted:
  assumes "codec_inverts cod finality_extension_id (finality_ext f)"
    and "features \<noteq> [] \<Longrightarrow> codec_inverts cod pfa_extension_id (protocol_feature_activation features)"
  shows "extract_loop cod True 0 (assembled_extensions cod features f) [] = Inr (assembled_header_exts features f)"
proof (cases "features = []")
  case True
  then show ?thesis using assms(1)
    by (simp add: assembled_extensions_def assembled_header_exts_def codec_inverts_def finality_extension_id_def)
next
  case False
  with assms show ?thesis
    by (simp add: assembled_extensions_def assembled_header_exts_def codec_inverts_def finality_extension_id_def
        pfa_extension_id_def Let_def word_less_nat_alt)
qed

lemma assembled_find:
  "find_finality_ext (assembled_header_exts features f) = Some f"
  "find_pfa (assembled_header_exts features f) = (if features = [] then None else Some features)"
  by (simp_all add: find_finality_ext_def find_pfa_def assembled_header_exts_def finality_extension_id_def pfa_extension_id_def)

text \<open>The producer and the other nodes agree, for any encoding of the extensions that can be inverted.\<close>

lemma assembled_header_agrees:
  assumes "next_assembled hl cod fresh s inp = Inr s'"
    and "\<And>f. assembled_finality_extension s inp = Inr f \<Longrightarrow> codec_inverts cod finality_extension_id (finality_ext f)"
    and "\<And>fs. fs = new_protocol_feature_activations inp \<Longrightarrow> fs \<noteq> [] \<Longrightarrow> distinct fs \<Longrightarrow>
      codec_inverts cod pfa_extension_id (protocol_feature_activation fs)"
    and "parent_id inp = bhs_block_id s"
    and "get_producer_for_block_at s (in_timestamp inp) = Some pr" and "in_producer inp = producer_name pr"
    and "next_metadata (core s) (most_recent_ancestor_with_qc inp) = Some md"
    and "is_genesis_block_num (core s) (md_latest_qc_claim_block_num md) = Some (sha256_empty (finality_mroot_claim inp))"
    and "new_protocol_feature_activations inp \<noteq> [] \<Longrightarrow>
      validator (bhs_timestamp s) (activated_protocol_features s) (new_protocol_feature_activations inp) = Inr ()"
  shows "next_received hl cod validator fresh s (header s') = Inr s'"
proof -
  let ?fs = "new_protocol_feature_activations inp"
  obtain f where f: "assembled_finality_extension s inp = Inr f"
    and fin: "finish_next hl fresh s (new_header_state s (assembled_header inp (assembled_extensions cod ?fs f))
                (assembled_header_exts ?fs f)) ?fs f = Inr s'"
    using assms(1) by (auto simp: next_assembled_def Let_def res_simps)
  let ?h = "assembled_header inp (assembled_extensions cod ?fs f)"
  note keeps = finish_next_keeps[OF fin]
  have claim: "f_qc_claim f = most_recent_ancestor_with_qc inp"
    using f by (auto simp: assembled_finality_extension_def res_simps)
  have ext: "validate_and_extract_header_extensions cod ?h = Inr (assembled_header_exts ?fs f)"
    using assembled_extensions_extracted[OF assms(2)[OF f]] assms(3)[OF refl] keeps(2)
    by (simp add: validate_and_extract_header_extensions_def assembled_header_def)
  have feats: "(case (if ?fs = [] then None else Some ?fs) of None \<Rightarrow> Inr []
       | Some fs \<Rightarrow> bind_res (validator (bhs_timestamp s) (activated_protocol_features s) fs) (\<lambda>_. Inr fs)) = Inr ?fs"
    using assms(9) by simp
  have h: "hdr_timestamp ?h = in_timestamp inp" "previous ?h = bhs_block_id s" "producer ?h = producer_name pr"
    "new_producers ?h = None" "action_mroot ?h = finality_mroot_claim inp"
    using assms(4,6) by (simp_all add: assembled_header_def)
  show ?thesis
    unfolding keeps(1) next_received_def h assembled_find ext bind_res_simps feats
    using assms(5,7,8) claim fin by (simp add: assembled_find feats)
qed

definition ex_schedule :: producer_authority_schedule where
  "ex_schedule = \<lparr>version = 1, producers = [\<lparr>producer_name = 5, authority = block_signing_authority_v0 1 []\<rparr>]\<rparr>"

definition ex_parent :: block_header_state where
  "ex_parent = ex_s1\<lparr>active_proposer_policy := Ptr 0 \<lparr>proposal_time = 0, proposer_schedule = ex_schedule\<rparr>\<rparr>"

definition ex_input :: block_header_state_input where
  "ex_input = \<lparr>parent_id = calculate_id sha256_zero 1, parent_timestamp = 1, in_timestamp = 2, in_producer = 5,
     new_protocol_feature_activations = [], in_transaction_mroot = sha256_zero, new_proposer_policy = None,
     new_finalizer_policy = None, most_recent_ancestor_with_qc = ex_claim 1 False, finality_mroot_claim = sha256_zero\<rparr>"

section \<open>Rounds and proposer policies\<close>

lemma unat_round_start: "unat (get_current_round_start_slot t) = 12 * (unat t div 12)"
proof -
  have "unat (t mod 12) = unat t mod 12" by (simp add: unat_mod)
  then have "unat (get_current_round_start_slot t) = unat t - unat t mod 12"
    unfolding get_current_round_start_slot_def producer_repetitions_u32_def
    by (subst unat_sub) (simp_all add: word_le_nat_alt)
  then show ?thesis by (simp add: minus_mod_eq_mult_div)
qed

lemma next_multiple_le_iff: "12 * (a div 12) + 12 \<le> b \<longleftrightarrow> a < 12 * (b div 12)" for a b :: nat
proof -
  have "12 * (a div 12) + 12 \<le> b \<longleftrightarrow> Suc (a div 12) \<le> b div 12"
    by (simp add: less_eq_div_iff_mult_less_eq algebra_simps)
  also have "\<dots> \<longleftrightarrow> a < 12 * (b div 12)"
    by (simp add: Suc_le_eq div_less_iff_less_mult mult.commute)
  finally show ?thesis .
qed

text \<open>The two tests of a round boundary agree below the last round of the 32-bit slots.\<close>

lemma not_same_round_iff_first:
  assumes "curr_ts < next_ts" and "unat curr_ts + 12 < 2 ^ 32"
  shows "\<not> in_same_round next_ts curr_ts \<longleftrightarrow> first_block_of_round next_ts curr_ts = Some True"
proof -
  have "unat (get_current_round_start_slot curr_ts + 12) = 12 * (unat curr_ts div 12) + 12"
    using assms(2) by (subst unat_add_lem[THEN iffD1]) (simp_all add: unat_round_start)
  then have "\<not> in_same_round next_ts curr_ts \<longleftrightarrow> 12 * (unat curr_ts div 12) + 12 \<le> unat next_ts"
    by (simp add: in_same_round_def producer_repetitions_u32_def word_less_nat_alt not_less)
  also have "\<dots> \<longleftrightarrow> unat curr_ts < 12 * (unat next_ts div 12)"
    by (rule next_multiple_le_iff)
  finally show ?thesis
    using assms(1) by (simp add: first_block_of_round_def word_less_nat_alt unat_round_start)
qed

lemma active_proposer_policy_cases:
  assumes "get_active_proposer_policy_for_block_at s ts = Some a" and "a \<noteq> active_proposer_policy s"
  obtains final_ts where "\<not> in_same_round ts (bhs_timestamp s)" and "bhs_timestamp s < ts"
    and "last_final_block_timestamp (core s) = Some final_ts" and "proposal_time (deref a) \<le> final_ts"
    and "latest_pending_proposer_policy s = Some a \<or>
      latest_proposed_proposer_policy s = Some a \<and>
        (\<exists>r. get_prior_round_start_slot (bhs_timestamp s) = Some r \<and> proposal_time (deref a) < r)"
  using assms
  by (auto simp: get_active_proposer_policy_for_block_at_def bind_eq_Some_conv res_simps split: if_splits option.splits)

text \<open>
  C28. When a proposer policy takes over. If the step to a block changes the active proposer policy, then the
  block is the first one of its round, the new policy was proposed no later than the last final block of the
  parent, and it was the pending policy or one proposed before the prior round.
\<close>

theorem proposer_policy_activation:
  assumes "finish_proposer_policy fresh prev nxt f = Inr n" and "unat (bhs_timestamp prev) + 12 < 2 ^ 32"
    and "active_proposer_policy n \<noteq> active_proposer_policy prev"
  shows "first_block_of_round (bhs_timestamp nxt) (bhs_timestamp prev) = Some True \<and>
    (\<exists>final_ts. last_final_block_timestamp (core prev) = Some final_ts \<and>
                proposal_time (deref (active_proposer_policy n)) \<le> final_ts) \<and>
    (latest_pending_proposer_policy prev = Some (active_proposer_policy n) \<or>
     latest_proposed_proposer_policy prev = Some (active_proposer_policy n) \<and>
       (\<exists>r. get_prior_round_start_slot (bhs_timestamp prev) = Some r \<and>
            proposal_time (deref (active_proposer_policy n)) < r))"
proof -
  let ?m = "nxt\<lparr>active_proposer_policy := active_proposer_policy prev,
            latest_proposed_proposer_policy := latest_proposed_proposer_policy prev,
            latest_pending_proposer_policy := latest_pending_proposer_policy prev\<rparr>"
  obtain m where m: "evaluate_proposer_policies_for_promotion prev ?m = Some m"
    and c: "(case new_proposer_policy_diff f of None \<Rightarrow> Inr m
      | Some d \<Rightarrow> bind_res (apply_proposer_diff (get_last_proposed_proposer_policy prev) d) (\<lambda>p.
                 Inr (m\<lparr>latest_proposed_proposer_policy := Some (Ptr fresh p)\<rparr>))) = Inr n"
    using assms(1) unfolding finish_proposer_policy_def bind_res_Inr_iff asserted_Inr_iff by blast
  have n: "active_proposer_policy n = active_proposer_policy m"
    using c by (cases "new_proposer_policy_diff f") (auto simp: bind_res_Inr_iff)
  obtain a i where a: "get_active_proposer_policy_for_block_at prev (bhs_timestamp ?m) = Some a"
    and m': "m = pend_proposer_policy i (activate_proposer_policy a ?m)"
    using m unfolding evaluate_proposer_policies_for_promotion_def bind_eq_Some_conv by blast
  have "active_proposer_policy m = a \<or> active_proposer_policy m = active_proposer_policy prev"
    unfolding m' pend_proposer_policy_def activate_proposer_policy_def by simp
  with assms(3) n have eq: "active_proposer_policy n = a" and ne: "a \<noteq> active_proposer_policy prev" by auto
  have ts: "bhs_timestamp ?m = bhs_timestamp nxt" by (simp add: bhs_timestamp_def)
  show ?thesis
    unfolding eq
    by (rule active_proposer_policy_cases[OF a[unfolded ts] ne])
      (use not_same_round_iff_first[OF _ assms(2), of "bhs_timestamp nxt"] in blast)
qed

definition ex_pending_state :: block_header_state where
  "ex_pending_state = ex_parent\<lparr>header := (ex_header 1)\<lparr>hdr_timestamp := 11\<rparr>,
     latest_pending_proposer_policy := Some (Ptr 1 \<lparr>proposal_time = 1, proposer_schedule = ex_schedule\<rparr>)\<rparr>"

theorem proposer_policy_activation_witness:
  "\<exists>n. finish_proposer_policy 9 ex_pending_state (ex_pending_state\<lparr>header := (ex_header 2)\<lparr>hdr_timestamp := 12\<rparr>\<rparr>) (ex_fext 1 False False) = Inr n \<and>
       active_proposer_policy n = Ptr 1 \<lparr>proposal_time = 1, proposer_schedule = ex_schedule\<rparr> \<and>
       first_block_of_round 12 11 = Some True"
proof -
  let ?nxt = "ex_pending_state\<lparr>header := (ex_header 2)\<lparr>hdr_timestamp := 12\<rparr>\<rparr>"
  obtain n where n: "finish_proposer_policy 9 ex_pending_state ?nxt (ex_fext 1 False False) = Inr n"
    and act: "active_proposer_policy n = Ptr 1 \<lparr>proposal_time = 1, proposer_schedule = ex_schedule\<rparr>"
    by (simp add: ex_pending_state_def ex_parent_def ex_s1_def ex_eval last_final_block_timestamp_def get_prior_round_start_slot_def)
  have "unat (bhs_timestamp ex_pending_state) + 12 < 2 ^ 32" "active_proposer_policy n \<noteq> active_proposer_policy ex_pending_state"
    using act by (simp_all add: ex_pending_state_def ex_parent_def bhs_timestamp_def)
  from proposer_policy_activation[OF n this] n act show ?thesis
    by (simp add: bhs_timestamp_def ex_pending_state_def)
qed

end
