(* ===== verification/Block_State.thy ===== *)
theory Block_State
  imports Aggregating_Qc Policy_History
begin

text \<open>
  The Savanna block state (block\_state.hpp, block\_state.cpp, block.hpp, block.cpp): a header state with
  the block it belongs to, the digests that finalizers sign, the vote aggregator, and the validation trees
  that the finality claims of later blocks refer to. The recovery of a public key from a signature
  and the packing of block extensions are arguments. The cache of transaction metadata and the
  transactions of the block are not part of the model.
\<close>

section \<open>Blocks and their signatures\<close>

type_synonym signature_type = "u8 list"

record signed_block =
  sb_header :: block_header
  producer_signature :: signature_type
  block_extensions :: extensions_type

datatype block_extension =
    additional_block_signatures_extension "signature_type list"
  | quorum_certificate_extension qc_t

definition additional_sigs_eid :: u16 where "additional_sigs_eid = 2"
definition qc_extension_id :: u16 where "qc_extension_id = 3"

text \<open>\<^verbatim>\<open>fc::raw::pack\<close> and \<^verbatim>\<open>decompose_t::extract\<close> of block extensions, and \<^verbatim>\<open>fc::crypto::public_key(sig, digest, true)\<close>.\<close>

record block_lib =
  bext_extract :: "u16 \<Rightarrow> u8 list \<Rightarrow> block_extension option"
  bext_pack :: "block_extension \<Rightarrow> u8 list"
  recover_key :: "signature_type \<Rightarrow> block_id_type \<Rightarrow> public_key_type res"

fun extract_extensions_loop ::
    "block_lib \<Rightarrow> bool \<Rightarrow> u16 \<Rightarrow> extensions_type \<Rightarrow> (u16 \<times> block_extension) list \<Rightarrow> (u16 \<times> block_extension) list res" where
  "extract_extensions_loop bl is_first lower [] results = Inr results"
| "extract_extensions_loop bl is_first lower ((eid, bytes) # es) results =
     bind_res (eos_assert (eid \<ge> lower) invalid_block_extension) (\<lambda>_.
     case bext_extract bl eid bytes of
       None \<Rightarrow> Inl invalid_block_extension
     | Some e \<Rightarrow>
         bind_res (eos_assert (is_first \<or> eid > lower) invalid_block_header_extension) (\<lambda>_.
         extract_extensions_loop bl False eid es (results @ [(eid, e)])))"

definition validate_and_extract_extensions :: "block_lib \<Rightarrow> signed_block \<Rightarrow> (u16 \<times> block_extension) list res" where
  "validate_and_extract_extensions bl b = extract_extensions_loop bl True 0 (block_extensions b) []"

definition contains_extension :: "signed_block \<Rightarrow> u16 \<Rightarrow> bool" where
  "contains_extension b eid = list_ex (\<lambda>p. fst p = eid) (block_extensions b)"

text \<open>
  \<^verbatim>\<open>std::ranges::is_sorted\<close> on a vector of extensions: pairs are compared by id and then by their bytes, which are
  signed characters.
\<close>

fun bytes_less :: "u8 list \<Rightarrow> u8 list \<Rightarrow> bool" where
  "bytes_less _ [] = False"
| "bytes_less [] (_ # _) = True"
| "bytes_less (x # xs) (y # ys) = (sint x < sint y \<or> x = y \<and> bytes_less xs ys)"

fun extensions_sorted :: "extensions_type \<Rightarrow> bool" where
  "extensions_sorted ((i, x) # (j, y) # es) =
     (\<not> (j < i \<or> j = i \<and> bytes_less y x) \<and> extensions_sorted ((j, y) # es))"
| "extensions_sorted _ = True"

text \<open>\<^verbatim>\<open>signed_block::extract_extension\<close>, which stops at the first larger id.\<close>

fun extract_extension_loop :: "block_lib \<Rightarrow> u16 \<Rightarrow> extensions_type \<Rightarrow> block_extension option res" where
  "extract_extension_loop bl eid [] = Inr None"
| "extract_extension_loop bl eid ((i, bytes) # es) =
     (if i > eid then Inr None
      else if i \<noteq> eid then extract_extension_loop bl eid es
      else case bext_extract bl i bytes of
        None \<Rightarrow> Inl invalid_block_extension
      | Some e \<Rightarrow> Inr (Some e))"

definition extract_extension :: "block_lib \<Rightarrow> signed_block \<Rightarrow> u16 \<Rightarrow> block_extension option res" where
  "extract_extension bl b eid =
     bind_res (asserted (assert_opt (extensions_sorted (block_extensions b)))) (\<lambda>_.
     extract_extension_loop bl eid (block_extensions b))"

definition extract_additional_signatures :: "block_lib \<Rightarrow> signed_block \<Rightarrow> signature_type list res" where
  "extract_additional_signatures bl b =
     bind_res (validate_and_extract_extensions bl b) (\<lambda>exts.
     Inr (case map_of exts additional_sigs_eid of
            Some (additional_block_signatures_extension sigs) \<Rightarrow> sigs
          | _ \<Rightarrow> []))"

fun recover_additional ::
    "block_lib \<Rightarrow> block_id_type \<Rightarrow> signature_type list \<Rightarrow> public_key_type set \<Rightarrow> public_key_type set res" where
  "recover_additional bl bid [] keys = Inr keys"
| "recover_additional bl bid (s # ss) keys =
     bind_res (recover_key bl s bid) (\<lambda>k.
     bind_res (eos_assert (k \<notin> keys) wrong_signing_key) (\<lambda>_.
     recover_additional bl bid ss (insert k keys)))"

definition verify_signee ::
    "block_lib \<Rightarrow> signature_type \<Rightarrow> block_id_type \<Rightarrow> signature_type list \<Rightarrow> block_signing_authority \<Rightarrow> unit res" where
  "verify_signee bl psig bid additional auth =
     bind_res (eos_assert (1 + length additional \<le> length (bsa_keys auth)) wrong_signing_key) (\<lambda>_.
     bind_res (recover_key bl psig bid) (\<lambda>k.
     bind_res (recover_additional bl bid additional {k}) (\<lambda>keys.
     let (is_satisfied, relevant_sig_count) = keys_satisfy_and_relevant keys auth in
     bind_res (eos_assert (relevant_sig_count = card keys) wrong_signing_key) (\<lambda>_.
     eos_assert is_satisfied wrong_signing_key))))"

definition signed_block_id :: "hash_lib \<Rightarrow> signed_block \<Rightarrow> block_id_type" where
  "signed_block_id hl b = calculate_id (hash_header hl (sb_header b)) (header_block_num (sb_header b))"

definition verify_block_sig :: "hash_lib \<Rightarrow> block_lib \<Rightarrow> block_header_state \<Rightarrow> signed_block \<Rightarrow> bool \<Rightarrow> unit res" where
  "verify_block_sig hl bl prev b skip_validate_signee =
     (if skip_validate_signee then Inr ()
      else bind_res (extract_additional_signatures bl b) (\<lambda>sigs.
           bind_res (asserted (get_producer_for_block_at prev (hdr_timestamp (sb_header b)))) (\<lambda>pr.
           verify_signee bl (producer_signature b) (signed_block_id hl b) sigs (authority pr))))"

definition inject_additional_signatures :: "block_lib \<Rightarrow> signature_type list \<Rightarrow> signed_block \<Rightarrow> signed_block" where
  "inject_additional_signatures bl sigs b =
     (if sigs \<noteq> [] then b\<lparr>block_extensions := emplace_extension (block_extensions b) additional_sigs_eid
                             (bext_pack bl (additional_block_signatures_extension sigs))\<rparr>
      else b)"

text \<open>\<^verbatim>\<open>sign\<close>: the callback \<open>signer\<close> returns the signatures, the last of which is the producer's.\<close>

definition sign :: "block_lib \<Rightarrow> (block_id_type \<Rightarrow> signature_type list) \<Rightarrow> block_id_type \<Rightarrow> block_signing_authority \<Rightarrow>
    signed_block \<Rightarrow> signed_block res" where
  "sign bl signer bid auth b =
     (let sigs = signer bid in
      bind_res (eos_assert (sigs \<noteq> []) no_block_signatures) (\<lambda>_.
      bind_res (verify_signee bl (last sigs) bid (butlast sigs) auth) (\<lambda>_.
      Inr (inject_additional_signatures bl (butlast sigs) (b\<lparr>producer_signature := last sigs\<rparr>)))))"

section \<open>The block state\<close>

record finality_leaf_node_t =
  leaf_major_version :: u32
  leaf_minor_version :: u32
  leaf_block_num :: block_num_type
  leaf_timestamp :: block_timestamp_type
  leaf_parent_timestamp :: block_timestamp_type
  leaf_finality_digest :: digest_type
  leaf_action_mroot :: digest_type

record valid_t =
  validation_tree :: incremental_merkle_tree
  validation_mroots :: "digest_type list"

record block_state =
  bhs :: block_header_state
  bs_block :: signed_block
  strong_digest :: digest_type
  weak_digest :: "u8 list"
  aggregating_qc :: aggregating_qc_t
  valid :: "valid_t option"
  validated :: bool
  bs_action_mroot :: digest_type
  bs_base_digest :: "digest_type option"

text \<open>The members that the constructors derive from the header state.\<close>

definition block_state_of ::
    "hash_lib \<Rightarrow> bls_lib \<Rightarrow> block_header_state \<Rightarrow> signed_block \<Rightarrow> valid_t option \<Rightarrow> digest_type \<Rightarrow> block_state option" where
  "block_state_of hl lib s b v mroot = do {
     d \<leftarrow> compute_finality_digest hl s;
     Some \<lparr>bhs = s, bs_block = b, strong_digest = d, weak_digest = create_weak_digest d,
           aggregating_qc = aggregating_qc_init lib (active_policy s) (map_option snd (pending_policy s)),
           valid = v, validated = False, bs_action_mroot = mroot, bs_base_digest = None\<rparr>
   }"

definition block_state_received ::
    "hash_lib \<Rightarrow> ext_codec \<Rightarrow> block_lib \<Rightarrow> bls_lib \<Rightarrow> (block_timestamp_type \<Rightarrow> digest_type set \<Rightarrow> digest_type list \<Rightarrow> unit res) \<Rightarrow>
     nat \<Rightarrow> block_header_state \<Rightarrow> signed_block \<Rightarrow> bool \<Rightarrow> block_state res" where
  "block_state_received hl cod bl lib validator fresh prev b skip_validate_signee =
     bind_res (verify_block_sig hl bl prev b skip_validate_signee) (\<lambda>_.
     bind_res (next_received hl cod validator fresh prev (sb_header b)) (\<lambda>s.
     asserted (block_state_of hl lib s b None sha256_zero)))"

definition block_state_assembled ::
    "hash_lib \<Rightarrow> block_lib \<Rightarrow> bls_lib \<Rightarrow> block_header_state \<Rightarrow> valid_t option \<Rightarrow> qc_t option \<Rightarrow>
     (block_id_type \<Rightarrow> signature_type list) \<Rightarrow> block_signing_authority \<Rightarrow> digest_type \<Rightarrow> block_state res" where
  "block_state_assembled hl bl lib s v qc signer auth mroot =
     (let exts = (case qc of None \<Rightarrow> []
                  | Some q \<Rightarrow> emplace_extension [] qc_extension_id (bext_pack bl (quorum_certificate_extension q))) in
      bind_res (sign bl signer (bhs_block_id s) auth
                  \<lparr>sb_header = header s, producer_signature = [], block_extensions = exts\<rparr>) (\<lambda>b.
      asserted (block_state_of hl lib s b v mroot)))"

definition bs_make_block_ref :: "block_state \<Rightarrow> block_ref" where
  "bs_make_block_ref bs =
     \<lparr>block_id = bhs_block_id (bhs bs), timestamp = bhs_timestamp (bhs bs), finality_digest = strong_digest bs,
      active_policy_generation = generation (active_policy (bhs bs)),
      pending_policy_generation = (case pending_policy (bhs bs) of Some (_, p) \<Rightarrow> generation p | None \<Rightarrow> 0)\<rparr>"

definition bs_get_finalizer_policies :: "block_state \<Rightarrow> block_num_type \<Rightarrow> finalizer_policies_t res" where
  "bs_get_finalizer_policies bs num =
     (if num = bhs_block_num (bhs bs) then get_finalizer_policies (bhs bs) (bs_make_block_ref bs)
      else bind_res (asserted (get_block_reference (core (bhs bs)) num)) (get_finalizer_policies (bhs bs)))"

definition bs_verify_qc :: "bls_lib \<Rightarrow> block_state \<Rightarrow> qc_t \<Rightarrow> unit res" where
  "bs_verify_qc lib bs q =
     bind_res (bs_get_finalizer_policies bs (qc_block_num q)) (\<lambda>policies.
     aggregating_verify_qc lib (aggregating_qc_init lib (fp_active policies) (fp_pending policies)) q
       (fp_finality_digest policies) (create_weak_digest (fp_finality_digest policies)))"

definition bs_aggregate_vote :: "bls_lib \<Rightarrow> vote_message \<Rightarrow> block_state \<Rightarrow> (aggregate_vote_result_t \<times> block_state) option" where
  "bs_aggregate_vote lib vote bs = do {
     let finalizer_digest = (if vote_strong vote then sha256_data (strong_digest bs) else weak_digest bs);
     (r, agg) \<leftarrow> aggregate_vote lib vote finalizer_digest (aggregating_qc bs);
     Some (r, bs\<lparr>aggregating_qc := agg\<rparr>)
   }"

definition bs_has_voted :: "block_state \<Rightarrow> bls_public_key \<Rightarrow> vote_status_t res" where
  "bs_has_voted bs k = has_voted (aggregating_qc bs) k"

definition bs_received_qc_is_strong :: "block_state \<Rightarrow> bool" where
  "bs_received_qc_is_strong bs = received_qc_is_strong (aggregating_qc bs)"

definition bs_get_best_qc :: "bls_lib \<Rightarrow> block_state \<Rightarrow> qc_t option res" where
  "bs_get_best_qc lib bs = get_best_qc lib (aggregating_qc bs) (bhs_block_num (bhs bs))"

definition bs_set_received_qc :: "qc_t \<Rightarrow> block_state \<Rightarrow> (bool \<times> block_state) res" where
  "bs_set_received_qc q bs =
     bind_res (set_received_qc q (aggregating_qc bs)) (\<lambda>(better, agg). Inr (better, bs\<lparr>aggregating_qc := agg\<rparr>))"

definition extract_qc_claim :: "block_state \<Rightarrow> qc_claim_t" where
  "extract_qc_claim bs =
     (case find_finality_ext (header_exts (bhs bs)) of
        Some f \<Rightarrow> f_qc_claim f
      | None \<Rightarrow> \<lparr>block_num = 0, is_strong_qc = False\<rparr>)"

section \<open>Validation trees\<close>

definition leaf_node_of ::
    "block_num_type \<Rightarrow> block_timestamp_type \<Rightarrow> block_timestamp_type \<Rightarrow> digest_type \<Rightarrow> digest_type \<Rightarrow> finality_leaf_node_t" where
  "leaf_node_of bn ts parent_ts sdigest mroot =
     \<lparr>leaf_major_version = 1, leaf_minor_version = 0, leaf_block_num = bn, leaf_timestamp = ts,
      leaf_parent_timestamp = parent_ts, leaf_finality_digest = sdigest, leaf_action_mroot = mroot\<rparr>"

text \<open>\<open>hash_leaf\<close> stands for \<^verbatim>\<open>fc::sha256::hash(finality_leaf_node_t)\<close>.\<close>

definition new_valid ::
    "hash_lib \<Rightarrow> (finality_leaf_node_t \<Rightarrow> digest_type) \<Rightarrow> block_state \<Rightarrow> block_header_state \<Rightarrow> digest_type \<Rightarrow> digest_type \<Rightarrow> valid_t option" where
  "new_valid hl hash_leaf bs next_bhs mroot sdigest = do {
     v \<leftarrow> valid bs;
     next_lf \<leftarrow> last_final_block_num (core next_bhs);
     lf \<leftarrow> last_final_block_num (core (bhs bs));
     assert_opt (next_lf \<ge> lf);
     assert_opt (\<not> sha256_empty sdigest);
     let start = unat (next_lf - lf);
     assert_opt (start \<le> length (validation_mroots v));
     let leaf_node = leaf_node_of (bhs_block_num next_bhs) (bhs_timestamp next_bhs) (bhs_timestamp (bhs bs)) sdigest mroot;
     t \<leftarrow> append_digest (hash_combine hl) (hash_leaf leaf_node) (validation_tree v);
     root \<leftarrow> get_root (hash_combine hl) t;
     let mroots = drop start (validation_mroots v) @ [root];
     assert_opt (length mroots = unat (bhs_block_num next_bhs - next_lf + 1));
     Some \<lparr>validation_tree = t, validation_mroots = mroots\<rparr>
   }"

definition get_validation_mroot :: "block_state \<Rightarrow> block_num_type \<Rightarrow> digest_type res" where
  "get_validation_mroot bs target =
     (case valid bs of
        None \<Rightarrow> Inr sha256_zero
      | Some v \<Rightarrow>
          bind_res (eos_assert (validation_mroots v \<noteq> []) block_validate_exception) (\<lambda>_.
          bind_res (asserted (last_final_block_num (core (bhs bs)))) (\<lambda>lf.
          bind_res (eos_assert (lf \<le> target \<and> unat target < unat lf + length (validation_mroots v)) block_validate_exception) (\<lambda>_.
          Inr (validation_mroots v ! unat (target - lf))))))"

definition get_finality_mroot_claim :: "block_state \<Rightarrow> qc_claim_t \<Rightarrow> digest_type res" where
  "get_finality_mroot_claim bs qc_claim =
     bind_res (asserted (next_metadata (core (bhs bs)) qc_claim)) (\<lambda>md.
     bind_res (asserted (is_genesis_block_num (core (bhs bs)) (md_latest_qc_claim_block_num md))) (\<lambda>genesis.
     if genesis then Inr sha256_zero else get_validation_mroot bs (md_latest_qc_claim_block_num md)))"

section \<open>Transition from the legacy consensus\<close>

text \<open>
  \<^verbatim>\<open>block_header::extract_header_extension\<close> and what \<^verbatim>\<open>create_if_genesis_block\<close> reads of a legacy block state.
\<close>

fun extract_header_extension_loop :: "ext_codec \<Rightarrow> u16 \<Rightarrow> extensions_type \<Rightarrow> block_header_extension option res" where
  "extract_header_extension_loop cod eid [] = Inr None"
| "extract_header_extension_loop cod eid ((i, bytes) # es) =
     (if i > eid then Inr None
      else if i \<noteq> eid then extract_header_extension_loop cod eid es
      else case ext_extract cod i bytes of
        None \<Rightarrow> Inl invalid_block_header_extension
      | Some e \<Rightarrow> Inr (Some e))"

definition extract_header_extension :: "ext_codec \<Rightarrow> u16 \<Rightarrow> block_header \<Rightarrow> block_header_extension option res" where
  "extract_header_extension cod eid h =
     bind_res (asserted (assert_opt (extensions_sorted (header_extensions h)))) (\<lambda>_.
     extract_header_extension_loop cod eid (header_extensions h))"

record block_state_legacy =
  lbs_id :: block_id_type
  lbs_block_num :: block_num_type
  lbs_header :: block_header
  lbs_activated_protocol_features :: "digest_type set"
  lbs_active_schedule :: producer_authority_schedule
  lbs_header_exts :: header_extension_multimap
  lbs_block :: signed_block
  lbs_action_mroot_savanna :: "digest_type option"
  lbs_validated :: bool

definition genesis_header_state ::
    "hash_lib \<Rightarrow> nat \<Rightarrow> block_state_legacy \<Rightarrow> finalizer_policy \<Rightarrow> block_header_state" where
  "genesis_header_state hl fresh bsp policy =
     \<lparr>bhs_block_id = lbs_id bsp, header = lbs_header bsp,
      activated_protocol_features = lbs_activated_protocol_features bsp,
      core = create_core_for_genesis_block (lbs_id bsp) (hdr_timestamp (lbs_header bsp)),
      active_policy = policy,
      active_proposer_policy = Ptr fresh \<lparr>proposal_time = 0, proposer_schedule = lbs_active_schedule bsp\<rparr>,
      latest_proposed_proposer_policy = None, latest_pending_proposer_policy = None,
      proposed_finalizer_policies = [], pending_policy = None,
      latest_qc_claim_block_active_finalizer_policy = None, finalizer_policy_generation = 1,
      last_pending_finalizer_policy_digest = hash_policy hl policy,
      last_pending_finalizer_policy_start_timestamp = hdr_timestamp (lbs_header bsp),
      header_exts = lbs_header_exts bsp\<rparr>"

definition create_if_genesis_block ::
    "hash_lib \<Rightarrow> (finality_leaf_node_t \<Rightarrow> digest_type) \<Rightarrow> ext_codec \<Rightarrow> bls_lib \<Rightarrow> nat \<Rightarrow> block_state_legacy \<Rightarrow> block_state res" where
  "create_if_genesis_block hl hash_leaf cod lib fresh bsp =
     bind_res (asserted (lbs_action_mroot_savanna bsp)) (\<lambda>mroot.
     bind_res (extract_header_extension cod finality_extension_id (lbs_header bsp)) (\<lambda>ext.
     bind_res (asserted (case ext of Some (finality_ext f) \<Rightarrow> new_finalizer_policy_diff f | _ \<Rightarrow> None)) (\<lambda>d.
     bind_res (apply_finalizer_diff \<lparr>generation = 0, threshold = 0, finalizers = []\<rparr> d) (\<lambda>policy.
     let s = genesis_header_state hl fresh bsp policy in
     asserted (do {
       sdigest \<leftarrow> compute_finality_digest hl s;
       t \<leftarrow> append_digest (hash_combine hl)
              (hash_leaf (leaf_node_of (lbs_block_num bsp) (bhs_timestamp s) 0 sdigest mroot)) empty_tree;
       root \<leftarrow> get_root (hash_combine hl) t;
       bs \<leftarrow> block_state_of hl lib s (lbs_block bsp) (Some \<lparr>validation_tree = t, validation_mroots = [root]\<rparr>) mroot;
       Some (bs\<lparr>validated := lbs_validated bsp\<rparr>)
     })))))"

definition create_transition_block ::
    "hash_lib \<Rightarrow> (finality_leaf_node_t \<Rightarrow> digest_type) \<Rightarrow> ext_codec \<Rightarrow> block_lib \<Rightarrow> bls_lib \<Rightarrow>
     (block_timestamp_type \<Rightarrow> digest_type set \<Rightarrow> digest_type list \<Rightarrow> unit res) \<Rightarrow> nat \<Rightarrow>
     block_state \<Rightarrow> signed_block \<Rightarrow> bool \<Rightarrow> digest_type option \<Rightarrow> block_state res" where
  "create_transition_block hl hash_leaf cod bl lib validator fresh prev b skip mroot_opt =
     bind_res (block_state_received hl cod bl lib validator fresh (bhs prev) b skip) (\<lambda>r.
     let mroot = (case mroot_opt of Some m \<Rightarrow> m | None \<Rightarrow> sha256_zero);
         r1 = r\<lparr>bs_action_mroot := mroot\<rparr> in
     if \<not> sha256_empty mroot then
       bind_res (asserted (new_valid hl hash_leaf prev (bhs r1) mroot (strong_digest r1))) (\<lambda>v.
       Inr (r1\<lparr>valid := Some v\<rparr>))
     else Inr r1)"

section \<open>Finality data\<close>

record finality_data_t =
  fdata_active_finalizer_policy_generation :: u32
  fdata_action_mroot :: digest_type
  fdata_reversible_blocks_mroot :: digest_type
  fdata_latest_qc_claim_block_num :: block_num_type
  fdata_latest_qc_claim_finality_digest :: digest_type
  fdata_latest_qc_claim_timestamp :: block_timestamp_type
  fdata_base_digest :: digest_type
  fdata_pending_finalizer_policy :: "finalizer_policy option"
  fdata_last_pending_finalizer_policy_generation :: u32

definition get_finality_data :: "hash_lib \<Rightarrow> block_state \<Rightarrow> (finality_data_t \<times> block_state) option" where
  "get_finality_data hl bs = do {
     let base = (case bs_base_digest bs of Some d \<Rightarrow> d | None \<Rightarrow> compute_base_digest hl (bhs bs));
     claim \<leftarrow> latest_qc_claim (core (bhs bs));
     genesis \<leftarrow> is_savanna_genesis_block (bhs bs);
     (pending, fdigest, ts) \<leftarrow>
       (if genesis then Some (Some (active_policy (bhs bs)), sha256_zero, 0)
        else do {
          r \<leftarrow> get_block_reference (core (bhs bs)) (block_num claim);
          Some (case pending_policy (bhs bs) of
                  Some (bn, p) \<Rightarrow> if bn = bhs_block_num (bhs bs) then Some p else None
                | None \<Rightarrow> None, finality_digest r, timestamp r)
        });
     mroot \<leftarrow> get_reversible_blocks_mroot (hash_combine hl) (hash_ref hl) (core (bhs bs));
     Some (\<lparr>fdata_active_finalizer_policy_generation = generation (active_policy (bhs bs)),
            fdata_action_mroot = bs_action_mroot bs, fdata_reversible_blocks_mroot = mroot,
            fdata_latest_qc_claim_block_num = block_num claim, fdata_latest_qc_claim_finality_digest = fdigest,
            fdata_latest_qc_claim_timestamp = ts, fdata_base_digest = base, fdata_pending_finalizer_policy = pending,
            fdata_last_pending_finalizer_policy_generation = generation (get_last_pending_finalizer_policy (bhs bs))\<rparr>,
           bs\<lparr>bs_base_digest := Some base\<rparr>)
   }"

end
