(* ===== verification/Block_Chain.thy ===== *)
theory Block_Chain
  imports Block_State
begin

text \<open>
  Properties of block states along a chain: the validation trees, the verification of a certificate by a
  descendant of the block it is for, the signatures of a block, and the genesis block state.
\<close>

section \<open>Validation trees\<close>

text \<open>
  \<open>valid_chain hl hash_leaf ds hist\<close>: the block states of a chain from the genesis block on, each with the validation
  structure that \<^verbatim>\<open>new_valid\<close> builds from its parent; \<open>ds\<close> are the digests of the finality leaf nodes.
\<close>

inductive valid_chain ::
    "hash_lib \<Rightarrow> (finality_leaf_node_t \<Rightarrow> digest_type) \<Rightarrow> digest_type list \<Rightarrow> block_state list \<Rightarrow> bool"
    for hl hash_leaf where
  valid_genesis:
    "genesis_state (bhs bs) \<Longrightarrow> append_digest (hash_combine hl) (hash_leaf leaf) empty_tree = Some t \<Longrightarrow>
     get_root (hash_combine hl) t = Some r \<Longrightarrow> valid bs = Some \<lparr>validation_tree = t, validation_mroots = [r]\<rparr> \<Longrightarrow>
     valid_chain hl hash_leaf [hash_leaf leaf] [bs]"
| valid_extend:
    "valid_chain hl hash_leaf ds hist \<Longrightarrow> h_step hl (bhs (last hist)) (bhs bs) \<Longrightarrow>
     new_valid hl hash_leaf (last hist) (bhs bs) mroot (strong_digest bs) = Some v \<Longrightarrow> valid bs = Some v \<Longrightarrow>
     d = hash_leaf (leaf_node_of (bhs_block_num (bhs bs)) (bhs_timestamp (bhs bs)) (bhs_timestamp (bhs (last hist)))
                     (strong_digest bs) mroot) \<Longrightarrow>
     valid_chain hl hash_leaf (ds @ [d]) (hist @ [bs])"

lemma valid_chain_header: "valid_chain hl hash_leaf ds hist \<Longrightarrow> header_chain hl (map bhs hist) \<and> length ds = length hist \<and> hist \<noteq> []"
proof (induction rule: valid_chain.induct)
  case (valid_genesis bs leaf t r)
  then show ?case by (simp add: header_chain.genesis)
next
  case (valid_extend ds hist bs mroot v d)
  then have "h_step hl (last (map bhs hist)) (bhs bs)" by (simp add: last_map)
  with valid_extend show ?case by (simp add: header_chain.extend)
qed

text \<open>The root of the tree over the leaves up to position \<open>k\<close>.\<close>

definition root_upto :: "hash_lib \<Rightarrow> digest_type list \<Rightarrow> nat \<Rightarrow> digest_type" where
  "root_upto hl ds k = the (calculate_merkle (hash_combine hl) (take (Suc k) ds))"

definition valid_ok :: "hash_lib \<Rightarrow> digest_type list \<Rightarrow> nat \<Rightarrow> valid_t \<Rightarrow> bool" where
  "valid_ok hl ds first v \<longleftrightarrow>
     tree_of (hash_combine hl) ds (validation_tree v) \<and> first < length ds \<and>
     validation_mroots v = map (root_upto hl ds) [first..<length ds]"

lemma root_upto_append: "k < length ds \<Longrightarrow> root_upto hl (ds @ [d]) k = root_upto hl ds k"
  by (simp add: root_upto_def)

lemma merkle_root:
  assumes "tree_of hc ds t" and "length ds < 2 ^ 64" and "ds \<noteq> []"
  shows "get_root hc t = Some (the (calculate_merkle hc ds))"
proof -
  have "tree_mask t \<noteq> 0" "trees t \<noteq> []" using assms by (auto simp: tree_of_def peaks_eq_Nil)
  then have "get_root hc t \<noteq> None" by (simp add: get_root_def)
  then show ?thesis using tree_of_root[OF assms(1,2)] by (metis option.collapse)
qed

lemma merkle_total:
  assumes "ds \<noteq> []" and "length ds < 2 ^ 64"
  shows "asserted (calculate_merkle hc ds) = Inr (the (calculate_merkle hc ds))"
proof -
  obtain t where t: "tree_of hc ds t" using append_all_correct[OF tree_of_empty, of ds hc] assms(2) by auto
  from merkle_root[OF t assms(2,1)] tree_of_root[OF t assms(2)] show ?thesis by (metis asserted_simps(2))
qed

text \<open>One step of \<^verbatim>\<open>new_valid\<close>: no assertion fires, and the invariant is kept.\<close>

lemma new_valid_ok:
  assumes v: "valid bs = Some v" and ok: "valid_ok hl ds (unat lf - g) v" and len: "Suc (length ds) < 2 ^ 32"
    and lf: "last_final_block_num (core (bhs bs)) = Some lf" and lf': "last_final_block_num (core nxt) = Some lf'"
    and le: "g \<le> unat lf" "lf \<le> lf'" "unat lf' \<le> g + length ds" and num: "unat (bhs_block_num nxt) = g + length ds"
    and digest: "\<not> sha256_empty sd"
  obtains v' where "new_valid hl hash_leaf bs nxt mroot sd = Some v'"
    and "valid_ok hl (ds @ [hash_leaf (leaf_node_of (bhs_block_num nxt) (bhs_timestamp nxt) (bhs_timestamp (bhs bs)) sd mroot)])
           (unat lf' - g) v'"
proof -
  let ?hc = "hash_combine hl"
  define d where "d = hash_leaf (leaf_node_of (bhs_block_num nxt) (bhs_timestamp nxt) (bhs_timestamp (bhs bs)) sd mroot)"
  let ?ds = "ds @ [d]" and ?start = "unat (lf' - lf)"
  have start: "?start = unat lf' - unat lf" using le(2) by (simp add: unat_sub_le)
  have tree: "tree_of ?hc ds (validation_tree v)" and roots: "validation_mroots v = map (root_upto hl ds) [unat lf - g..<length ds]"
    using ok by (simp_all add: valid_ok_def)
  obtain t where t: "append_digest ?hc d (validation_tree v) = Some t" "tree_of ?hc ?ds t"
    using append_digest_correct[OF tree, of d] len by auto
  have root: "get_root ?hc t = Some (root_upto hl ?ds (length ds))"
    using merkle_root[OF t(2)] len by (simp add: root_upto_def)
  have le': "unat lf \<le> unat lf'" using le(2) by (simp add: word_le_nat_alt)
  have drop: "drop ?start (validation_mroots v) = map (root_upto hl ?ds) [unat lf' - g..<length ds]"
  proof -
    have "drop ?start (validation_mroots v) = map (root_upto hl ds) [unat lf' - g..<length ds]"
      using le(1) le' start by (simp add: roots drop_map)
    also have "\<dots> = map (root_upto hl ?ds) [unat lf' - g..<length ds]"
      by (simp add: root_upto_append)
    finally show ?thesis .
  qed
  have mroots: "drop ?start (validation_mroots v) @ [root_upto hl ?ds (length ds)] =
      map (root_upto hl ?ds) [unat lf' - g..<length ?ds]"
    unfolding drop using le(3) by simp
  have "unat (bhs_block_num nxt - lf') = unat (bhs_block_num nxt) - unat lf'"
    using num le(3) by (simp add: unat_sub_le word_le_nat_alt)
  then have "unat (bhs_block_num nxt - lf' + 1) = Suc (unat (bhs_block_num nxt) - unat lf')"
    using num le le' len by (simp add: unat_Suc_no_wrap)
  then have size: "length (drop ?start (validation_mroots v) @ [root_upto hl ?ds (length ds)]) = unat (bhs_block_num nxt - lf' + 1)"
    unfolding mroots using num le le' by auto
  have start': "?start \<le> length (validation_mroots v)" using le le' start by (auto simp: roots)
  have "new_valid hl hash_leaf bs nxt mroot sd = Some \<lparr>validation_tree = t,
      validation_mroots = drop ?start (validation_mroots v) @ [root_upto hl ?ds (length ds)]\<rparr>"
    unfolding new_valid_def v lf lf' bind.simps Let_def d_def[symmetric] t(1) root size
    using le(2) digest start' by simp
  then have "new_valid hl hash_leaf bs nxt mroot sd = Some \<lparr>validation_tree = t,
      validation_mroots = map (root_upto hl ?ds) [unat lf' - g..<length ?ds]\<rparr>"
    unfolding mroots .
  moreover have "valid_ok hl ?ds (unat lf' - g) \<lparr>validation_tree = t, validation_mroots = map (root_upto hl ?ds) [unat lf' - g..<length ?ds]\<rparr>"
    using t(2) le by (simp add: valid_ok_def)
  ultimately show thesis using that unfolding d_def by blast
qed

text \<open>The last final block number is between the numbers of the first and the last block of a chain, and never goes back.\<close>

lemma chain_final:
  assumes "header_chain hl hist" and "unat (bhs_block_num (hd hist)) + length hist \<le> 2 ^ 32"
  obtains lf where "last_final_block_num (core (last hist)) = Some lf"
    and "unat (bhs_block_num (hd hist)) \<le> unat lf" and "lf \<le> bhs_block_num (last hist)"
proof -
  have ne: "hist \<noteq> []" by (rule header_chain_ne[OF assms(1)])
  note core = header_chain_core[OF assms]
  note reads = chain_core_reads[OF core ne]
  let ?c = "core (last hist)"
  have "target_block_num (hd (links ?c)) \<le> target_block_num (last (links ?c))"
    using core_front[OF reads(1)] by (auto intro: order_trans)
  also have "target_block_num (last (links ?c)) \<le> source_block_num (last (links ?c))"
    using link_target_le[OF reads(1), of "length (links ?c) - 1"] core_links_ne[OF reads(1)] by (simp add: last_conv_nth)
  finally show thesis
    using reads(1,5,6) by (intro that[of "target_block_num (hd (links ?c))"]) (simp_all add: core_reads)
qed

lemma chain_final_mono:
  assumes "header_chain hl hist" and "unat (bhs_block_num (hd hist)) + length hist \<le> 2 ^ 32"
    and "h_step hl (last hist) nxt"
    and "last_final_block_num (core (last hist)) = Some lf" and "last_final_block_num (core nxt) = Some lf'"
  shows "lf \<le> lf'"
proof (rule h_step_spec[OF assms(3)])
  fix ref q assume "next_core (core (last hist)) ref q = Some (core nxt)"
  then show "lf \<le> lf'"
    using next_core_final_mono[OF chain_core_reads(1)[OF header_chain_core[OF assms(1,2)] header_chain_ne[OF assms(1)]] _ assms(4,5)]
    by blast
qed

lemma valid_chain_ok:
  assumes "valid_chain hl hash_leaf ds hist"
    and "unat (bhs_block_num (bhs (hd hist))) + length hist \<le> 2 ^ 32" and "Suc (length hist) < 2 ^ 32"
    and "last_final_block_num (core (bhs (last hist))) = Some lf"
  shows "\<exists>v. valid (last hist) = Some v \<and> valid_ok hl ds (unat lf - unat (bhs_block_num (bhs (hd hist)))) v"
  using assms
proof (induction arbitrary: lf rule: valid_chain.induct)
  case (valid_genesis bs leaf t r)
  then obtain ts where "core (bhs bs) = create_core_for_genesis_block (bhs_block_id (bhs bs)) ts"
    "num_from_id (bhs_block_id (bhs bs)) = bhs_block_num (bhs bs)"
    by (auto simp: genesis_state_def)
  with valid_genesis.prems have "lf = bhs_block_num (bhs bs)"
    by (simp add: create_core_for_genesis_block_def last_final_block_num_def Let_def)
  moreover have "tree_of (hash_combine hl) [hash_leaf leaf] t"
    using append_digest_correct[OF tree_of_empty, of "hash_combine hl" "hash_leaf leaf"] valid_genesis.hyps(2) by simp
  moreover from merkle_root[OF this] valid_genesis.hyps(3) have "r = root_upto hl [hash_leaf leaf] 0"
    by (simp add: root_upto_def)
  ultimately show ?case using valid_genesis.hyps(4) by (simp add: valid_ok_def)
next
  case (valid_extend ds hist bs mroot v d)
  let ?g = "bhs_block_num (bhs (hd hist))"
  note chain = valid_chain_header[OF valid_extend.hyps(1)]
  have ne: "hist \<noteq> []" and len: "length ds = length hist" using chain by auto
  have hd: "hd (map bhs hist) = bhs (hd hist)" "last (map bhs hist) = bhs (last hist)"
    using ne by (simp_all add: hd_map last_map)
  have hc: "header_chain hl (map bhs hist)" using chain by simp
  have wrap: "unat ?g + length hist \<le> 2 ^ 32" and wrap': "unat ?g + Suc (length hist) \<le> 2 ^ 32"
    using valid_extend.prems(1) ne by simp_all
  have hc': "header_chain hl (map bhs hist @ [bhs bs])"
    using header_chain.extend[OF hc] valid_extend.hyps(2) hd by simp
  obtain lf0 where lf0: "last_final_block_num (core (bhs (last hist))) = Some lf0" "unat ?g \<le> unat lf0"
    using chain_final[OF hc] wrap hd by auto
  obtain v0 where v0: "valid (last hist) = Some v0" "valid_ok hl ds (unat lf0 - unat ?g) v0"
    using valid_extend.IH[OF wrap _ lf0(1)] valid_extend.prems(2) by auto
  have lf: "last_final_block_num (core (bhs bs)) = Some lf" using valid_extend.prems(3) by simp
  have mono: "lf0 \<le> lf" using chain_final_mono[OF hc _ _ _ lf] wrap valid_extend.hyps(2) lf0(1) hd by simp
  have "chain_core hl (map bhs hist @ [bhs bs])" using header_chain_core[OF hc'] wrap' hd(1) ne by simp
  then have num: "unat (bhs_block_num (bhs bs)) = unat ?g + length ds"
    using chain_core_reads(3)[of hl "map bhs hist @ [bhs bs]" "length hist"] hd(1) ne len by (simp add: nth_append)
  have le: "lf \<le> bhs_block_num (bhs bs)"
    using chain_final[OF hc'] wrap' hd(1) ne lf by (auto simp: hd_append)
  have dig: "\<not> sha256_empty (strong_digest bs)"
    using valid_extend.hyps(3) by (auto simp: new_valid_def bind_eq_Some_conv res_simps)
  show ?case
    using new_valid_ok[OF v0 _ lf0(1) lf lf0(2) mono _ num dig, of hash_leaf mroot] valid_extend.hyps(3,4,5)
      valid_extend.prems(2) len le num ne by (auto simp: word_le_nat_alt)
qed

text \<open>
  C29. The stored validation roots are those of the validation trees. For every block state of a chain built
  with \<^verbatim>\<open>new_valid\<close> from the genesis block (below block number \<open>2\<^sup>3\<^sup>2\<close>), \<^verbatim>\<open>get_validation_mroot\<close> returns, for each
  block number from the last final block to the block itself, the Merkle root over the finality leaf
  nodes from the genesis block to that block; for any other number it throws \<^verbatim>\<open>block_validate_exception\<close>.
\<close>

theorem validation_mroots_exact:
  assumes "valid_chain hl hash_leaf ds hist" and "unat (bhs_block_num (bhs (hd hist))) + length hist \<le> 2 ^ 32"
    and "Suc (length hist) < 2 ^ 32" and "last_final_block_num (core (bhs (last hist))) = Some lf"
  shows "get_validation_mroot (last hist) target =
    (if lf \<le> target \<and> target \<le> bhs_block_num (bhs (last hist))
     then asserted (calculate_merkle (hash_combine hl)
            (take (Suc (unat target - unat (bhs_block_num (bhs (hd hist))))) ds))
     else Inl block_validate_exception)"
proof -
  let ?s = "bhs (last hist)" and ?g = "bhs_block_num (bhs (hd hist))"
  note chain = valid_chain_header[OF assms(1)]
  have ne: "hist \<noteq> []" and len: "length ds = length hist" and hc: "header_chain hl (map bhs hist)" using chain by auto
  have hd: "hd (map bhs hist) = bhs (hd hist)" "last (map bhs hist) = ?s"
    using ne by (simp_all add: hd_map last_map)
  obtain v where v: "valid (last hist) = Some v" "valid_ok hl ds (unat lf - unat ?g) v"
    using valid_chain_ok[OF assms] by blast
  have lf: "unat ?g \<le> unat lf" "lf \<le> bhs_block_num ?s"
    using chain_final[OF hc] assms(2,4) hd by auto
  have num: "unat (bhs_block_num ?s) = unat ?g + (length hist - 1)"
    using chain_core_reads(3)[OF header_chain_core[OF hc], of "length hist - 1"] assms(2) ne hd by (simp add: last_conv_nth)
  have roots: "validation_mroots v = map (root_upto hl ds) [unat lf - unat ?g..<length ds]"
    and first: "unat lf - unat ?g < length ds"
    using v(2) by (simp_all add: valid_ok_def)
  have range: "unat target < unat lf + length (validation_mroots v) \<longleftrightarrow> target \<le> bhs_block_num ?s"
    using first lf(1) num len by (auto simp: roots word_le_nat_alt)
  have val: "validation_mroots v ! unat (target - lf) = root_upto hl ds (unat target - unat ?g)"
    if "lf \<le> target" "target \<le> bhs_block_num ?s"
  proof -
    have le: "unat lf \<le> unat target" "unat target \<le> unat ?g + (length hist - 1)"
      using that num by (simp_all add: word_le_nat_alt)
    have "length hist > 0" using ne by simp
    then have "unat target - unat lf < length ds - (unat lf - unat ?g)" using le lf(1) len by linarith
    then show ?thesis using le lf(1) that by (simp add: roots unat_sub_le)
  qed
  have "asserted (calculate_merkle (hash_combine hl) (take (Suc (unat target - unat ?g)) ds)) = Inr (root_upto hl ds (unat target - unat ?g))"
    unfolding root_upto_def using ne len assms(3) by (intro merkle_total) auto
  with v(1) assms(4) range val first show ?thesis
    by (auto simp: get_validation_mroot_def roots eos_assert_def)
qed

definition ex_leaf_hash :: "finality_leaf_node_t \<Rightarrow> digest_type" where
  "ex_leaf_hash l = Sha256 (ucast (leaf_block_num l)) 0 0 0"

definition ex_bs :: "block_header_state \<Rightarrow> valid_t option \<Rightarrow> block_state" where
  "ex_bs s v = \<lparr>bhs = s, bs_block = \<lparr>sb_header = header s, producer_signature = [], block_extensions = []\<rparr>,
     strong_digest = Sha256 1 0 0 0, weak_digest = [], aggregating_qc = aggregating_qc_init ex_lib (active_policy s) None,
     valid = v, validated = True, bs_action_mroot = sha256_zero, bs_base_digest = None\<rparr>"

lemma ex_bs_simps [simp]: "bhs (ex_bs s v) = s" "valid (ex_bs s v) = v" "strong_digest (ex_bs s v) = Sha256 1 0 0 0"
  by (simp_all add: ex_bs_def)

theorem validation_mroots_exact_witness:
  "\<exists>v. valid_chain ex_hl ex_leaf_hash [Sha256 1 0 0 0, Sha256 2 0 0 0] (map (case_prod ex_bs) [(ex_s1, Some (fst v)), (ex_s2, Some (snd v))]) \<and>
       get_validation_mroot (ex_bs ex_s2 (Some (snd v))) 1 = Inr (Sha256 1 0 0 0)"
proof -
  let ?hc = "hash_combine ex_hl" and ?d1 = "Sha256 1 0 0 0" and ?d2 = "Sha256 2 0 0 0"
  have leaf: "ex_leaf_hash (leaf_node_of n ts p sd m) = Sha256 (ucast n) 0 0 0" for n ts p sd m
    by (simp add: ex_leaf_hash_def leaf_node_of_def)
  have nums: "bhs_block_num ex_s1 = 1" "bhs_block_num ex_s2 = 2"
    "last_final_block_num (core ex_s1) = Some 1" "last_final_block_num (core ex_s2) = Some 1"
    by (simp_all add: ex_s1_def ex_s2_def ex_state_def ex_header_def bhs_block_num_def num_from_id_calculate_id
        last_final_block_num_def ex_link_def)
  have gen: "genesis_state ex_s1"
    by (simp add: genesis_state_def ex_s1_def ex_state_def create_core_for_genesis_block_def num_from_id_calculate_id
        ex_link_def bhs_block_num_def ex_pol_def ex_header_def)
  obtain t where t: "append_digest ?hc ?d1 empty_tree = Some t" "tree_of ?hc [?d1] t"
    using append_digest_correct[OF tree_of_empty, of ?hc ?d1] by auto
  have root: "get_root ?hc t = Some ?d1" using tree_of_root[OF t(2)] by (simp add: calculate_merkle_single)
  let ?v1 = "\<lparr>validation_tree = t, validation_mroots = [?d1]\<rparr>"
  have c1: "valid_chain ex_hl ex_leaf_hash [?d1] [ex_bs ex_s1 (Some ?v1)]"
    using valid_genesis[of "ex_bs ex_s1 (Some ?v1)" ex_hl ex_leaf_hash "leaf_node_of 1 1 0 ?d1 sha256_zero" t ?d1] gen t root
    by (simp add: leaf)
  have ok: "valid_ok ex_hl [?d1] (unat (1 :: u32) - 1) ?v1"
    using t(2) by (simp add: valid_ok_def root_upto_def calculate_merkle_single)
  obtain v2 where v2: "new_valid ex_hl ex_leaf_hash (ex_bs ex_s1 (Some ?v1)) ex_s2 sha256_zero ?d1 = Some v2"
    by (rule new_valid_ok[where bs = "ex_bs ex_s1 (Some ?v1)" and v = ?v1 and hl = ex_hl and ds = "[?d1]" and lf = 1 and g = 1
          and nxt = ex_s2 and lf' = 1 and sd = ?d1 and hash_leaf = ex_leaf_hash and mroot = sha256_zero])
      (use ok nums in \<open>simp_all add: sha256_empty_def\<close>)
  have step: "h_step ex_hl ex_s1 ex_s2"
    unfolding h_step_def using ex_step1 by (intro exI conjI) (auto simp: ex_s1_def)
  have c2: "valid_chain ex_hl ex_leaf_hash ([?d1] @ [?d2]) ([ex_bs ex_s1 (Some ?v1)] @ [ex_bs ex_s2 (Some v2)])"
    by (rule valid_extend[OF c1, of _ sha256_zero v2]) (use step v2 nums in \<open>simp_all add: leaf\<close>)
  have "get_validation_mroot (ex_bs ex_s2 (Some v2)) 1 = Inr ?d1"
    using validation_mroots_exact[OF c2, of 1 1] nums by (simp add: calculate_merkle_single word_le_nat_alt)
  with c2 show ?thesis by (intro exI[of _ "(?v1, v2)"]) simp
qed

text \<open>The block state that the transition from the legacy consensus builds is the start of such a chain.\<close>

lemma genesis_block_starts_chain:
  assumes "create_if_genesis_block hl hash_leaf cod lib fresh bsp = Inr bs"
    and "num_from_id (lbs_id bsp) = header_block_num (lbs_header bsp)" and "generation (active_policy (bhs bs)) = 1"
  shows "\<exists>mroot. lbs_action_mroot_savanna bsp = Some mroot \<and>
    valid_chain hl hash_leaf
      [hash_leaf (leaf_node_of (lbs_block_num bsp) (hdr_timestamp (lbs_header bsp)) 0 (strong_digest bs) mroot)] [bs]"
proof -
  obtain mroot policy sdigest t root bs0 where m: "lbs_action_mroot_savanna bsp = Some mroot"
    and d: "compute_finality_digest hl (genesis_header_state hl fresh bsp policy) = Some sdigest"
    and t: "append_digest (hash_combine hl) (hash_leaf (leaf_node_of (lbs_block_num bsp)
              (bhs_timestamp (genesis_header_state hl fresh bsp policy)) 0 sdigest mroot)) empty_tree = Some t"
    and root: "get_root (hash_combine hl) t = Some root"
    and bs0: "block_state_of hl lib (genesis_header_state hl fresh bsp policy) (lbs_block bsp)
                (Some \<lparr>validation_tree = t, validation_mroots = [root]\<rparr>) mroot = Some bs0"
    and bs: "bs = bs0\<lparr>validated := lbs_validated bsp\<rparr>"
    using assms(1) by (auto simp: create_if_genesis_block_def res_simps bind_eq_Some_conv Let_def)
  have b: "bhs bs = genesis_header_state hl fresh bsp policy" "strong_digest bs = sdigest"
      "valid bs = Some \<lparr>validation_tree = t, validation_mroots = [root]\<rparr>"
    using bs0 d by (auto simp: bs block_state_of_def)
  have "genesis_state (bhs bs)"
    using assms(2,3) unfolding b(1) by (auto simp: genesis_state_def genesis_header_state_def bhs_block_num_def header_block_num_def)
  moreover have "bhs_timestamp (genesis_header_state hl fresh bsp policy) = hdr_timestamp (lbs_header bsp)"
    by (simp add: genesis_header_state_def bhs_timestamp_def)
  ultimately show ?thesis using valid_genesis[where hl = hl and hash_leaf = hash_leaf, OF _ t root, of bs] b m by simp
qed

section \<open>Verification of a quorum certificate by a descendant\<close>

lemma chain_reference_at:
  assumes "chain_core hl hist" and "i < length hist" and "i \<noteq> length hist - 1"
    and "target_block_num (hd (links (core (last hist)))) \<le> bhs_block_num (hist ! i)"
  shows "get_block_reference (core (last hist)) (bhs_block_num (hist ! i)) = bhs_make_block_ref hl (hist ! i)"
proof -
  have ne: "hist \<noteq> []" using assms(2) by auto
  note reads = chain_core_reads[OF assms(1) ne]
  have "bhs_block_num (hist ! i) < source_block_num (last (links (core (last hist))))"
    using reads(2) reads(3)[OF assms(2)] assms(2,3) by (simp add: word_less_nat_alt)
  then obtain r where r: "get_block_reference (core (last hist)) (bhs_block_num (hist ! i)) = Some r"
    using get_block_reference_ok[OF reads(1) assms(4)] by blast
  obtain j where "j < length hist" "unat (bhs_block_num (hist ! i)) = unat (bhs_block_num (hd hist)) + j"
      "bhs_make_block_ref hl (hist ! j) = Some r"
    by (rule chain_reference[OF assms(1) ne r]) (rule that)
  with reads(3)[OF assms(2)] r show ?thesis by simp
qed

lemma bs_policies_of_ancestor:
  assumes chain: "header_chain hl hist" and wrap: "unat (bhs_block_num (hd hist)) + length hist \<le> 2 ^ 32"
    and bs: "bhs bs = last hist" "compute_finality_digest hl (last hist) = Some (strong_digest bs)"
    and s': "s' \<in> set hist" "compute_finality_digest hl s' = Some d"
    and claim: "latest_qc_claim (core (last hist)) = Some claim" "block_num claim \<le> bhs_block_num s'"
  shows "bs_get_finalizer_policies bs (bhs_block_num s') =
           Inr \<lparr>fp_finality_digest = d, fp_active = active_policy s', fp_pending = map_option snd (pending_policy s')\<rparr>"
proof -
  have ne: "hist \<noteq> []" by (rule header_chain_ne[OF chain])
  have core: "chain_core hl hist" by (rule header_chain_core[OF chain wrap])
  note reads = chain_core_reads[OF core ne]
  have links: "links (core (last hist)) \<noteq> []" using reads(1) by simp
  obtain i where i: "i < length hist" "s' = hist ! i" using s'(1) by (auto simp: in_set_conv_nth)
  obtain r where r: "bhs_make_block_ref hl s' = Some r" "finality_digest r = d"
    using s'(2) by (simp add: bhs_make_block_ref_def)
  note found = get_finalizer_policies_eq[OF chain wrap s'(1) r(1) claim, unfolded r(2)]
  show ?thesis
  proof (cases "i = length hist - 1")
    case True
    then have last: "s' = last hist" using ne i by (simp add: last_conv_nth)
    then have "bs_make_block_ref bs = r"
      using r(1) bs by (simp add: bs_make_block_ref_def bhs_make_block_ref_def)
    then show ?thesis using found last bs(1) by (simp add: bs_get_finalizer_policies_def)
  next
    case False
    have "target_block_num (hd (links (core (last hist)))) \<le> target_block_num (last (links (core (last hist))))"
      using link_target_mono[OF reads(1), of 0 "length (links (core (last hist))) - 1"] links
      by (simp add: hd_conv_nth last_conv_nth)
    also have "\<dots> \<le> bhs_block_num s'" using claim links by (auto simp: core_reads)
    finally have "get_block_reference (core (last hist)) (bhs_block_num s') = Some r"
      using chain_reference_at[OF core i(1) False] i(2) r(1) by simp
    moreover have "bhs_block_num s' \<noteq> bhs_block_num (last hist)"
      using reads(3)[OF i(1)] reads(3)[of "length hist - 1"] ne False i by (auto simp: last_conv_nth)
    ultimately show ?thesis using found bs(1) by (simp add: bs_get_finalizer_policies_def)
  qed
qed

text \<open>
  C30. A descendant verifies a quorum certificate as the certified block does. In any chain of blocks from the
  Savanna genesis block, let \<open>bs'\<close> be the block state of one of the blocks and \<open>bs\<close> that of the last one, and let
  the certificate name a block that is not below the latest claim of the last block. Then
  \<^verbatim>\<open>verify_qc\<close> on \<open>bs\<close>, which reconstructs the policies and the digest of the certified block from its
  own data, returns exactly what the vote aggregator and the digests of \<open>bs'\<close> give.
\<close>

theorem descendant_verifies_qc_alike:
  assumes "header_chain hl hist" and "unat (bhs_block_num (hd hist)) + length hist \<le> 2 ^ 32"
    and "block_state_of hl lib (last hist) b v mroot = Some bs"
    and "s' \<in> set hist" and "block_state_of hl lib s' b' v' mroot' = Some bs'"
    and "latest_qc_claim (core (last hist)) = Some claim" and "block_num claim \<le> bhs_block_num s'"
    and "qc_block_num q = bhs_block_num s'"
  shows "bs_verify_qc lib bs q = aggregating_verify_qc lib (aggregating_qc bs') q (strong_digest bs') (weak_digest bs')"
proof -
  have bs: "bhs bs = last hist" "compute_finality_digest hl (last hist) = Some (strong_digest bs)"
    using assms(3) by (auto simp: block_state_of_def bind_eq_Some_conv)
  have bs': "compute_finality_digest hl s' = Some (strong_digest bs')" "weak_digest bs' = create_weak_digest (strong_digest bs')"
      "aggregating_qc bs' = aggregating_qc_init lib (active_policy s') (map_option snd (pending_policy s'))"
    using assms(5) by (auto simp: block_state_of_def bind_eq_Some_conv)
  show ?thesis
    by (simp add: bs_verify_qc_def assms(8) bs'(2,3) bs_policies_of_ancestor[OF assms(1,2) bs assms(4) bs'(1) assms(6,7)])
qed

definition ex_blk :: signed_block where
  "ex_blk = \<lparr>sb_header = ex_header 6, producer_signature = [], block_extensions = []\<rparr>"

definition ex_qc :: qc_t where
  "ex_qc = \<lparr>qc_block_num = 5, active_policy_sig = \<lparr>strong_votes = Some [True], weak_votes = None, sig = []\<rparr>, pending_policy_sig = Some \<lparr>strong_votes = Some [True], weak_votes = None, sig = []\<rparr>\<rparr>"

theorem descendant_verifies_qc_alike_witness:
  "\<exists>bs bs'. block_state_of ex_hl ex_lib ex_s6 ex_blk None sha256_zero = Some bs \<and> block_state_of ex_hl ex_lib ex_s5 ex_blk None sha256_zero = Some bs' \<and>
     bs_verify_qc ex_lib bs ex_qc =
       aggregating_verify_qc ex_lib (aggregating_qc bs') ex_qc
         (strong_digest bs') (weak_digest bs')"
proof -
  obtain bs where bs: "block_state_of ex_hl ex_lib ex_s6 ex_blk None sha256_zero = Some bs"
    by (simp add: block_state_of_def ex_s6_def ex_eval)
  obtain bs' where bs': "block_state_of ex_hl ex_lib ex_s5 ex_blk None sha256_zero = Some bs'"
    by (simp add: block_state_of_def ex_s5_def ex_eval)
  have claim: "latest_qc_claim (core ex_s6) = Some (ex_claim 5 True)"
    by (simp add: ex_s6_def ex_state_def latest_qc_claim_def ex_link_def ex_claim_def ex_qc_def)
  have nums: "bhs_block_num ex_s1 = 1" "bhs_block_num ex_s5 = 5"
    by (simp_all add: ex_s1_def ex_s5_def ex_state_def ex_header_def bhs_block_num_def num_from_id_calculate_id)
  show ?thesis
    using descendant_verifies_qc_alike[OF ex_chain, of ex_lib ex_blk None sha256_zero bs ex_s5 ex_blk None sha256_zero bs' "ex_claim 5 True"
        ex_qc] bs bs' claim nums
    by (intro exI[of _ bs] exI[of _ bs']) (simp add: ex_claim_def ex_qc_def)
qed

section \<open>Block signatures\<close>

lemma recover_additional_iff:
  "recover_additional bl bid ss keys = Inr res \<longleftrightarrow>
     (\<exists>ks. map (\<lambda>s. recover_key bl s bid) ss = map Inr ks \<and> distinct ks \<and> set ks \<inter> keys = {} \<and> res = set ks \<union> keys)"
proof (induction ss arbitrary: keys)
  case Nil
  then show ?case by auto
next
  case (Cons s ss)
  have "recover_additional bl bid (s # ss) keys = Inr res \<longleftrightarrow>
      (\<exists>k ks. recover_key bl s bid = Inr k \<and> k \<notin> keys \<and> map (\<lambda>s. recover_key bl s bid) ss = map Inr ks \<and> distinct ks \<and>
         set ks \<inter> insert k keys = {} \<and> res = set ks \<union> insert k keys)"
    by (auto simp: res_simps Cons.IH)
  also have "\<dots> \<longleftrightarrow> (\<exists>ks. map (\<lambda>s. recover_key bl s bid) (s # ss) = map Inr ks \<and> distinct ks \<and> set ks \<inter> keys = {} \<and> res = set ks \<union> keys)"
    by (auto simp: Cons_eq_map_conv)
  finally show ?case .
qed

lemma relevant_all_iff:
  assumes "distinct (map kw_key kws)" and "finite ks"
  shows "length (filter (\<lambda>kw. kw_key kw \<in> ks) kws) = card ks \<longleftrightarrow> ks \<subseteq> kw_key ` set kws"
proof -
  have "length (filter (\<lambda>kw. kw_key kw \<in> ks) kws) = card (kw_key ` set (filter (\<lambda>kw. kw_key kw \<in> ks) kws))"
    using distinct_card[of "map kw_key (filter (\<lambda>kw. kw_key kw \<in> ks) kws)"] assms(1)
    by (simp add: distinct_map_filter)
  also have "kw_key ` set (filter (\<lambda>kw. kw_key kw \<in> ks) kws) = ks \<inter> kw_key ` set kws" by auto
  finally have "length (filter (\<lambda>kw. kw_key kw \<in> ks) kws) = card (ks \<inter> kw_key ` set kws)" .
  then show ?thesis using assms(2) by (metis card_subset_eq inf.orderE inf_le1 finite_Int inf.absorb_iff1)
qed

text \<open>
  C31. The signatures of a block. For a signing authority without repeated keys, \<^verbatim>\<open>verify_signee\<close> accepts exactly
  when every signature recovers to a key, the recovered keys are pairwise different, all of them belong
  to the authority, and their weights reach its threshold.
\<close>

theorem verify_signee_exact:
  assumes "distinct (map kw_key (bsa_keys auth))"
  shows "verify_signee bl psig bid additional auth = Inr () \<longleftrightarrow>
    (\<exists>ks. map (\<lambda>s. recover_key bl s bid) (psig # additional) = map Inr ks \<and> distinct ks \<and>
          set ks \<subseteq> kw_key ` set (bsa_keys auth) \<and> unat (bsa_threshold auth) \<le> presented_weight (set ks) (bsa_keys auth))"
    (is "?L \<longleftrightarrow> (\<exists>ks. ?R ks)")
proof -
  let ?kws = "bsa_keys auth"
  have sat: "keys_satisfy_and_relevant K auth =
      (unat (bsa_threshold auth) \<le> presented_weight K ?kws, length (filter (\<lambda>kw. kw_key kw \<in> K) ?kws))" for K
    by (cases auth) (simp add: keys_satisfy_eq)
  have "?L \<longleftrightarrow> length (psig # additional) \<le> length ?kws \<and>
      (\<exists>k K. recover_key bl psig bid = Inr k \<and> recover_additional bl bid additional {k} = Inr K \<and>
         length (filter (\<lambda>kw. kw_key kw \<in> K) ?kws) = card K \<and> unat (bsa_threshold auth) \<le> presented_weight K ?kws)"
    by (auto simp: verify_signee_def sat res_simps)
  also have "\<dots> \<longleftrightarrow> length (psig # additional) \<le> length ?kws \<and> (\<exists>ks. ?R ks)"
  proof (rule conj_cong[OF refl], rule iffI)
    assume "\<exists>k K. recover_key bl psig bid = Inr k \<and> recover_additional bl bid additional {k} = Inr K \<and>
         length (filter (\<lambda>kw. kw_key kw \<in> K) ?kws) = card K \<and> unat (bsa_threshold auth) \<le> presented_weight K ?kws"
    then obtain k ks where "recover_key bl psig bid = Inr k" "map (\<lambda>s. recover_key bl s bid) additional = map Inr ks"
      "distinct ks" "k \<notin> set ks" "length (filter (\<lambda>kw. kw_key kw \<in> set (k # ks)) ?kws) = card (set (k # ks))"
      "unat (bsa_threshold auth) \<le> presented_weight (set (k # ks)) ?kws"
      by (auto simp: recover_additional_iff)
    then show "\<exists>ks. ?R ks" using relevant_all_iff[OF assms, of "set (k # ks)"] by (intro exI[of _ "k # ks"]) simp
  next
    assume "\<exists>ks. ?R ks"
    then obtain k ks where ks: "?R (k # ks)" by (auto simp: Cons_eq_map_conv)
    then have "recover_additional bl bid additional {k} = Inr (set (k # ks))" by (auto simp: recover_additional_iff)
    moreover have "length (filter (\<lambda>kw. kw_key kw \<in> set (k # ks)) ?kws) = card (set (k # ks))"
      using ks relevant_all_iff[OF assms, of "set (k # ks)"] by simp
    ultimately show "\<exists>k K. recover_key bl psig bid = Inr k \<and> recover_additional bl bid additional {k} = Inr K \<and>
         length (filter (\<lambda>kw. kw_key kw \<in> K) ?kws) = card K \<and> unat (bsa_threshold auth) \<le> presented_weight K ?kws"
      using ks by (intro exI[of _ k] exI[of _ "set (k # ks)"]) simp
  qed
  also have "\<dots> \<longleftrightarrow> (\<exists>ks. ?R ks)"
  proof -
    have "length (psig # additional) \<le> length ?kws" if "?R ks" for ks
    proof -
      have "length (psig # additional) = length ks" using arg_cong[OF conjunct1[OF that], of length] by simp
      also have "\<dots> = card (set ks)" using that by (simp add: distinct_card)
      also have "\<dots> \<le> card (set (map kw_key ?kws))" using that by (intro card_mono) auto
      also have "\<dots> = length ?kws" using distinct_card[OF assms] by simp
      finally show ?thesis .
    qed
    then show ?thesis by blast
  qed
  finally show ?thesis .
qed

theorem verify_signee_exact_witness:
  "verify_signee \<lparr>bext_extract = \<lambda>_ _. None, bext_pack = \<lambda>_. [], recover_key = \<lambda>s _. Inr s\<rparr> [1] sha256_zero [[2]]
     (block_signing_authority_v0 3 [\<lparr>kw_key = [1], kw_weight = 1\<rparr>, \<lparr>kw_key = [2], kw_weight = 2\<rparr>]) = Inr ()"
  by (subst verify_signee_exact) (auto simp: presented_weight_def Cons_eq_map_conv)

end
