(* ===== verification/Raw.thy ===== *)
theory Raw
  imports Block_Types
begin

text \<open>
  Binary serialization (libfc/include/fc/io/raw.hpp, varint.hpp, datastream.hpp). Packing gives the bytes written or an
  exception; unpacking takes the remaining bytes of the stream and gives the value with the rest. Integers are stored in
  memory order of a little endian host. The locale \<open>codec\<close> is the contract between the two directions: every packed
  value is read back, and nothing after it is touched. Its predicate \<open>ok\<close> says which elements of the HOL type are values of
  the C++ type.
\<close>

type_synonym 'a packer = "'a \<Rightarrow> u8 list res"
type_synonym 'a reader = "u8 list \<Rightarrow> ('a \<times> u8 list) res"

section \<open>Streams\<close>

definition ds_read :: "nat \<Rightarrow> u8 list reader" where
  "ds_read n bs = (if n \<le> length bs then Inr (take n bs, drop n bs) else Inl out_of_range_exception)"

fun ds_get :: "u8 reader" where
  "ds_get [] = Inl out_of_range_exception"
| "ds_get (b # bs) = Inr (b, bs)"

locale codec =
  fixes ok :: "'a \<Rightarrow> bool" and pk :: "'a packer" and un :: "'a reader"
  assumes round_trip: "ok x \<Longrightarrow> pk x = Inr bs \<Longrightarrow> un (bs @ rest) = Inr (x, rest)"
begin

lemma pack_inj: "ok x \<Longrightarrow> ok y \<Longrightarrow> pk x = Inr bs \<Longrightarrow> pk y = Inr bs \<Longrightarrow> x = y"
  using round_trip[of x bs "[]"] round_trip[of y bs "[]"] by simp

text \<open>No packed value is a proper beginning of another one.\<close>

lemma prefix_free: "ok x \<Longrightarrow> ok y \<Longrightarrow> pk x = Inr bs \<Longrightarrow> pk y = Inr (bs @ cs) \<Longrightarrow> cs = []"
  using round_trip[of x bs cs] round_trip[of y "bs @ cs" "[]"] by simp

end

lemma ds_read_append [simp]: "length bs = n \<Longrightarrow> ds_read n (bs @ rest) = Inr (bs, rest)"
  by (simp add: ds_read_def)

section \<open>Integers\<close>

definition le_bytes :: "nat \<Rightarrow> 'a::len word \<Rightarrow> u8 list" where
  "le_bytes n w = map (\<lambda>i. ucast (drop_bit (8 * i) w)) [0..<n]"

fun of_le_bytes :: "u8 list \<Rightarrow> 'a::len word" where
  "of_le_bytes [] = 0"
| "of_le_bytes (b # bs) = ucast b OR push_bit 8 (of_le_bytes bs)"

definition pack_u8 :: "u8 packer" where "pack_u8 w = Inr (le_bytes 1 w)"
definition pack_u16 :: "u16 packer" where "pack_u16 w = Inr (le_bytes 2 w)"
definition pack_u32 :: "u32 packer" where "pack_u32 w = Inr (le_bytes 4 w)"
definition pack_u64 :: "u64 packer" where "pack_u64 w = Inr (le_bytes 8 w)"
definition pack_u128 :: "u128 packer" where "pack_u128 w = Inr (le_bytes 16 w)"

definition unpack_le :: "nat \<Rightarrow> 'a::len word reader" where
  "unpack_le n s = bind_res (ds_read n s) (\<lambda>(bs, rest). Inr (of_le_bytes bs, rest))"

definition unpack_u8 :: "u8 reader" where "unpack_u8 = unpack_le 1"
definition unpack_u16 :: "u16 reader" where "unpack_u16 = unpack_le 2"
definition unpack_u32 :: "u32 reader" where "unpack_u32 = unpack_le 4"
definition unpack_u64 :: "u64 reader" where "unpack_u64 = unpack_le 8"
definition unpack_u128 :: "u128 reader" where "unpack_u128 = unpack_le 16"

lemma length_le_bytes [simp]: "length (le_bytes n w) = n"
  by (simp add: le_bytes_def)

lemma bit_of_le_bytes:
  "bit (of_le_bytes bs :: 'a::len word) m \<longleftrightarrow> m < LENGTH('a) \<and> m div 8 < length bs \<and> bit (bs ! (m div 8)) (m mod 8)"
proof (induction bs arbitrary: m)
  case (Cons b bs)
  show ?case
  proof (cases "m < 8")
    case True
    then show ?thesis by (auto simp: bit_simps)
  next
    case False
    then obtain k where m: "m = k + 8" by (metis add.commute le_Suc_ex not_less)
    then have "m div 8 = Suc (k div 8)" "m mod 8 = k mod 8" by simp_all
    then show ?thesis using Cons.IH[of k] m by (auto simp: bit_simps dest: bit_imp_le_length)
  qed
qed simp

lemma of_le_bytes_le_bytes: "LENGTH('a) \<le> 8 * n \<Longrightarrow> of_le_bytes (le_bytes n (w :: 'a::len word)) = w"
  by (rule bit_word_eqI) (auto simp: bit_of_le_bytes le_bytes_def bit_simps less_mult_imp_div_less dest: bit_imp_le_length)

lemma unpack_le_round_trip: "LENGTH('a) \<le> 8 * n \<Longrightarrow> unpack_le n (le_bytes n w @ rest) = Inr (w :: 'a::len word, rest)"
  by (simp add: unpack_le_def of_le_bytes_le_bytes)

interpretation u8: codec "\<lambda>_. True" pack_u8 unpack_u8
  by unfold_locales (auto simp: pack_u8_def unpack_u8_def unpack_le_round_trip)

interpretation u16: codec "\<lambda>_. True" pack_u16 unpack_u16
  by unfold_locales (auto simp: pack_u16_def unpack_u16_def unpack_le_round_trip)

interpretation u32: codec "\<lambda>_. True" pack_u32 unpack_u32
  by unfold_locales (auto simp: pack_u32_def unpack_u32_def unpack_le_round_trip)

interpretation u64: codec "\<lambda>_. True" pack_u64 unpack_u64
  by unfold_locales (auto simp: pack_u64_def unpack_u64_def unpack_le_round_trip)

interpretation u128: codec "\<lambda>_. True" pack_u128 unpack_u128
  by unfold_locales (auto simp: pack_u128_def unpack_u128_def unpack_le_round_trip)

section \<open>Variable length integers\<close>

lemma unat_drop_bit: "unat (drop_bit n (w :: 'a::len word)) = unat w div 2 ^ n"
  by (simp add: unat_drop_bit_eq flip: drop_bit_eq_div)

text \<open>The loop of both \<^verbatim>\<open>pack\<close> functions: seven bits per byte, the high bit says that more follow.\<close>

function pack_varint :: "'a::len word \<Rightarrow> u8 list" where
  "pack_varint val =
     (let b = ucast val AND 0x7F; val' = drop_bit 7 val in
      (b OR (if val' > 0 then 0x80 else 0)) # (if val' \<noteq> 0 then pack_varint val' else []))"
  by pat_completeness auto

termination
  by (relation "measure unat") (auto simp: unat_drop_bit word_unat_eq_iff intro!: div_less_dividend split: if_splits)

declare pack_varint.simps [simp del]

definition pack_unsigned_int :: "u32 packer" where
  "pack_unsigned_int v = Inr (pack_varint (ucast v :: u64))"

text \<open>
  \<^verbatim>\<open>unpack(unsigned_int)\<close>: the seven bits of each byte are shifted in 32 bits and then widened; the loop ends after
  five bytes even if more are announced.
\<close>

fun unpack_unsigned_loop :: "nat \<Rightarrow> u64 \<Rightarrow> u32 reader" where
  "unpack_unsigned_loop by v [] = Inl out_of_range_exception"
| "unpack_unsigned_loop by v (b # bs) =
     (let v' = v OR ucast (push_bit by (ucast (b AND 0x7F) :: u32)) in
      if b AND 0x80 \<noteq> 0 \<and> by + 7 < 32 then unpack_unsigned_loop (by + 7) v' bs
      else Inr (ucast v', bs))"

definition unpack_unsigned_int :: "u32 reader" where
  "unpack_unsigned_int = unpack_unsigned_loop 0 0"

text \<open>
  \<^verbatim>\<open>signed_int\<close>: zigzag encoding. The loop of \<^verbatim>\<open>unpack\<close> has no bound, and shifting a \<^verbatim>\<open>uint32_t\<close> by 32 or more is
  undefined.
\<close>

definition pack_signed_int :: "u32 packer" where
  "pack_signed_int v = Inr (pack_varint (push_bit 1 v XOR signed_drop_bit 31 v))"

fun unpack_signed_loop :: "nat \<Rightarrow> u32 \<Rightarrow> u32 reader" where
  "unpack_signed_loop by v [] = Inl out_of_range_exception"
| "unpack_signed_loop by v (b # bs) =
     (if by \<ge> 32 then Inl undefined_behaviour
      else let v' = v OR push_bit by (ucast (b AND 0x7F)) in
           if b AND 0x80 \<noteq> 0 then unpack_signed_loop (by + 7) v' bs else Inr (v', bs))"

definition unzigzag :: "u32 \<Rightarrow> u32" where
  "unzigzag v = ucast ((ucast (drop_bit 1 v) :: u64) XOR (ucast (NOT (v AND 1)) + 1))"

definition unpack_signed_int :: "u32 reader" where
  "unpack_signed_int s = bind_res (unpack_signed_loop 0 0 s) (\<lambda>(v, rest). Inr (unzigzag v, rest))"

lemma seven_bits: "(b :: u8) AND 0x7F = take_bit 7 b"
  by (simp add: take_bit_eq_mask mask_eq_exp_minus_1)

lemma bit_0x80: "bit (0x80 :: u8) n \<longleftrightarrow> n = 7"
  using bit_exp_iff[where 'a = u8, of 7 n] by (auto simp: possible_bit_def)

lemma high_bit_or: "(take_bit 7 (b :: u8) OR (if c then 0x80 else 0)) AND 0x80 \<noteq> 0 \<longleftrightarrow> c"
  "take_bit 7 (take_bit 7 (b :: u8) OR (if c then 0x80 else 0)) = take_bit 7 b"
proof -
  obtain x :: u8 where x: "x = 0x80" "\<And>n. bit x n \<longleftrightarrow> n = 7" using bit_0x80 by blast
  have "bit ((take_bit 7 b OR (if c then x else 0)) AND x) n \<longleftrightarrow> c \<and> n = 7" for n
    by (auto simp: bit_simps x(2))
  then show "(take_bit 7 b OR (if c then 0x80 else 0)) AND 0x80 \<noteq> 0 \<longleftrightarrow> c"
    unfolding x(1) by (metis bit_0_eq bot_apply bot_bool_def bit_eq_iff)
  have "take_bit 7 (take_bit 7 b OR (if c then x else 0)) = take_bit 7 b"
    by (rule bit_word_eqI) (auto simp: bit_simps x(2))
  then show "take_bit 7 (take_bit 7 b OR (if c then 0x80 else 0)) = take_bit 7 b" unfolding x(1) .
qed

lemma or_shifted_bound: "(v :: nat) < 2 ^ n \<Longrightarrow> x * 2 ^ n < 2 ^ k \<Longrightarrow> n < k \<Longrightarrow> v + x * 2 ^ n < 2 ^ k"
proof -
  assume v: "v < 2 ^ n" and x: "x * 2 ^ n < 2 ^ k" and n: "n < k"
  have p: "2 ^ k = 2 ^ (k - n) * (2 :: nat) ^ n" using n by (simp flip: power_add)
  then have "x < 2 ^ (k - n)" using x by simp
  then have "Suc x * 2 ^ n \<le> 2 ^ (k - n) * 2 ^ n" by (intro mult_right_mono) auto
  then show ?thesis using v p by simp
qed

lemma or_shifted:
  fixes v x :: "'a::len word"
  assumes "unat v < 2 ^ n" and "unat x * 2 ^ n < 2 ^ LENGTH('a)" and "n < LENGTH('a)"
  shows "unat (v OR push_bit n x) = unat v + unat x * 2 ^ n"
proof -
  have "\<not> bit v m \<or> \<not> bit (push_bit n x) m" for m
  proof (cases "m < n")
    case False
    have "\<not> bit (unat v) m" using assms(1) False by (metis bit_take_bit_iff not_less take_bit_nat_eq_self_iff)
    then show ?thesis by (simp add: bit_unsigned_iff)
  qed (simp add: bit_simps)
  then have "v OR push_bit n x = v + push_bit n x" by (metis disjunctive_add)
  moreover have "unat (push_bit n x) = unat x * 2 ^ n"
  proof -
    have "push_bit n (unat x) = unat x * 2 ^ n" by (rule push_bit_eq_mult)
    with assms(2) show ?thesis by (simp only: unsigned_push_bit_eq take_bit_nat_eq_self)
  qed
  moreover have "unat v + unat x * 2 ^ n < 2 ^ LENGTH('a)" by (rule or_shifted_bound[OF assms])
  ultimately show ?thesis by (simp add: unat_add_no_wrap)
qed

text \<open>Seven bits of a number, with the rest.\<close>

lemma unat_take_bit: "unat (take_bit n (w :: 'a::len word)) = unat w mod 2 ^ n"
  by (simp add: unsigned_take_bit_eq flip: take_bit_eq_mod)

lemma unat_ucast_byte: "unat (ucast (take_bit 7 (ucast (val :: 'a::len word) :: u8)) :: 'b::len word) = unat val mod 128"
  if "7 \<le> LENGTH('b)"
proof -
  have "unat (take_bit 7 (ucast val :: u8)) = unat val mod 128"
  proof -
    have "unat (ucast val :: u8) = take_bit LENGTH(8) (unat val)" by (rule unsigned_ucast_eq)
    then have "unat (ucast val :: u8) = unat val mod 256" by (simp add: take_bit_eq_mod)
    moreover have "(unat val mod 256) mod 128 = unat val mod 128" by (rule mod_mod_cancel) simp
    ultimately show ?thesis using unat_take_bit[of 7 "ucast val :: u8"] by simp
  qed
  moreover have "(128 :: nat) \<le> 2 ^ LENGTH('b)" using power_increasing[OF that, of "2 :: nat"] by simp
  then have "unat val mod 128 < 2 ^ LENGTH('b)" by (meson mod_less_divisor order_less_le_trans zero_less_numeral)
  ultimately show ?thesis by (simp add: unsigned_ucast_eq take_bit_nat_eq_self)
qed

lemma varint_step:
  fixes val :: "'a::len word"
  assumes "unat val * 2 ^ n < 2 ^ 32" and "drop_bit 7 val \<noteq> 0"
  shows "n + 7 < 32" and "unat (drop_bit 7 val) * 2 ^ (n + 7) < 2 ^ 32"
    and "unat val mod 128 * 2 ^ n + unat (drop_bit 7 val) * 2 ^ (n + 7) = unat val * 2 ^ n"
proof -
  have d: "unat (drop_bit 7 val) = unat val div 128" by (simp add: unat_drop_bit)
  have split: "(a + b * 128) * p = a * p + b * (p * 128)" for a b p :: nat by (simp add: algebra_simps)
  have "unat val * 2 ^ n = (unat val mod 128 + unat val div 128 * 128) * 2 ^ n" by simp
  also have "\<dots> = unat val mod 128 * 2 ^ n + unat (drop_bit 7 val) * 2 ^ (n + 7)"
    unfolding split by (simp add: d power_add)
  finally show sum: "unat val mod 128 * 2 ^ n + unat (drop_bit 7 val) * 2 ^ (n + 7) = unat val * 2 ^ n" by simp
  then show le: "unat (drop_bit 7 val) * 2 ^ (n + 7) < 2 ^ 32" using assms(1) by linarith
  have "1 \<le> unat (drop_bit 7 val)" using assms(2) by (simp add: Suc_leI word_unat_eq_iff)
  then have "(2 :: nat) ^ (n + 7) < 2 ^ 32" using le mult_le_mono1[of 1 "unat (drop_bit 7 val)" "2 ^ (n + 7)"] by linarith
  then show "n + 7 < 32" by (rule power_less_imp_less_exp[rotated]) simp
qed

lemma low_bits_bound: "(v :: nat) < 2 ^ n \<Longrightarrow> v + m mod 128 * 2 ^ n < 2 ^ (n + 7)"
proof -
  assume "v < 2 ^ n"
  moreover have "m mod 128 * 2 ^ n \<le> 127 * 2 ^ n" by (intro mult_right_mono) auto
  ultimately have "v + m mod 128 * 2 ^ n < 128 * 2 ^ n" by linarith
  then show ?thesis by (simp add: power_add mult.commute)
qed

lemma unpack_unsigned_loop_pack:
  fixes val :: u64
  assumes "unat v < 2 ^ n" and "n < 32" and "unat val * 2 ^ n < 2 ^ 32"
  shows "\<exists>w. unpack_unsigned_loop n v (pack_varint val @ rest) = Inr (w, rest) \<and> unat w = unat v + unat val * 2 ^ n"
  using assms
proof (induction val arbitrary: n v rule: pack_varint.induct)
  case (1 val)
  let ?b = "take_bit 7 (ucast val :: u8)" and ?val' = "drop_bit 7 val"
  define x :: u32 where "x = ucast ?b"
  have x: "unat x = unat val mod 128" by (simp add: x_def unat_ucast_byte)
  have "unat x * 2 ^ n \<le> unat val * 2 ^ n" by (simp add: x)
  with 1(4) have fit: "unat x * 2 ^ n < 2 ^ 32" by linarith
  then have px: "unat (push_bit n x) = unat x * 2 ^ n"
    using or_shifted[of 0 n x] 1(3) by simp
  define v' where "v' = v OR ucast (push_bit n x)"
  have ux: "unat (ucast y :: u64) = unat y" for y :: u32
    using unat_bound[of y] by (simp add: unsigned_ucast_eq take_bit_nat_eq_self)
  have "unat (push_bit n (ucast x :: u64)) = unat x * 2 ^ n"
    using or_shifted[of "0 :: u64" n "ucast x"] 1(3) fit by (simp add: ux)
  then have "(ucast (push_bit n x) :: u64) = push_bit n (ucast x)" by (simp add: word_unat_eq_iff ux px)
  then have v': "unat v' = unat v + unat val mod 128 * 2 ^ n"
    using or_shifted[of v n "ucast x"] 1(2,3) fit x by (simp add: v'_def ux)
  have head: "pack_varint val = (?b OR (if ?val' > 0 then 0x80 else 0)) # (if ?val' \<noteq> 0 then pack_varint ?val' else [])"
    by (subst pack_varint.simps) (simp add: seven_bits Let_def)
  have step: "unpack_unsigned_loop n v (pack_varint val @ rest) =
      (if ?val' \<noteq> 0 \<and> n + 7 < 32 then unpack_unsigned_loop (n + 7) v' (pack_varint ?val' @ rest)
       else Inr (ucast v', (if ?val' \<noteq> 0 then pack_varint ?val' else []) @ rest))"
    unfolding head using high_bit_or[of "ucast val" "?val' > 0"]
    by (simp add: seven_bits v'_def x_def Let_def word_neq_0_conv)
  show ?case
  proof (cases "?val' = 0")
    case True
    then have "unat val mod 128 = unat val" using unat_drop_bit[of 7 val] by simp
    with v' 1(4) have "unat v' = unat v + unat val * 2 ^ n" by simp
    moreover have "unat v' < 2 ^ 32" using or_shifted_bound[OF 1(2) 1(4) 1(3)] calculation by simp
    ultimately show ?thesis using True step by (simp add: unsigned_ucast_eq take_bit_nat_eq_self)
  next
    case False
    note vs = varint_step[OF 1(4) False]
    obtain w where "unpack_unsigned_loop (n + 7) v' (pack_varint ?val' @ rest) = Inr (w, rest)"
        "unat w = unat v' + unat ?val' * 2 ^ (n + 7)"
      using 1(1)[OF refl refl False _ vs(1,2), of v'] low_bits_bound[OF 1(2), of "unat val"] v' by auto
    with step False vs v' show ?thesis by simp
  qed
qed

lemma unpack_signed_loop_pack:
  fixes val :: u32
  assumes "unat v < 2 ^ n" and "n < 32" and "unat val * 2 ^ n < 2 ^ 32"
  shows "\<exists>w. unpack_signed_loop n v (pack_varint val @ rest) = Inr (w, rest) \<and> unat w = unat v + unat val * 2 ^ n"
  using assms
proof (induction val arbitrary: n v rule: pack_varint.induct)
  case (1 val)
  let ?b = "take_bit 7 (ucast val :: u8)" and ?val' = "drop_bit 7 val"
  define x :: u32 where "x = ucast ?b"
  have x: "unat x = unat val mod 128" by (simp add: x_def unat_ucast_byte)
  have "unat x * 2 ^ n \<le> unat val * 2 ^ n" by (simp add: x)
  with 1(4) have fit: "unat x * 2 ^ n < 2 ^ 32" by linarith
  define v' where "v' = v OR push_bit n x"
  have v': "unat v' = unat v + unat val mod 128 * 2 ^ n"
    using or_shifted[of v n x] 1(2,3) fit x by (simp add: v'_def)
  have head: "pack_varint val = (?b OR (if ?val' > 0 then 0x80 else 0)) # (if ?val' \<noteq> 0 then pack_varint ?val' else [])"
    by (subst pack_varint.simps) (simp add: seven_bits Let_def)
  have step: "unpack_signed_loop n v (pack_varint val @ rest) =
      (if ?val' \<noteq> 0 then unpack_signed_loop (n + 7) v' (pack_varint ?val' @ rest) else Inr (v', rest))"
    unfolding head using high_bit_or[of "ucast val" "?val' > 0"] 1(3)
    by (simp add: seven_bits v'_def x_def Let_def word_neq_0_conv)
  show ?case
  proof (cases "?val' = 0")
    case True
    then have "unat val mod 128 = unat val" using unat_drop_bit[of 7 val] by simp
    with v' True step show ?thesis by simp
  next
    case False
    note vs = varint_step[OF 1(4) False]
    obtain w where "unpack_signed_loop (n + 7) v' (pack_varint ?val' @ rest) = Inr (w, rest)"
        "unat w = unat v' + unat ?val' * 2 ^ (n + 7)"
      using 1(1)[OF refl refl False _ vs(1,2), of v'] low_bits_bound[OF 1(2), of "unat val"] v' by auto
    with step False vs v' show ?thesis by simp
  qed
qed

lemma unzigzag_bit:
  assumes "n < 32"
  shows "bit (unzigzag z) n \<longleftrightarrow> bit z (Suc n) \<noteq> bit z 0"
proof -
  define y :: u64 where "y = ucast (NOT (z AND 1)) + 1"
  have one: "z AND 1 = of_bool (bit z 0)" by (simp add: and_one_eq mod_2_eq_odd bit_0)
  have "y = (if bit z 0 then mask 32 else push_bit 32 1)" by (simp add: y_def one mask_eq_exp_minus_1 unsigned_minus_1_eq_mask)
  moreover have "bit (mask 32 :: u64) n" "\<not> bit (push_bit 32 (1 :: u64)) n"
    unfolding bit_mask_iff bit_push_bit_iff using assms by (auto simp: possible_bit_def)
  ultimately have y: "bit y n \<longleftrightarrow> bit z 0" by simp
  have "bit (unzigzag z) n \<longleftrightarrow> bit (ucast (drop_bit 1 z) :: u64) n \<noteq> bit y n"
    unfolding unzigzag_def y_def[symmetric] bit_unsigned_iff bit_xor_iff using assms by (auto simp: possible_bit_def)
  also have "bit (ucast (drop_bit 1 z) :: u64) n \<longleftrightarrow> bit z (Suc n)"
    unfolding bit_unsigned_iff bit_drop_bit_eq using assms by (simp add: possible_bit_def)
  finally show ?thesis using y by simp
qed

lemma unzigzag_zigzag: "unzigzag (push_bit 1 v XOR signed_drop_bit 31 v) = v"
proof (rule bit_word_eqI)
  fix n assume "n < LENGTH(32)"
  then have n: "n < 32" by simp
  show "bit (unzigzag (push_bit 1 v XOR signed_drop_bit 31 v)) n = bit v n"
    unfolding unzigzag_bit[OF n] bit_xor_iff bit_push_bit_iff bit_signed_drop_bit_iff
    using n by (cases "n = 31") (auto simp: possible_bit_def dest: bit_imp_le_length)
qed

interpretation uint: codec "\<lambda>_. True" pack_unsigned_int unpack_unsigned_int
proof
  fix v bs rest assume "pack_unsigned_int v = Inr bs"
  then have bs: "bs = pack_varint (ucast v :: u64)" by (simp add: pack_unsigned_int_def)
  have u: "unat (ucast v :: u64) = unat v" using unat_bound[of v] by (simp add: unsigned_ucast_eq take_bit_nat_eq_self)
  show "unpack_unsigned_int (bs @ rest) = Inr (v, rest)"
    using unpack_unsigned_loop_pack[of 0 0 "ucast v :: u64" rest] unat_bound[of v]
    by (auto simp: bs unpack_unsigned_int_def u word_unat_eq_iff)
qed

interpretation sint: codec "\<lambda>_. True" pack_signed_int unpack_signed_int
proof
  fix v bs rest assume "pack_signed_int v = Inr bs"
  then have bs: "bs = pack_varint (push_bit 1 v XOR signed_drop_bit 31 v)" by (simp add: pack_signed_int_def)
  obtain w where "unpack_signed_loop 0 0 (bs @ rest) = Inr (w, rest)" "unat w = unat (push_bit 1 v XOR signed_drop_bit 31 v)"
    using unpack_signed_loop_pack[of 0 0 "push_bit 1 v XOR signed_drop_bit 31 v" rest]
      unat_bound[of "push_bit 1 v XOR signed_drop_bit 31 v"] by (auto simp: bs)
  then show "unpack_signed_int (bs @ rest) = Inr (v, rest)"
    using unzigzag_zigzag by (simp add: unpack_signed_int_def word_unat_eq_iff[symmetric])
qed

section \<open>Properties\<close>

lemma pack_varint_length: "unat w < 2 ^ (7 * n) \<Longrightarrow> 0 < n \<Longrightarrow> length (pack_varint w) \<le> n"
proof (induction n arbitrary: w)
  case (Suc n)
  have step: "length (pack_varint w) = Suc (if drop_bit 7 w \<noteq> 0 then length (pack_varint (drop_bit 7 w)) else 0)"
    by (subst pack_varint.simps) (simp add: Let_def)
  show ?case
  proof (cases "drop_bit 7 w = 0")
    case False
    then have "0 < n" using Suc.prems unat_drop_bit[of 7 w] by (cases n) (auto simp: word_unat_eq_iff)
    moreover have "unat (drop_bit 7 w) < 2 ^ (7 * n)"
      using Suc.prems(1) by (simp add: unat_drop_bit less_mult_imp_div_less power_add mult.commute)
    ultimately show ?thesis using Suc.IH step False by simp
  qed (simp add: step)
qed simp

text \<open>
  C37. Variable length integers. Every 32-bit value, unsigned or signed, is packed into one to five bytes, which are read back to
  the same value whatever follows, and no packed value is a beginning of another.
\<close>

theorem varint_round_trip:
  "\<exists>bs cs. pack_unsigned_int v = Inr bs \<and> length bs \<in> {1..5} \<and> unpack_unsigned_int (bs @ rest) = Inr (v, rest) \<and>
           pack_signed_int v = Inr cs \<and> length cs \<in> {1..5} \<and> unpack_signed_int (cs @ rest) = Inr (v, rest) \<and>
           pack_unsigned_int w \<noteq> Inr (bs @ b # bs') \<and> pack_signed_int w \<noteq> Inr (cs @ b # bs')"
proof -
  have pos: "length (pack_varint x) \<ge> 1" for x :: "'a::len word" by (subst pack_varint.simps) (simp add: Let_def)
  have five: "unat (x :: u32) < 2 ^ (7 * 5)" for x using unat_bound[of x] by simp
  have "unat (ucast v :: u64) < 2 ^ (7 * 5)"
    using unat_bound[of v] by (simp add: unsigned_ucast_eq take_bit_nat_eq_self)
  then have "length (pack_varint (ucast v :: u64)) \<in> {1..5}"
    "length (pack_varint (push_bit 1 v XOR signed_drop_bit 31 v)) \<in> {1..5}"
    using pos pack_varint_length[of _ 5] five by auto
  moreover obtain bs cs where "pack_unsigned_int v = Inr bs" "pack_signed_int v = Inr cs"
      "bs = pack_varint (ucast v :: u64)" "cs = pack_varint (push_bit 1 v XOR signed_drop_bit 31 v)"
    by (simp add: pack_unsigned_int_def pack_signed_int_def)
  ultimately show ?thesis
    using uint.round_trip sint.round_trip uint.prefix_free[of v bs w "b # bs'"] sint.prefix_free[of v cs w "b # bs'"]
    by (intro exI[of _ bs] exI[of _ cs]) auto
qed

end
