(* ===== verification/Std_Map.thy ===== *)
theory Std_Map
  imports Prelude "HOL-Library.List_Lexorder"
begin

text \<open>
  \<^verbatim>\<open>std::map\<close> as the sources use it: the list of its entries in the order of the keys, which is the order of iteration. Keys
  that are byte arrays are compared lexicographically. The locale \<open>key_container\<close> is what the clients rely on.
\<close>

type_synonym ('k, 'v) std_map = "('k \<times> 'v) list"

text \<open>\<^verbatim>\<open>insert\<close> and \<^verbatim>\<open>emplace\<close> keep an entry that is already there; \<^verbatim>\<open>m[k] = v\<close> replaces it.\<close>

fun map_insert :: "'k::linorder \<Rightarrow> 'v \<Rightarrow> ('k, 'v) std_map \<Rightarrow> ('k, 'v) std_map" where
  "map_insert k v [] = [(k, v)]"
| "map_insert k v ((k', v') # m) =
     (if k < k' then (k, v) # (k', v') # m else if k = k' then (k', v') # m else (k', v') # map_insert k v m)"

fun map_put :: "'k::linorder \<Rightarrow> 'v \<Rightarrow> ('k, 'v) std_map \<Rightarrow> ('k, 'v) std_map" where
  "map_put k v [] = [(k, v)]"
| "map_put k v ((k', v') # m) =
     (if k < k' then (k, v) # (k', v') # m else if k = k' then (k, v) # m else (k', v') # map_put k v m)"

definition map_erase :: "'k \<Rightarrow> ('k, 'v) std_map \<Rightarrow> ('k, 'v) std_map" where
  "map_erase k m = filter (\<lambda>e. fst e \<noteq> k) m"

definition map_wf :: "('k::linorder, 'v) std_map \<Rightarrow> bool" where
  "map_wf m \<longleftrightarrow> sorted_wrt (<) (map fst m)"

section \<open>The interface\<close>

locale key_container =
  fixes wf :: "'m \<Rightarrow> bool" and find :: "'m \<Rightarrow> 'k \<Rightarrow> 'v option" and no_entries :: 'm
    and insert_new put :: "'k \<Rightarrow> 'v \<Rightarrow> 'm \<Rightarrow> 'm" and erase :: "'k \<Rightarrow> 'm \<Rightarrow> 'm"
  assumes wf_empty: "wf no_entries" and find_empty: "find no_entries = Map.empty"
    and wf_insert: "wf m \<Longrightarrow> wf (insert_new k v m)"
    and find_insert: "wf m \<Longrightarrow> find (insert_new k v m) = (if find m k = None then (find m)(k \<mapsto> v) else find m)"
    and wf_put: "wf m \<Longrightarrow> wf (put k v m)"
    and find_put: "wf m \<Longrightarrow> find (put k v m) = (find m)(k \<mapsto> v)"
    and wf_erase: "wf m \<Longrightarrow> wf (erase k m)"
    and find_erase: "wf m \<Longrightarrow> find (erase k m) = (find m)(k := None)"
begin

text \<open>The first of several entries with one key is kept.\<close>

lemma insert_all:
  assumes "wf m"
  shows "wf (fold (\<lambda>(k, v). insert_new k v) es m) \<and> find (fold (\<lambda>(k, v). insert_new k v) es m) = map_of es ++ find m"
  using assms
proof (induction es arbitrary: m)
  case (Cons e es)
  obtain k v where e: "e = (k, v)" by fastforce
  have "map_of es ++ find (insert_new k v m) = map_of (e # es) ++ find m"
    using Cons.prems by (auto simp: e find_insert map_add_def fun_eq_iff split: option.splits)
  then show ?case using Cons.IH[OF wf_insert[OF Cons.prems]] by (simp add: e fun_upd_def)
qed simp

lemma erase_all:
  assumes "wf m"
  shows "wf (fold erase ks m) \<and> find (fold erase ks m) = (find m) |` (- set ks)"
  using assms
proof (induction ks arbitrary: m)
  case (Cons k ks)
  then show ?case by (auto simp: wf_erase find_erase restrict_map_def fun_eq_iff)
qed (simp add: restrict_map_def)

end

section \<open>Sorted lists of entries implement it\<close>

lemma map_wf_simps [simp]:
  "map_wf []" "map_wf ((k, v) # m) \<longleftrightarrow> (\<forall>e\<in>set m. k < fst e) \<and> map_wf m"
  by (simp_all add: map_wf_def)

lemma map_of_below: "\<forall>e\<in>set m. (k :: 'k::linorder) < fst e \<Longrightarrow> map_of m k = None"
  by (auto simp: map_of_eq_None_iff)

lemma set_map_insert: "set (map_insert k v m) \<subseteq> insert (k, v) (set m)"
  by (induction k v m rule: map_insert.induct) auto

lemma set_map_put: "set (map_put k v m) \<subseteq> insert (k, v) (set m)"
  by (induction k v m rule: map_put.induct) auto

lemma map_insert_spec:
  "map_wf m \<Longrightarrow> map_wf (map_insert k v m) \<and>
   map_of (map_insert k v m) = (if map_of m k = None then (map_of m)(k \<mapsto> v) else map_of m)"
proof (induction k v m rule: map_insert.induct)
  case (2 k v k' v' m)
  consider "k < k'" | "k = k'" | "k' < k" by (rule linorder_cases)
  then show ?case
  proof cases
    case 1
    then have "map_of ((k', v') # m) k = None" using 2(2) by (intro map_of_below) auto
    with 1 2(2) show ?thesis by auto
  next
    case 3
    then have "\<forall>e\<in>set (map_insert k v m). k' < fst e" using 2(2) set_map_insert[of k v m] by auto
    with 3 2 show ?thesis by auto
  qed (use 2(2) in auto)
qed simp

lemma map_put_spec: "map_wf m \<Longrightarrow> map_wf (map_put k v m) \<and> map_of (map_put k v m) = (map_of m)(k \<mapsto> v)"
proof (induction k v m rule: map_put.induct)
  case (2 k v k' v' m)
  then have "k' < k \<Longrightarrow> \<forall>e\<in>set (map_put k v m). k' < fst e" using set_map_put[of k v m] by auto
  with 2 show ?case by auto
qed simp

lemma map_erase_spec: "map_wf m \<Longrightarrow> map_wf (map_erase k m) \<and> map_of (map_erase k m) = (map_of m)(k := None)"
  by (induction m) (auto simp: map_erase_def fun_eq_iff)

interpretation std_map: key_container map_wf map_of "[]" map_insert map_put map_erase
  by unfold_locales (simp_all add: map_insert_spec map_put_spec map_erase_spec)

lemma map_wf_distinct: "map_wf m \<Longrightarrow> distinct (map fst m)"
  by (simp add: map_wf_def strict_sorted_iff)

text \<open>The entries are determined by what \<^verbatim>\<open>find\<close> returns.\<close>

lemma map_wf_unique:
  assumes "map_wf m" and "map_wf m'" and "map_of m = map_of m'"
  shows "m = m'"
proof -
  have d: "distinct (map fst m)" "distinct (map fst m')" using assms(1,2) by (simp_all add: map_wf_distinct)
  have "set m = set m'" using map_of_inject_set[OF d] assms(3) by simp
  moreover from this have "inj_on fst (set m \<union> set m')" using d(1) by (simp add: distinct_map)
  ultimately show ?thesis
    using assms(1,2) d by (intro map_sorted_distinct_set_unique[of fst]) (simp_all add: map_wf_def strict_sorted_iff)
qed

lemma map_rebuild: "map_wf m \<Longrightarrow> fold (\<lambda>(k, v). map_insert k v) m [] = m"
  using std_map.insert_all[of "[]" m] by (intro map_wf_unique) auto

end
