(* ===== verification/Raw_Containers.thy ===== *)
theory Raw_Containers
  imports Raw Std_Map
begin

text \<open>
  Serialization of composite types (libfc/include/fc/io/raw.hpp): booleans, optional values, byte arrays, strings, sequences,
  pairs, ordered maps, bit sets and variants, over the serialization of their elements. A value read into is a fresh default
  constructed one. Each packer and reader pair is shown to be a codec whenever those of the elements are.
\<close>

section \<open>Sequences of operations on a stream\<close>

definition pack_then :: "u8 list res \<Rightarrow> u8 list res \<Rightarrow> u8 list res" where
  "pack_then a b = bind_res a (\<lambda>x. bind_res b (\<lambda>y. Inr (x @ y)))"

definition unpack_then :: "'a reader \<Rightarrow> ('a \<Rightarrow> 'b reader) \<Rightarrow> 'b reader" where
  "unpack_then u f s = bind_res (u s) (\<lambda>(x, rest). f x rest)"

definition unpack_return :: "'a \<Rightarrow> 'a reader" where
  "unpack_return x s = Inr (x, s)"

definition unpack_assert :: "bool \<Rightarrow> 'a reader \<Rightarrow> 'a reader" where
  "unpack_assert b u s = bind_res (eos_assert b fc_assert_exception) (\<lambda>_. u s)"

named_theorems unpack_simps \<open>what a reader does on a packed value\<close>

lemma pack_then_Inr_iff [res_simps]: "pack_then a b = Inr bs \<longleftrightarrow> (\<exists>x y. a = Inr x \<and> b = Inr y \<and> bs = x @ y)"
  by (auto simp: pack_then_def bind_res_Inr_iff)

lemma unpack_return_simp [unpack_simps]: "unpack_return x s = Inr (x, s)"
  by (simp add: unpack_return_def)

lemma unpack_assert_simp [unpack_simps]: "b \<Longrightarrow> unpack_assert b u s = u s"
  by (simp add: unpack_assert_def)

lemma unpack_then_read [unpack_simps]: "length a = n \<Longrightarrow> unpack_then (ds_read n) f (a @ rest) = f a rest"
  by (simp add: unpack_then_def)

text \<open>Reading back one packed value and going on.\<close>

lemma codec_step: "codec ok pk un \<Longrightarrow> pk x = Inr a \<Longrightarrow> ok x \<Longrightarrow> unpack_then un f (a @ rest) = f x rest"
  by (simp add: unpack_then_def codec.round_trip)

lemma codecI:
  assumes "\<And>x bs rest. ok x \<Longrightarrow> pk x = Inr bs \<Longrightarrow> un (bs @ rest) = Inr (x, rest)"
  shows "codec ok pk un"
  by unfold_locales (rule assms)

section \<open>Booleans and optional values\<close>

definition pack_bool :: "bool packer" where
  "pack_bool v = pack_u8 (if v then 1 else 0)"

definition unpack_bool :: "bool reader" where
  "unpack_bool = unpack_then unpack_u8 (\<lambda>b. unpack_assert (b AND NOT 1 = 0) (unpack_return (b \<noteq> 0)))"

definition pack_optional :: "'a packer \<Rightarrow> 'a option packer" where
  "pack_optional pk v = pack_then (pack_bool (v \<noteq> None)) (case v of None \<Rightarrow> Inr [] | Some x \<Rightarrow> pk x)"

definition unpack_optional :: "'a reader \<Rightarrow> 'a option reader" where
  "unpack_optional un = unpack_then unpack_bool (\<lambda>b.
     if b then unpack_then un (\<lambda>x. unpack_return (Some x)) else unpack_return None)"

definition pack_pair :: "'a packer \<Rightarrow> 'b packer \<Rightarrow> ('a \<times> 'b) packer" where
  "pack_pair p q v = pack_then (p (fst v)) (q (snd v))"

definition unpack_pair :: "'a reader \<Rightarrow> 'b reader \<Rightarrow> ('a \<times> 'b) reader" where
  "unpack_pair u v = unpack_then u (\<lambda>x. unpack_then v (\<lambda>y. unpack_return (x, y)))"

interpretation boolean: codec "\<lambda>_. True" pack_bool unpack_bool
  by unfold_locales (auto simp: pack_bool_def unpack_bool_def codec_step[OF u8.codec_axioms] unpack_simps)

lemmas bool_step = codec_step[OF boolean.codec_axioms]

lemma codec_optional:
  assumes "codec ok pk un"
  shows "codec (\<lambda>v. \<forall>x. v = Some x \<longrightarrow> ok x) (pack_optional pk) (unpack_optional un)"
  by (rule codecI) (auto simp: pack_optional_def unpack_optional_def pack_then_Inr_iff bool_step codec_step[OF assms] unpack_simps
      split: option.splits)

lemma codec_pair:
  assumes "codec ok pk un" and "codec ok' pk' un'"
  shows "codec (\<lambda>v. ok (fst v) \<and> ok' (snd v)) (pack_pair pk pk') (unpack_pair un un')"
  by (rule codecI) (auto simp: pack_pair_def unpack_pair_def pack_then_Inr_iff codec_step[OF assms(1)] codec_step[OF assms(2)] unpack_simps)

section \<open>Byte arrays, strings and hashes\<close>

definition MAX_NUM_ARRAY_ELEMENTS :: nat where
  "MAX_NUM_ARRAY_ELEMENTS = 1024 * 1024"

definition MAX_SIZE_OF_BYTE_ARRAYS :: nat where
  "MAX_SIZE_OF_BYTE_ARRAYS = 20 * 1024 * 1024"

definition pack_bytes :: "u8 list packer" where
  "pack_bytes v = bind_res (eos_assert (length v \<le> MAX_SIZE_OF_BYTE_ARRAYS) fc_assert_exception) (\<lambda>_.
     pack_then (pack_unsigned_int (of_nat (length v))) (Inr v))"

definition unpack_bytes :: "u8 list reader" where
  "unpack_bytes = unpack_then unpack_unsigned_int (\<lambda>size.
     unpack_assert (unat size \<le> MAX_SIZE_OF_BYTE_ARRAYS) (ds_read (unat size)))"

definition byte_of_char :: "char \<Rightarrow> u8" where
  "byte_of_char c = of_nat (of_char c)"

definition char_of_byte :: "u8 \<Rightarrow> char" where
  "char_of_byte b = char_of (unat b)"

definition pack_string :: "string packer" where
  "pack_string v = bind_res (eos_assert (length v \<le> MAX_SIZE_OF_BYTE_ARRAYS) fc_assert_exception) (\<lambda>_.
     pack_then (pack_unsigned_int (of_nat (length v))) (Inr (map byte_of_char v)))"

definition unpack_string :: "string reader" where
  "unpack_string = unpack_then unpack_bytes (\<lambda>tmp. unpack_return (map char_of_byte tmp))"

definition pack_byte_array :: "u8 list packer" where
  "pack_byte_array v = Inr v"

definition pack_sha256 :: "sha256 packer" where
  "pack_sha256 h = Inr (sha256_data h)"

definition unpack_sha256 :: "sha256 reader" where
  "unpack_sha256 = unpack_then unpack_u64 (\<lambda>a. unpack_then unpack_u64 (\<lambda>b. unpack_then unpack_u64 (\<lambda>c.
     unpack_then unpack_u64 (\<lambda>d. unpack_return (Sha256 a b c d)))))"

lemma unat_size: "n \<le> MAX_SIZE_OF_BYTE_ARRAYS \<Longrightarrow> unat (of_nat n :: u32) = n"
  by (simp add: unat_of_nat MAX_SIZE_OF_BYTE_ARRAYS_def)

lemma unat_count: "n \<le> 8 * MAX_NUM_ARRAY_ELEMENTS \<Longrightarrow> unat (of_nat n :: u32) = n"
  by (simp add: unat_of_nat MAX_NUM_ARRAY_ELEMENTS_def)

lemmas uint_step = codec_step[OF uint.codec_axioms]
lemmas u8_step = codec_step[OF u8.codec_axioms]
lemmas u16_step = codec_step[OF u16.codec_axioms]
lemmas u32_step = codec_step[OF u32.codec_axioms]
lemmas u64_step = codec_step[OF u64.codec_axioms]

lemmas pack_size_simps = bind_res_Inr_iff eos_assert_Inr_iff pack_then_Inr_iff

interpretation bytes: codec "\<lambda>_. True" pack_bytes unpack_bytes
  by unfold_locales (auto simp: pack_bytes_def unpack_bytes_def pack_size_simps uint_step unpack_simps unat_size)

lemma chars_of_bytes: "map char_of_byte (map byte_of_char v) = v"
proof -
  have "char_of_byte (byte_of_char c) = c" for c
    unfolding char_of_byte_def byte_of_char_def unat_of_nat by (simp del: of_nat_of_char)
  then show ?thesis by (simp add: map_idI)
qed

interpretation str: codec "\<lambda>_. True" pack_string unpack_string
proof
  fix v bs rest assume "pack_string v = Inr bs"
  then have "pack_bytes (map byte_of_char v) = Inr bs" by (auto simp: pack_string_def pack_bytes_def pack_size_simps)
  then show "unpack_string (bs @ rest) = Inr (v, rest)"
    by (simp only: unpack_string_def codec_step[OF bytes.codec_axioms] unpack_simps chars_of_bytes)
qed

lemma codec_byte_array: "codec (\<lambda>v. length v = n) pack_byte_array (ds_read n)"
  by (rule codecI) (simp add: pack_byte_array_def)

interpretation sha: codec "\<lambda>_. True" pack_sha256 unpack_sha256
proof
  have p: "pack_u64 w = Inr (u64_bytes_le w)" for w by (simp add: pack_u64_def le_bytes_def u64_bytes_le_def)
  fix h bs rest assume "pack_sha256 h = Inr bs"
  then show "unpack_sha256 (bs @ rest) = Inr (h, rest)"
    by (cases h) (auto simp: pack_sha256_def unpack_sha256_def sha256_data_def u64_step[OF p] unpack_simps)
qed

lemmas sha_step = codec_step[OF sha.codec_axioms]

section \<open>Sequences\<close>

fun pack_list :: "'a packer \<Rightarrow> 'a list packer" where
  "pack_list pk [] = Inr []"
| "pack_list pk (x # xs) = pack_then (pk x) (pack_list pk xs)"

fun unpack_n :: "'a reader \<Rightarrow> nat \<Rightarrow> 'a list reader" where
  "unpack_n un 0 = unpack_return []"
| "unpack_n un (Suc n) = unpack_then un (\<lambda>x. unpack_then (unpack_n un n) (\<lambda>xs. unpack_return (x # xs)))"

definition pack_vector :: "'a packer \<Rightarrow> 'a list packer" where
  "pack_vector pk v = bind_res (eos_assert (length v \<le> MAX_NUM_ARRAY_ELEMENTS) fc_assert_exception) (\<lambda>_.
     pack_then (pack_unsigned_int (of_nat (length v))) (pack_list pk v))"

definition unpack_vector :: "'a reader \<Rightarrow> 'a list reader" where
  "unpack_vector un = unpack_then unpack_unsigned_int (\<lambda>size.
     unpack_assert (unat size \<le> MAX_NUM_ARRAY_ELEMENTS) (unpack_n un (unat size)))"

text \<open>\<^verbatim>\<open>std::map\<close>: entries are read one by one and inserted, in whatever order they come.\<close>

definition pack_map :: "'k packer \<Rightarrow> 'v packer \<Rightarrow> ('k, 'v) std_map packer" where
  "pack_map pk pv m = pack_vector (pack_pair pk pv) m"

definition unpack_map :: "'k::linorder reader \<Rightarrow> 'v reader \<Rightarrow> ('k, 'v) std_map reader" where
  "unpack_map uk uv = unpack_then (unpack_vector (unpack_pair uk uv)) (\<lambda>es.
     unpack_return (fold (\<lambda>(k, v). map_insert k v) es []))"

lemma codec_list:
  assumes c: "codec ok pk un"
  shows "list_all ok xs \<Longrightarrow> pack_list pk xs = Inr bs \<Longrightarrow> unpack_n un (length xs) (bs @ rest) = Inr (xs, rest)"
proof (induction xs arbitrary: bs)
  case (Cons x xs)
  then obtain a b where "pk x = Inr a" "pack_list pk xs = Inr b" "bs = a @ b" by (auto simp: pack_then_Inr_iff)
  with Cons show ?case by (simp add: codec_step[OF c] unpack_then_def[of "unpack_n un (length xs)"] unpack_simps)
qed (simp add: unpack_simps)

lemma codec_vector:
  assumes "codec ok pk un"
  shows "codec (list_all ok) (pack_vector pk) (unpack_vector un)"
proof (rule codecI)
  fix v bs rest assume ok: "list_all ok v" and "pack_vector pk v = Inr bs"
  then obtain a b where p: "length v \<le> MAX_NUM_ARRAY_ELEMENTS" "pack_unsigned_int (of_nat (length v)) = Inr a" "pack_list pk v = Inr b"
    "bs = a @ b" by (auto simp: pack_vector_def pack_size_simps)
  then have "unat (of_nat (length v) :: u32) = length v" by (intro unat_count) simp
  with p show "unpack_vector un (bs @ rest) = Inr (v, rest)"
    by (simp add: unpack_vector_def uint_step unpack_simps codec_list[OF assms ok])
qed

lemma codec_map:
  assumes "codec okk pk uk" and "codec okv pv uv"
  shows "codec (\<lambda>m. map_wf m \<and> list_all (\<lambda>e. okk (fst e) \<and> okv (snd e)) m) (pack_map pk pv) (unpack_map uk uv)"
  by (rule codecI) (simp add: pack_map_def unpack_map_def codec_step[OF codec_vector[OF codec_pair[OF assms]]] unpack_simps map_rebuild)

section \<open>Bit sets\<close>

text \<open>\<^verbatim>\<open>fc::dynamic_bitset\<close> in blocks of 8 bits, the first bit lowest; the unused bits of the last block are zero.\<close>

fun to_blocks :: "bool list \<Rightarrow> u8 list" where
  "to_blocks [] = []"
| "to_blocks (b # bs) = horner_sum of_bool 2 (take 8 (b # bs)) # to_blocks (drop 7 bs)"

definition of_blocks :: "u8 list \<Rightarrow> bool list" where
  "of_blocks blocks = concat (map (\<lambda>b. map (bit b) [0..<8]) blocks)"

definition pack_bitset :: "bool list packer" where
  "pack_bitset v = bind_res (eos_assert (length (to_blocks v) \<le> MAX_NUM_ARRAY_ELEMENTS) fc_assert_exception) (\<lambda>_.
     pack_then (pack_unsigned_int (of_nat (length v))) (pack_list pack_u8 (to_blocks v)))"

definition unpack_bitset :: "bool list reader" where
  "unpack_bitset = unpack_then unpack_unsigned_int (\<lambda>size.
     let num_blocks = (unat size + 7) div 8 in
     unpack_assert (num_blocks \<le> MAX_NUM_ARRAY_ELEMENTS)
       (unpack_then (unpack_n unpack_u8 num_blocks) (\<lambda>blocks. unpack_return (take (unat size) (of_blocks blocks)))))"

lemma length_to_blocks: "length (to_blocks v) = (length v + 7) div 8"
proof (induction v rule: to_blocks.induct)
  case (2 b bs)
  then show ?case by (cases "length bs \<le> 7") (simp_all add: div_add_self2[of 8, symmetric])
qed simp

lemma block_bits: "map (bit (horner_sum of_bool 2 bs :: u8)) [0..<8] = take 8 bs @ replicate (8 - length bs) False"
  by (rule nth_equalityI) (auto simp: bit_horner_sum_bit_word_iff nth_append)

lemma of_blocks_Cons: "of_blocks (x # xs) = map (bit x) [0..<8] @ of_blocks xs"
  by (simp add: of_blocks_def)

lemma of_blocks_to_blocks: "take (length v) (of_blocks (to_blocks v)) = v"
proof (induction v rule: to_blocks.induct)
  case (2 b bs)
  show ?case
  proof (cases "length bs \<le> 7")
    case True
    then show ?thesis unfolding to_blocks.simps of_blocks_Cons block_bits by simp
  next
    case False
    then have "take (length (b # bs)) (of_blocks (to_blocks (b # bs))) = take 8 (b # bs) @ drop 7 bs"
      unfolding to_blocks.simps of_blocks_Cons block_bits using 2 by simp
    then show ?thesis using append_take_drop_id[of 8 "b # bs"] by simp
  qed
qed (simp add: of_blocks_def)

interpretation bitset: codec "\<lambda>_. True" pack_bitset unpack_bitset
proof
  fix v bs rest assume "pack_bitset v = Inr bs"
  then obtain a b where p: "length (to_blocks v) \<le> MAX_NUM_ARRAY_ELEMENTS" "pack_unsigned_int (of_nat (length v)) = Inr a"
    "pack_list pack_u8 (to_blocks v) = Inr b" "bs = a @ b" by (auto simp: pack_bitset_def pack_size_simps)
  then have "length v \<le> 8 * MAX_NUM_ARRAY_ELEMENTS" by (simp add: length_to_blocks)
  then have n: "unat (of_nat (length v) :: u32) = length v" by (rule unat_count)
  have "unpack_n unpack_u8 (length (to_blocks v)) (b @ rest) = Inr (to_blocks v, rest)"
    by (rule codec_list[OF u8.codec_axioms _ p(3)]) (simp add: list_all_iff)
  with p n show "unpack_bitset (bs @ rest) = Inr (v, rest)"
    by (simp add: unpack_bitset_def uint_step unpack_simps Let_def length_to_blocks unpack_then_def[of "unpack_n _ _"] of_blocks_to_blocks)
qed

end
