(* ===== verification/Finality_Codec.thy ===== *)
theory Finality_Codec
  imports Raw_Containers Header_Agreement Aggregating_Qc
begin

text \<open>
  The wire format of the consensus types: the field lists of \<^verbatim>\<open>FC_REFLECT\<close> in finality_core.hpp, qc.hpp, vote_message.hpp,
  finalizer_authority.hpp, finalizer_policy.hpp, proposer_policy.hpp, producer_schedule.hpp and finality_extension.hpp, the
  \<^verbatim>\<open>reflector_init\<close> of protocol_feature_activation.cpp, and the BLS keys and signatures (bls_public_key.hpp,
  bls_signature.hpp). Whether bytes are a point of the curve (\<open>valid_g1\<close>, \<open>valid_g2\<close>) is decided by the bls12-381 library, and
  the encoding of elliptic curve public keys (\<open>pk\<close>, \<open>un\<close>) belongs to the cryptography library; both are arguments.
\<close>

section \<open>Finality core\<close>

definition pack_block_ref :: "block_ref packer" where
  "pack_block_ref r = pack_then (pack_sha256 (block_id r)) (pack_then (pack_u32 (timestamp r))
     (pack_then (pack_sha256 (finality_digest r)) (pack_then (pack_u32 (active_policy_generation r))
     (pack_u32 (pending_policy_generation r)))))"

definition unpack_block_ref :: "block_ref reader" where
  "unpack_block_ref = unpack_then unpack_sha256 (\<lambda>i. unpack_then unpack_u32 (\<lambda>t. unpack_then unpack_sha256 (\<lambda>d.
     unpack_then unpack_u32 (\<lambda>a. unpack_then unpack_u32 (\<lambda>p. unpack_return
       \<lparr>block_id = i, timestamp = t, finality_digest = d, active_policy_generation = a, pending_policy_generation = p\<rparr>)))))"

definition pack_qc_link :: "qc_link packer" where
  "pack_qc_link l = pack_then (pack_u32 (source_block_num l)) (pack_then (pack_u32 (target_block_num l)) (pack_bool (is_link_strong l)))"

definition unpack_qc_link :: "qc_link reader" where
  "unpack_qc_link = unpack_then unpack_u32 (\<lambda>s. unpack_then unpack_u32 (\<lambda>t. unpack_then unpack_bool (\<lambda>b.
     unpack_return \<lparr>source_block_num = s, target_block_num = t, is_link_strong = b\<rparr>)))"

definition pack_qc_claim :: "qc_claim_t packer" where
  "pack_qc_claim c = pack_then (pack_u32 (block_num c)) (pack_bool (is_strong_qc c))"

definition unpack_qc_claim :: "qc_claim_t reader" where
  "unpack_qc_claim = unpack_then unpack_u32 (\<lambda>n. unpack_then unpack_bool (\<lambda>b.
     unpack_return \<lparr>block_num = n, is_strong_qc = b\<rparr>))"

definition pack_finality_core :: "finality_core packer" where
  "pack_finality_core c = pack_then (pack_vector pack_qc_link (links c)) (pack_then (pack_vector pack_block_ref (refs c))
     (pack_u32 (genesis_timestamp c)))"

definition unpack_finality_core :: "finality_core reader" where
  "unpack_finality_core = unpack_then (unpack_vector unpack_qc_link) (\<lambda>l. unpack_then (unpack_vector unpack_block_ref) (\<lambda>r.
     unpack_then unpack_u32 (\<lambda>t. unpack_return \<lparr>links = l, refs = r, genesis_timestamp = t\<rparr>)))"

lemmas base_steps = pack_then_Inr_iff u16_step u32_step u64_step sha_step bool_step unpack_simps

interpretation ref: codec "\<lambda>_. True" pack_block_ref unpack_block_ref
  by unfold_locales (auto simp: pack_block_ref_def unpack_block_ref_def base_steps)

interpretation link: codec "\<lambda>_. True" pack_qc_link unpack_qc_link
  by unfold_locales (auto simp: pack_qc_link_def unpack_qc_link_def base_steps)

interpretation claim: codec "\<lambda>_. True" pack_qc_claim unpack_qc_claim
  by unfold_locales (auto simp: pack_qc_claim_def unpack_qc_claim_def base_steps)

interpretation fcore: codec "\<lambda>_. True" pack_finality_core unpack_finality_core
  by unfold_locales (auto simp: pack_finality_core_def unpack_finality_core_def base_steps list_all_iff
      codec_step[OF codec_vector[OF link.codec_axioms]] codec_step[OF codec_vector[OF ref.codec_axioms]])

section \<open>Keys, signatures, votes and certificates\<close>

text \<open>\<^verbatim>\<open>bls_public_key\<close>, \<^verbatim>\<open>bls_signature\<close> and \<^verbatim>\<open>bls_aggregate_signature\<close>: a fixed array written with its length.\<close>

definition pack_point :: "nat \<Rightarrow> u8 list packer" where
  "pack_point n v = pack_then (pack_unsigned_int (of_nat n)) (pack_byte_array v)"

definition unpack_point :: "nat \<Rightarrow> (u8 list \<Rightarrow> bool) \<Rightarrow> u8 list reader" where
  "unpack_point n valid = unpack_then unpack_unsigned_int (\<lambda>size. unpack_assert (size = of_nat n)
     (unpack_then (ds_read n) (\<lambda>v. unpack_assert (valid v) (unpack_return v))))"

definition bls_key_size :: nat where "bls_key_size = 96"
definition bls_sig_size :: nat where "bls_sig_size = 192"

definition pack_qc_sig :: "qc_sig_t packer" where
  "pack_qc_sig q = pack_then (pack_optional pack_bitset (strong_votes q)) (pack_then (pack_optional pack_bitset (weak_votes q))
     (pack_point bls_sig_size (sig q)))"

definition unpack_qc_sig :: "(u8 list \<Rightarrow> bool) \<Rightarrow> qc_sig_t reader" where
  "unpack_qc_sig valid_g2 = unpack_then (unpack_optional unpack_bitset) (\<lambda>s. unpack_then (unpack_optional unpack_bitset) (\<lambda>w.
     unpack_then (unpack_point bls_sig_size valid_g2) (\<lambda>g. unpack_return \<lparr>strong_votes = s, weak_votes = w, sig = g\<rparr>)))"

definition pack_qc :: "qc_t packer" where
  "pack_qc q = pack_then (pack_u32 (qc_block_num q)) (pack_then (pack_qc_sig (active_policy_sig q))
     (pack_optional pack_qc_sig (pending_policy_sig q)))"

definition unpack_qc :: "(u8 list \<Rightarrow> bool) \<Rightarrow> qc_t reader" where
  "unpack_qc valid_g2 = unpack_then unpack_u32 (\<lambda>n. unpack_then (unpack_qc_sig valid_g2) (\<lambda>a.
     unpack_then (unpack_optional (unpack_qc_sig valid_g2)) (\<lambda>p.
     unpack_return \<lparr>qc_block_num = n, active_policy_sig = a, pending_policy_sig = p\<rparr>)))"

definition pack_vote_message :: "vote_message packer" where
  "pack_vote_message v = pack_then (pack_sha256 (vote_block_id v)) (pack_then (pack_bool (vote_strong v))
     (pack_then (pack_point bls_key_size (finalizer_key v)) (pack_point bls_sig_size (vote_sig v))))"

definition unpack_vote_message :: "(u8 list \<Rightarrow> bool) \<Rightarrow> (u8 list \<Rightarrow> bool) \<Rightarrow> vote_message reader" where
  "unpack_vote_message valid_g1 valid_g2 = unpack_then unpack_sha256 (\<lambda>i. unpack_then unpack_bool (\<lambda>s.
     unpack_then (unpack_point bls_key_size valid_g1) (\<lambda>k. unpack_then (unpack_point bls_sig_size valid_g2) (\<lambda>g.
     unpack_return \<lparr>vote_block_id = i, vote_strong = s, finalizer_key = k, vote_sig = g\<rparr>))))"

text \<open>The values of the C++ types: arrays have their fixed size, and the constructors have checked the points.\<close>

definition point_ok :: "nat \<Rightarrow> (u8 list \<Rightarrow> bool) \<Rightarrow> u8 list \<Rightarrow> bool" where
  "point_ok n valid v \<longleftrightarrow> length v = n \<and> valid v"

definition qc_sig_ok :: "(u8 list \<Rightarrow> bool) \<Rightarrow> qc_sig_t \<Rightarrow> bool" where
  "qc_sig_ok valid_g2 q \<longleftrightarrow> point_ok bls_sig_size valid_g2 (sig q)"

definition qc_ok :: "(u8 list \<Rightarrow> bool) \<Rightarrow> qc_t \<Rightarrow> bool" where
  "qc_ok valid_g2 q \<longleftrightarrow> qc_sig_ok valid_g2 (active_policy_sig q) \<and>
     (\<forall>p. pending_policy_sig q = Some p \<longrightarrow> qc_sig_ok valid_g2 p)"

definition vote_message_ok :: "(u8 list \<Rightarrow> bool) \<Rightarrow> (u8 list \<Rightarrow> bool) \<Rightarrow> vote_message \<Rightarrow> bool" where
  "vote_message_ok valid_g1 valid_g2 v \<longleftrightarrow>
     point_ok bls_key_size valid_g1 (finalizer_key v) \<and> point_ok bls_sig_size valid_g2 (vote_sig v)"

interpretation point: codec "point_ok n valid" "pack_point n" "unpack_point n valid" for n valid
  by unfold_locales (auto simp: point_ok_def pack_point_def unpack_point_def pack_then_Inr_iff pack_byte_array_def uint_step unpack_simps)

lemmas bits_step = codec_step[OF codec_optional[OF bitset.codec_axioms]]
lemmas point_step = codec_step[OF point.codec_axioms]

interpretation qcsig: codec "qc_sig_ok valid" pack_qc_sig "unpack_qc_sig valid" for valid
  by unfold_locales (auto simp: qc_sig_ok_def pack_qc_sig_def unpack_qc_sig_def base_steps bits_step point_step)

lemmas qcsig_step = codec_step[OF qcsig.codec_axioms]

interpretation qcert: codec "qc_ok valid" pack_qc "unpack_qc valid" for valid
  by unfold_locales (auto simp: qc_ok_def pack_qc_def unpack_qc_def base_steps qcsig_step codec_step[OF codec_optional[OF qcsig.codec_axioms]])

interpretation vote: codec "vote_message_ok valid1 valid2" pack_vote_message "unpack_vote_message valid1 valid2" for valid1 valid2
  by unfold_locales (auto simp: vote_message_ok_def pack_vote_message_def unpack_vote_message_def base_steps point_step)

section \<open>Policies and header extensions\<close>

definition pack_finalizer_authority :: "finalizer_authority packer" where
  "pack_finalizer_authority f = pack_then (pack_string (description f)) (pack_then (pack_u64 (weight f))
     (pack_point bls_key_size (public_key f)))"

definition unpack_finalizer_authority :: "(u8 list \<Rightarrow> bool) \<Rightarrow> finalizer_authority reader" where
  "unpack_finalizer_authority valid_g1 = unpack_then unpack_string (\<lambda>d. unpack_then unpack_u64 (\<lambda>w.
     unpack_then (unpack_point bls_key_size valid_g1) (\<lambda>k.
     unpack_return \<lparr>description = d, weight = w, public_key = k\<rparr>)))"

definition pack_finalizer_policy :: "finalizer_policy packer" where
  "pack_finalizer_policy p = pack_then (pack_u32 (generation p)) (pack_then (pack_u64 (threshold p))
     (pack_vector pack_finalizer_authority (finalizers p)))"

definition unpack_finalizer_policy :: "(u8 list \<Rightarrow> bool) \<Rightarrow> finalizer_policy reader" where
  "unpack_finalizer_policy valid_g1 = unpack_then unpack_u32 (\<lambda>g. unpack_then unpack_u64 (\<lambda>t.
     unpack_then (unpack_vector (unpack_finalizer_authority valid_g1)) (\<lambda>f.
     unpack_return \<lparr>generation = g, threshold = t, finalizers = f\<rparr>)))"

definition pack_diff :: "'a packer \<Rightarrow> 'a diff_result packer" where
  "pack_diff pk d = pack_then (pack_vector pack_u16 (remove_indexes d)) (pack_vector (pack_pair pack_u16 pk) (insert_indexes d))"

definition unpack_diff :: "'a reader \<Rightarrow> 'a diff_result reader" where
  "unpack_diff un = unpack_then (unpack_vector unpack_u16) (\<lambda>r. unpack_then (unpack_vector (unpack_pair unpack_u16 un)) (\<lambda>i.
     unpack_return \<lparr>remove_indexes = r, insert_indexes = i\<rparr>))"

definition pack_finalizer_policy_diff :: "finalizer_policy_diff packer" where
  "pack_finalizer_policy_diff d = pack_then (pack_u32 (diff_generation d)) (pack_then (pack_u64 (diff_threshold d))
     (pack_diff pack_finalizer_authority (finalizers_diff d)))"

definition unpack_finalizer_policy_diff :: "(u8 list \<Rightarrow> bool) \<Rightarrow> finalizer_policy_diff reader" where
  "unpack_finalizer_policy_diff valid_g1 = unpack_then unpack_u32 (\<lambda>g. unpack_then unpack_u64 (\<lambda>t.
     unpack_then (unpack_diff (unpack_finalizer_authority valid_g1)) (\<lambda>f.
     unpack_return \<lparr>diff_generation = g, diff_threshold = t, finalizers_diff = f\<rparr>)))"

text \<open>\<^verbatim>\<open>block_signing_authority\<close> is a variant with one alternative: the index 0, then the threshold and the keys.\<close>

definition pack_key_weight :: "public_key_type packer \<Rightarrow> key_weight packer" where
  "pack_key_weight pk w = pack_then (pk (kw_key w)) (pack_u16 (kw_weight w))"

definition unpack_key_weight :: "public_key_type reader \<Rightarrow> key_weight reader" where
  "unpack_key_weight un = unpack_then un (\<lambda>k. unpack_then unpack_u16 (\<lambda>w. unpack_return \<lparr>kw_key = k, kw_weight = w\<rparr>))"

definition pack_signing_authority :: "public_key_type packer \<Rightarrow> block_signing_authority packer" where
  "pack_signing_authority pk a = pack_then (pack_unsigned_int 0) (pack_then (pack_u32 (bsa_threshold a))
     (pack_vector (pack_key_weight pk) (bsa_keys a)))"

definition unpack_signing_authority :: "public_key_type reader \<Rightarrow> block_signing_authority reader" where
  "unpack_signing_authority un = unpack_then unpack_unsigned_int (\<lambda>index. unpack_assert (index = 0)
     (unpack_then unpack_u32 (\<lambda>t. unpack_then (unpack_vector (unpack_key_weight un)) (\<lambda>ks.
     unpack_return (block_signing_authority_v0 t ks)))))"

definition pack_producer_authority :: "public_key_type packer \<Rightarrow> producer_authority packer" where
  "pack_producer_authority pk p = pack_then (pack_u64 (producer_name p)) (pack_signing_authority pk (authority p))"

definition unpack_producer_authority :: "public_key_type reader \<Rightarrow> producer_authority reader" where
  "unpack_producer_authority un = unpack_then unpack_u64 (\<lambda>n. unpack_then (unpack_signing_authority un) (\<lambda>a.
     unpack_return \<lparr>producer_name = n, authority = a\<rparr>))"

definition pack_producer_schedule :: "public_key_type packer \<Rightarrow> producer_authority_schedule packer" where
  "pack_producer_schedule pk s = pack_then (pack_u32 (version s)) (pack_vector (pack_producer_authority pk) (producers s))"

definition unpack_producer_schedule :: "public_key_type reader \<Rightarrow> producer_authority_schedule reader" where
  "unpack_producer_schedule un = unpack_then unpack_u32 (\<lambda>v. unpack_then (unpack_vector (unpack_producer_authority un)) (\<lambda>ps.
     unpack_return \<lparr>version = v, producers = ps\<rparr>))"

definition pack_proposer_policy_diff :: "public_key_type packer \<Rightarrow> proposer_policy_diff packer" where
  "pack_proposer_policy_diff pk d = pack_then (pack_u32 (pdiff_version d)) (pack_then (pack_u32 (pdiff_proposal_time d))
     (pack_diff (pack_producer_authority pk) (producer_auth_diff d)))"

definition unpack_proposer_policy_diff :: "public_key_type reader \<Rightarrow> proposer_policy_diff reader" where
  "unpack_proposer_policy_diff un = unpack_then unpack_u32 (\<lambda>v. unpack_then unpack_u32 (\<lambda>t.
     unpack_then (unpack_diff (unpack_producer_authority un)) (\<lambda>d.
     unpack_return \<lparr>pdiff_version = v, pdiff_proposal_time = t, producer_auth_diff = d\<rparr>)))"

definition pack_finality_extension :: "public_key_type packer \<Rightarrow> finality_extension packer" where
  "pack_finality_extension pk f = pack_then (pack_qc_claim (f_qc_claim f))
     (pack_then (pack_optional pack_finalizer_policy_diff (new_finalizer_policy_diff f))
     (pack_optional (pack_proposer_policy_diff pk) (new_proposer_policy_diff f)))"

definition unpack_finality_extension :: "(u8 list \<Rightarrow> bool) \<Rightarrow> public_key_type reader \<Rightarrow> finality_extension reader" where
  "unpack_finality_extension valid_g1 un = unpack_then unpack_qc_claim (\<lambda>c.
     unpack_then (unpack_optional (unpack_finalizer_policy_diff valid_g1)) (\<lambda>f.
     unpack_then (unpack_optional (unpack_proposer_policy_diff un)) (\<lambda>p.
     unpack_return \<lparr>f_qc_claim = c, new_finalizer_policy_diff = f, new_proposer_policy_diff = p\<rparr>)))"

text \<open>\<^verbatim>\<open>protocol_feature_activation\<close>: \<^verbatim>\<open>reflector_init\<close> runs after unpacking and rejects an empty or repeating list.\<close>

definition unpack_features :: "digest_type list reader" where
  "unpack_features = unpack_then (unpack_vector unpack_sha256) (\<lambda>ds s.
     bind_res (eos_assert (ds \<noteq> []) ill_formed_protocol_feature_activation) (\<lambda>_.
     bind_res (eos_assert (distinct ds) ill_formed_protocol_feature_activation) (\<lambda>_. Inr (ds, s))))"

text \<open>\<^verbatim>\<open>decompose::extract\<close> and \<^verbatim>\<open>fc::raw::unpack<T>(data)\<close>: what follows the value is ignored; an exception is \<open>None\<close> here.\<close>

definition raw_unpack :: "'a reader \<Rightarrow> u8 list \<Rightarrow> 'a option" where
  "raw_unpack un data = (case un data of Inr (x, rest) \<Rightarrow> Some x | Inl e \<Rightarrow> None)"

definition extract_header_ext :: "(u8 list \<Rightarrow> bool) \<Rightarrow> public_key_type reader \<Rightarrow> u16 \<Rightarrow> u8 list \<Rightarrow> block_header_extension option" where
  "extract_header_ext valid_g1 un eid data =
     (if eid = pfa_extension_id then map_option protocol_feature_activation (raw_unpack unpack_features data)
      else if eid = 1 then map_option producer_schedule_change_extension (raw_unpack (unpack_producer_schedule un) data)
      else if eid = finality_extension_id then map_option finality_ext (raw_unpack (unpack_finality_extension valid_g1 un) data)
      else None)"

definition pack_header_ext :: "public_key_type packer \<Rightarrow> block_header_extension packer" where
  "pack_header_ext pk e = (case e of
     protocol_feature_activation fs \<Rightarrow> pack_vector pack_sha256 fs
   | producer_schedule_change_extension s \<Rightarrow> pack_producer_schedule pk s
   | finality_ext f \<Rightarrow> pack_finality_extension pk f)"

text \<open>The encoding as the argument of the header functions; where packing raises, no block is assembled.\<close>

definition wire_codec :: "(u8 list \<Rightarrow> bool) \<Rightarrow> public_key_type packer \<Rightarrow> public_key_type reader \<Rightarrow> ext_codec" where
  "wire_codec valid_g1 pk un = \<lparr>ext_extract = extract_header_ext valid_g1 un,
     ext_pack = (\<lambda>e. case pack_header_ext pk e of Inr bs \<Rightarrow> bs | Inl _ \<Rightarrow> [])\<rparr>"

definition authority_ok :: "(u8 list \<Rightarrow> bool) \<Rightarrow> finalizer_authority \<Rightarrow> bool" where
  "authority_ok valid_g1 f \<longleftrightarrow> point_ok bls_key_size valid_g1 (public_key f)"

definition diff_ok :: "('a \<Rightarrow> bool) \<Rightarrow> 'a diff_result \<Rightarrow> bool" where
  "diff_ok ok d \<longleftrightarrow> list_all (\<lambda>e. ok (snd e)) (insert_indexes d)"

definition signing_ok :: "(public_key_type \<Rightarrow> bool) \<Rightarrow> producer_authority \<Rightarrow> bool" where
  "signing_ok okk p \<longleftrightarrow> list_all (\<lambda>w. okk (kw_key w)) (bsa_keys (authority p))"

definition finality_ext_ok :: "(u8 list \<Rightarrow> bool) \<Rightarrow> (public_key_type \<Rightarrow> bool) \<Rightarrow> finality_extension \<Rightarrow> bool" where
  "finality_ext_ok valid_g1 okk f \<longleftrightarrow>
     (\<forall>d. new_finalizer_policy_diff f = Some d \<longrightarrow> diff_ok (authority_ok valid_g1) (finalizers_diff d)) \<and>
     (\<forall>d. new_proposer_policy_diff f = Some d \<longrightarrow> diff_ok (signing_ok okk) (producer_auth_diff d))"

interpretation auth: codec "authority_ok valid" pack_finalizer_authority "unpack_finalizer_authority valid" for valid
  by unfold_locales (auto simp: authority_ok_def pack_finalizer_authority_def unpack_finalizer_authority_def base_steps
      codec_step[OF str.codec_axioms] point_step)

interpretation fpolicy: codec "\<lambda>p. list_all (authority_ok valid) (finalizers p)" pack_finalizer_policy "unpack_finalizer_policy valid" for valid
  by unfold_locales (auto simp: pack_finalizer_policy_def unpack_finalizer_policy_def base_steps codec_step[OF codec_vector[OF auth.codec_axioms]])

lemma codec_diff:
  assumes "codec ok pk un"
  shows "codec (diff_ok ok) (pack_diff pk) (unpack_diff un)"
proof -
  have l: "list_all (\<lambda>_. True) xs" for xs by (simp add: list_all_iff)
  show ?thesis
    by (rule codecI) (auto simp: diff_ok_def pack_diff_def unpack_diff_def base_steps l
        codec_step[OF codec_vector[OF u16.codec_axioms]] codec_step[OF codec_vector[OF codec_pair[OF u16.codec_axioms assms]]])
qed

lemma codec_finalizer_policy_diff:
  "codec (\<lambda>d. diff_ok (authority_ok valid) (finalizers_diff d)) pack_finalizer_policy_diff (unpack_finalizer_policy_diff valid)"
  by (rule codecI) (auto simp: pack_finalizer_policy_diff_def unpack_finalizer_policy_diff_def base_steps
      codec_step[OF codec_diff[OF auth.codec_axioms]])

lemma codec_key_weight: "codec okk pk un \<Longrightarrow> codec (\<lambda>w. okk (kw_key w)) (pack_key_weight pk) (unpack_key_weight un)"
  by (rule codecI) (auto simp: pack_key_weight_def unpack_key_weight_def base_steps codec_step)

lemma codec_producer_authority:
  assumes "codec okk pk un"
  shows "codec (signing_ok okk) (pack_producer_authority pk) (unpack_producer_authority un)"
proof (rule codecI)
  fix x bs rest assume "signing_ok okk x" "pack_producer_authority pk x = Inr bs"
  moreover obtain n t ks where "x = \<lparr>producer_name = n, authority = block_signing_authority_v0 t ks\<rparr>"
    by (metis producer_authority.cases block_signing_authority.exhaust)
  ultimately show "unpack_producer_authority un (bs @ rest) = Inr (x, rest)"
    by (auto simp: signing_ok_def pack_producer_authority_def unpack_producer_authority_def pack_signing_authority_def
        unpack_signing_authority_def base_steps uint_step codec_step[OF codec_vector[OF codec_key_weight[OF assms]]]
        unpack_then_def[of "unpack_then _ _"])
qed

lemma codec_proposer_policy_diff:
  assumes "codec okk pk un"
  shows "codec (\<lambda>d. diff_ok (signing_ok okk) (producer_auth_diff d)) (pack_proposer_policy_diff pk) (unpack_proposer_policy_diff un)"
  by (rule codecI) (auto simp: pack_proposer_policy_diff_def unpack_proposer_policy_diff_def base_steps
      codec_step[OF codec_diff[OF codec_producer_authority[OF assms]]])

lemma codec_finality_extension:
  assumes "codec okk pk un"
  shows "codec (finality_ext_ok valid okk) (pack_finality_extension pk) (unpack_finality_extension valid un)"
  by (rule codecI) (auto simp: finality_ext_ok_def pack_finality_extension_def unpack_finality_extension_def base_steps
      codec_step[OF claim.codec_axioms] codec_step[OF codec_optional[OF codec_finalizer_policy_diff]]
      codec_step[OF codec_optional[OF codec_proposer_policy_diff[OF assms]]])

interpretation features: codec "\<lambda>fs. fs \<noteq> [] \<and> distinct fs" "pack_vector pack_sha256" unpack_features
proof
  have l: "list_all (\<lambda>_. True) xs" for xs by (simp add: list_all_iff)
  fix fs bs rest assume "fs \<noteq> [] \<and> distinct fs" "pack_vector pack_sha256 fs = Inr bs"
  then show "unpack_features (bs @ rest) = Inr (fs, rest)"
    by (simp add: unpack_features_def codec_step[OF codec_vector[OF sha.codec_axioms] _ l])
qed

lemma codec_raw_unpack: "codec ok pk un \<Longrightarrow> pk x = Inr bs \<Longrightarrow> ok x \<Longrightarrow> raw_unpack un bs = Some x"
  using codec.round_trip[of ok pk un x bs "[]"] by (simp add: raw_unpack_def)

lemma wire_codec_finality:
  assumes "codec okk pk un" and "finality_ext_ok valid okk f" and "pack_finality_extension pk f = Inr bs"
  shows "codec_inverts (wire_codec valid pk un) finality_extension_id (finality_ext f)"
  using codec_raw_unpack[OF codec_finality_extension[OF assms(1)] assms(3,2)]
  by (simp add: codec_inverts_def wire_codec_def extract_header_ext_def pack_header_ext_def assms(3) finality_extension_id_def pfa_extension_id_def)

lemma wire_codec_features:
  assumes "fs \<noteq> []" and "distinct fs" and "length fs \<le> MAX_NUM_ARRAY_ELEMENTS"
  shows "codec_inverts (wire_codec valid pk un) pfa_extension_id (protocol_feature_activation fs)"
proof -
  have "\<exists>bs. pack_list pack_sha256 fs = Inr bs" by (induction fs) (auto simp: pack_sha256_def pack_then_def)
  with assms(3) obtain bs where bs: "pack_vector pack_sha256 fs = Inr bs"
    by (auto simp: pack_vector_def pack_unsigned_int_def pack_then_def)
  show ?thesis
    using codec_raw_unpack[OF features.codec_axioms bs] assms(1,2) bs
    by (simp add: codec_inverts_def wire_codec_def extract_header_ext_def pack_header_ext_def)
qed

section \<open>Properties\<close>

text \<open>
  C33. The wire format of certificates and votes. A certificate that was packed is unpacked to the same certificate whatever
  follows it in the stream, and two certificates with the same bytes are equal; likewise for vote messages. The keys and
  signatures have passed the checks of their constructors.
\<close>

theorem qc_and_vote_round_trip:
  assumes "qc_ok valid_g2 q" and "pack_qc q = Inr bs" and "vote_message_ok valid_g1 valid_g2 v" and "pack_vote_message v = Inr cs"
  shows "unpack_qc valid_g2 (bs @ rest) = Inr (q, rest) \<and> (\<forall>q'. qc_ok valid_g2 q' \<longrightarrow> pack_qc q' = Inr bs \<longrightarrow> q' = q) \<and>
    unpack_vote_message valid_g1 valid_g2 (cs @ rest) = Inr (v, rest) \<and>
    (\<forall>v'. vote_message_ok valid_g1 valid_g2 v' \<longrightarrow> pack_vote_message v' = Inr cs \<longrightarrow> v' = v)"
  using assms qcert.round_trip qcert.pack_inj vote.round_trip vote.pack_inj by blast

definition ex_wire_qc :: qc_t where
  "ex_wire_qc = \<lparr>qc_block_num = 7, active_policy_sig = \<lparr>strong_votes = Some [True, False, True], weak_votes = Some [False, True, False],
     sig = replicate 192 1\<rparr>, pending_policy_sig = None\<rparr>"

definition ex_wire_vote :: vote_message where
  "ex_wire_vote = \<lparr>vote_block_id = Sha256 1 2 3 4, vote_strong = True, finalizer_key = replicate 96 2, vote_sig = replicate 192 3\<rparr>"

theorem qc_and_vote_round_trip_witness:
  "\<exists>bs cs. pack_qc ex_wire_qc = Inr bs \<and> pack_vote_message ex_wire_vote = Inr cs \<and>
     unpack_qc (\<lambda>_. True) (bs @ [9]) = Inr (ex_wire_qc, [9]) \<and>
     unpack_vote_message (\<lambda>_. True) (\<lambda>_. True) (cs @ [9]) = Inr (ex_wire_vote, [9])"
proof -
  have ok: "qc_ok (\<lambda>_. True) ex_wire_qc" "vote_message_ok (\<lambda>_. True) (\<lambda>_. True) ex_wire_vote"
    by (simp_all add: qc_ok_def qc_sig_ok_def point_ok_def vote_message_ok_def ex_wire_qc_def ex_wire_vote_def bls_sig_size_def bls_key_size_def)
  obtain bs where bs: "pack_qc ex_wire_qc = Inr bs"
    by (simp add: ex_wire_qc_def pack_qc_def pack_qc_sig_def pack_point_def pack_optional_def pack_bool_def pack_bitset_def pack_u8_def
        pack_u32_def pack_unsigned_int_def pack_byte_array_def pack_then_def MAX_NUM_ARRAY_ELEMENTS_def)
  obtain cs where cs: "pack_vote_message ex_wire_vote = Inr cs"
    by (simp add: ex_wire_vote_def pack_vote_message_def pack_sha256_def pack_bool_def pack_u8_def pack_point_def pack_unsigned_int_def
        pack_byte_array_def pack_then_def)
  note qc_and_vote_round_trip[OF ok(1) bs ok(2) cs, of "[9]"]
  with bs cs show ?thesis by blast
qed

text \<open>
  C27. The producer and the other nodes agree. If the producer assembles a block on its parent state for a
  slot that is its own, with a finality root claim that is empty exactly when the claimed block is the
  genesis block, then every node with the same parent state, whose validator accepts the activated
  protocol features, accepts the assembled header and computes the same next state. Extensions are written and read in the
  binary format; the keys in the policies have passed the checks of their constructors, and no size limit is exceeded.
\<close>

theorem assembled_header_accepted:
  assumes "next_assembled hl (wire_codec valid_g1 pk un) fresh s inp = Inr s'" and "codec okk pk un"
    and "\<And>f. assembled_finality_extension s inp = Inr f \<Longrightarrow> finality_ext_ok valid_g1 okk f \<and> (\<exists>bs. pack_finality_extension pk f = Inr bs)"
    and "length (new_protocol_feature_activations inp) \<le> MAX_NUM_ARRAY_ELEMENTS"
    and "parent_id inp = bhs_block_id s"
    and "get_producer_for_block_at s (in_timestamp inp) = Some pr" and "in_producer inp = producer_name pr"
    and "next_metadata (core s) (most_recent_ancestor_with_qc inp) = Some md"
    and "is_genesis_block_num (core s) (md_latest_qc_claim_block_num md) = Some (sha256_empty (finality_mroot_claim inp))"
    and "new_protocol_feature_activations inp \<noteq> [] \<Longrightarrow>
      validator (bhs_timestamp s) (activated_protocol_features s) (new_protocol_feature_activations inp) = Inr ()"
  shows "next_received hl (wire_codec valid_g1 pk un) validator fresh s (header s') = Inr s'"
proof (rule assembled_header_agrees[OF assms(1) _ _ assms(5-9)])
  fix f assume "assembled_finality_extension s inp = Inr f"
  from assms(3)[OF this] show "codec_inverts (wire_codec valid_g1 pk un) finality_extension_id (finality_ext f)"
    using wire_codec_finality[OF assms(2)] by blast
next
  fix fs assume "fs = new_protocol_feature_activations inp" "fs \<noteq> []" "distinct fs"
  then show "codec_inverts (wire_codec valid_g1 pk un) pfa_extension_id (protocol_feature_activation fs)"
    using assms(4) by (intro wire_codec_features) simp_all
qed (rule assms(10))

definition ex_wire :: ext_codec where
  "ex_wire = wire_codec (\<lambda>_. True) pack_bytes unpack_bytes"

theorem assembled_header_accepted_witness:
  "\<exists>s'. next_assembled ex_hl ex_wire 0 ex_parent ex_input = Inr s' \<and>
        next_received ex_hl ex_wire (\<lambda>_ _ _. Inr ()) 0 ex_parent (header s') = Inr s'"
proof -
  have f: "assembled_finality_extension ex_parent ex_input = Inr (ex_fext 1 False False)"
    by (simp add: assembled_finality_extension_def ex_input_def ex_fext_def)
  obtain s' where s': "next_assembled ex_hl ex_wire 0 ex_parent ex_input = Inr s'"
    by (simp add: next_assembled_def f) (simp add: ex_parent_def ex_input_def ex_s1_def assembled_header_def ex_eval)
  have pr: "get_producer_for_block_at ex_parent (in_timestamp ex_input) = Some (producers ex_schedule ! 0)"
    by (simp add: get_producer_for_block_at_def get_scheduled_producer_def ex_parent_def ex_input_def ex_s1_def ex_schedule_def
        producer_repetitions_def ex_eval)
  have md: "next_metadata (core ex_parent) (most_recent_ancestor_with_qc ex_input) =
      Some \<lparr>md_last_final_block_num = 1, md_latest_qc_claim_block_num = 1\<rparr>"
    by (simp add: next_metadata_def ex_parent_def ex_input_def ex_s1_def ex_eval)
  have gen: "is_genesis_block_num (core ex_parent) 1 = Some (sha256_empty (finality_mroot_claim ex_input))"
    by (simp add: is_genesis_block_num_def ex_parent_def ex_input_def ex_s1_def ex_eval sha256_empty_def sha256_zero_def)
  have packed: "\<exists>bs. pack_finality_extension pack_bytes (ex_fext 1 False False) = Inr bs" "finality_ext_ok (\<lambda>_. True) (\<lambda>_. True) (ex_fext 1 False False)"
    by (simp_all add: finality_ext_ok_def ex_fext_def pack_finality_extension_def pack_optional_def pack_bool_def pack_u8_def pack_u32_def
        pack_qc_claim_def pack_then_def)
  have "next_received ex_hl ex_wire (\<lambda>_ _ _. Inr ()) 0 ex_parent (header s') = Inr s'"
    unfolding ex_wire_def
    by (rule assembled_header_accepted[OF s'[unfolded ex_wire_def] bytes.codec_axioms _ _ _ pr _ md])
      (use gen f packed in \<open>simp_all add: ex_input_def ex_parent_def ex_s1_def ex_schedule_def\<close>)
  with s' show ?thesis by blast
qed

end
