(* ===== verification/Finalizer.thy ===== *)
theory Finalizer
  imports Block_State
begin

text \<open>
  The voting rule of a finalizer (finality/finalizer.hpp and finality/finalizer.cpp): the safety information
  that a finalizer keeps, \<^verbatim>\<open>decide_vote\<close>, which updates it, and \<^verbatim>\<open>maybe_vote\<close>, which signs the vote. Signing belongs to
  the bls12-381 library and is the argument \<open>bls_sign\<close>, where \<open>None\<close> stands for a thrown exception.
\<close>

section \<open>Safety information\<close>

definition empty_block_ref :: block_ref where
  "empty_block_ref = \<lparr>block_id = sha256_zero, timestamp = 0, finality_digest = sha256_zero,
                      active_policy_generation = 0, pending_policy_generation = 0\<rparr>"

record finalizer_safety_information =
  last_vote :: block_ref
  lock :: block_ref
  other_branch_latest_time :: block_timestamp_type

definition unset_fsi :: finalizer_safety_information where
  "unset_fsi = \<lparr>last_vote = empty_block_ref, lock = empty_block_ref, other_branch_latest_time = 0\<rparr>"

datatype vote_decision = no_vote | strong_vote | weak_vote

record vote_result =
  decision :: vote_decision
  safety_check :: bool
  liveness_check :: bool
  monotony_check :: bool

type_synonym bls_private_key = "u8 list"

record finalizer =
  priv_key :: bls_private_key
  fsi :: finalizer_safety_information

section \<open>Votes\<close>

text \<open>The liveness check and, where it fails, the safety check; both fail on an empty lock.\<close>

definition vote_checks :: "finality_core \<Rightarrow> block_ref \<Rightarrow> (bool \<times> bool) option" where
  "vote_checks c lk =
     (if \<not> block_ref_empty lk then do {
        qc_ts \<leftarrow> latest_qc_block_timestamp c;
        if qc_ts > timestamp lk then Some (True, False)
        else do { safety \<leftarrow> extends c (block_id lk); Some (False, safety) }
      } else Some (False, False))"

text \<open>Whether the vote is strong, with the new \<^verbatim>\<open>other_branch_latest_time\<close>.\<close>

definition vote_strength ::
    "finality_core \<Rightarrow> block_timestamp_type \<Rightarrow> finalizer_safety_information \<Rightarrow> (vote_decision \<times> block_timestamp_type) option" where
  "vote_strength c qc_ts i =
     (if timestamp (last_vote i) \<le> qc_ts then Some (strong_vote, 0)
      else do {
        e \<leftarrow> extends c (block_id (last_vote i));
        Some (if e then if other_branch_latest_time i \<le> qc_ts then (strong_vote, 0)
                        else (weak_vote, other_branch_latest_time i)
              else (weak_vote, timestamp (last_vote i)))
      })"

definition vote_update :: "block_state \<Rightarrow> finalizer_safety_information \<Rightarrow> (vote_decision \<times> finalizer_safety_information) option" where
  "vote_update bs i = do {
     qc_ts \<leftarrow> latest_qc_block_timestamp (core (bhs bs));
     (d, other) \<leftarrow> vote_strength (core (bhs bs)) qc_ts i;
     lk \<leftarrow> (if d = strong_vote \<and> qc_ts > timestamp (lock i) then do {
               claim \<leftarrow> latest_qc_claim (core (bhs bs));
               get_block_reference (core (bhs bs)) (block_num claim)
             } else Some (lock i));
     Some (d, \<lparr>last_vote = bs_make_block_ref bs, lock = lk, other_branch_latest_time = other\<rparr>)
   }"

definition decide_vote :: "block_state \<Rightarrow> finalizer_safety_information \<Rightarrow> (vote_result \<times> finalizer_safety_information) option" where
  "decide_vote bs i =
     (if \<not> (block_ref_empty (last_vote i) \<or> bhs_timestamp (bhs bs) > timestamp (last_vote i))
      then Some (\<lparr>decision = no_vote, safety_check = False, liveness_check = False, monotony_check = False\<rparr>, i)
      else do {
        (liveness, safety) \<leftarrow> vote_checks (core (bhs bs)) (lock i);
        (d, i') \<leftarrow> (if liveness \<or> safety then vote_update bs i else Some (no_vote, i));
        Some (\<lparr>decision = d, safety_check = safety, liveness_check = liveness, monotony_check = True\<rparr>, i')
      })"

definition maybe_update_fsi :: "block_state \<Rightarrow> finalizer_safety_information \<Rightarrow> (bool \<times> finalizer_safety_information) option" where
  "maybe_update_fsi bs i = do {
     claim \<leftarrow> latest_qc_claim (core (bhs bs));
     r \<leftarrow> get_block_reference (core (bhs bs)) (block_num claim);
     Some (if timestamp r > timestamp (lock i) \<and> bhs_timestamp (bhs bs) > timestamp (last_vote i)
           then (True, \<lparr>last_vote = bs_make_block_ref bs, lock = r, other_branch_latest_time = 0\<rparr>)
           else (False, i))
   }"

definition maybe_vote ::
    "(bls_private_key \<Rightarrow> u8 list \<Rightarrow> bls_signature option) \<Rightarrow> bls_public_key \<Rightarrow> block_state \<Rightarrow> digest_type \<Rightarrow> finalizer \<Rightarrow>
     (vote_message option \<times> finalizer) option" where
  "maybe_vote bls_sign pub_key bs digest f = do {
     (res, i) \<leftarrow> decide_vote bs (fsi f);
     let f' = f\<lparr>fsi := i\<rparr>;
     let signature = (case decision res of
           no_vote \<Rightarrow> None
         | weak_vote \<Rightarrow> bls_sign (priv_key f) (create_weak_digest digest)
         | strong_vote \<Rightarrow> bls_sign (priv_key f) (sha256_data digest));
     Some (map_option (\<lambda>s. \<lparr>vote_block_id = bhs_block_id (bhs bs), vote_strong = (decision res = strong_vote),
                            finalizer_key = pub_key, vote_sig = s\<rparr>) signature, f')
   }"

text \<open>\<^verbatim>\<open>has_voted_strong\<close>: \<^verbatim>\<open>dynamic_bitset::test\<close> asserts that the position is in range.\<close>

definition has_voted_strong :: "finalizer_authority list \<Rightarrow> qc_sig_t \<Rightarrow> bls_public_key \<Rightarrow> bool option" where
  "has_voted_strong fs q key = do {
     assert_opt (qc_sig_is_strong q);
     case find_finalizer key fs of
       None \<Rightarrow> Some False
     | Some index \<Rightarrow> do {
         votes \<leftarrow> strong_votes q;
         assert_opt (index < length votes);
         Some (votes ! index)
       }
   }"

section \<open>Reading a vote\<close>

lemma decide_vote_votes:
  assumes "decide_vote bs i = Some (res, i')" and "decision res \<noteq> no_vote"
  shows "block_ref_empty (last_vote i) \<or> timestamp (last_vote i) < bhs_timestamp (bhs bs)"
    and "\<exists>qc_ts. latest_qc_block_timestamp (core (bhs bs)) = Some qc_ts \<and>
           (timestamp (lock i) < qc_ts \<or> extends (core (bhs bs)) (block_id (lock i)) = Some True)"
    and "vote_update bs i = Some (decision res, i')"
proof -
  show mono: "block_ref_empty (last_vote i) \<or> timestamp (last_vote i) < bhs_timestamp (bhs bs)"
    using assms by (auto simp: decide_vote_def split: if_splits)
  then obtain liveness safety where checks: "vote_checks (core (bhs bs)) (lock i) = Some (liveness, safety)"
    and upd: "(if liveness \<or> safety then vote_update bs i else Some (no_vote, i)) = Some (decision res, i')"
    using assms(1) by (auto simp: decide_vote_def bind_eq_Some_conv)
  from upd assms(2) have can: "liveness \<or> safety" by (auto split: if_splits)
  with upd show "vote_update bs i = Some (decision res, i')" by simp
  from checks can show "\<exists>qc_ts. latest_qc_block_timestamp (core (bhs bs)) = Some qc_ts \<and>
           (timestamp (lock i) < qc_ts \<or> extends (core (bhs bs)) (block_id (lock i)) = Some True)"
    by (auto simp: vote_checks_def bind_eq_Some_conv split: if_splits)
qed

lemma vote_update_spec:
  assumes "vote_update bs i = Some (d, i')" and "latest_qc_block_timestamp (core (bhs bs)) = Some qc_ts"
  shows "vote_strength (core (bhs bs)) qc_ts i = Some (d, other_branch_latest_time i')"
    and "last_vote i' = bs_make_block_ref bs"
    and "\<not> (d = strong_vote \<and> timestamp (lock i) < qc_ts) \<Longrightarrow> lock i' = lock i"
    and "d = strong_vote \<Longrightarrow> timestamp (lock i) < qc_ts \<Longrightarrow> latest_qc_claim (core (bhs bs)) = Some claim \<Longrightarrow>
           get_block_reference (core (bhs bs)) (block_num claim) = Some (lock i')"
  using assms by (auto simp: vote_update_def bind_eq_Some_conv split: if_splits)

lemma vote_strength_cases:
  assumes "vote_strength c qc_ts i = Some (d, t)"
  shows "d = strong_vote \<and> t = 0 \<and>
           (timestamp (last_vote i) \<le> qc_ts \<or>
            extends c (block_id (last_vote i)) = Some True \<and> other_branch_latest_time i \<le> qc_ts) \<or>
         d = weak_vote \<and> qc_ts < timestamp (last_vote i) \<and>
           (extends c (block_id (last_vote i)) = Some True \<and> t = other_branch_latest_time i \<or> t = timestamp (last_vote i))"
  using assms by (auto simp: vote_strength_def bind_eq_Some_conv split: if_splits)

lemma decide_vote_no_vote:
  assumes "decide_vote bs i = Some (res, i')" and "decision res = no_vote"
  shows "i' = i"
proof (cases "block_ref_empty (last_vote i) \<or> timestamp (last_vote i) < bhs_timestamp (bhs bs)")
  case True
  with assms obtain can where "(if can then vote_update bs i else Some (no_vote, i)) = Some (no_vote, i')"
    by (auto simp: decide_vote_def bind_eq_Some_conv)
  moreover have "vote_strength c t i \<noteq> Some (no_vote, t')" for c t t' using vote_strength_cases by fastforce
  ultimately show ?thesis by (auto simp: vote_update_def bind_eq_Some_conv split: if_splits)
next
  case False
  with assms show ?thesis by (auto simp: decide_vote_def)
qed

end
