(* ===== verification/Safety_File.thy ===== *)
theory Safety_File
  imports Finality_Codec Finalizer
begin

text \<open>
  The file in which a node keeps the safety information of its finalizers (finality/finalizer.cpp, safety file i/o): the format
  that is written, and the readers of versions 0 and 1. The checksum of boost is the argument \<open>crc\<close>, a function of the
  bytes that went through the stream; \<open>valid_g1\<close> is the point check of the bls12-381 library.
\<close>

type_synonym fsi_map = "(bls_public_key, finalizer_safety_information) std_map"

definition fsi_magic :: u64 where "fsi_magic = 0x5AFE11115AFE1111"

definition safety_file_version_0 :: u64 where "safety_file_version_0 = 0"
definition safety_file_version_1 :: u64 where "safety_file_version_1 = 1"
definition current_safety_file_version :: u64 where "current_safety_file_version = safety_file_version_1"

section \<open>Format\<close>

text \<open>A reference is written without its generation numbers and read into a default constructed one.\<close>

definition pack_v0 :: "block_ref packer" where
  "pack_v0 r = pack_then (pack_sha256 (block_id r)) (pack_then (pack_u32 (timestamp r)) (pack_sha256 (finality_digest r)))"

definition unpack_v0 :: "block_ref reader" where
  "unpack_v0 = unpack_then unpack_sha256 (\<lambda>i. unpack_then unpack_u32 (\<lambda>t. unpack_then unpack_sha256 (\<lambda>d.
     unpack_return (empty_block_ref\<lparr>block_id := i, timestamp := t, finality_digest := d\<rparr>))))"

definition pack_v1 :: "finalizer_safety_information packer" where
  "pack_v1 i = pack_then (pack_v0 (last_vote i)) (pack_then (pack_v0 (lock i)) (pack_u32 (other_branch_latest_time i)))"

definition unpack_v1 :: "finalizer_safety_information reader" where
  "unpack_v1 = unpack_then unpack_v0 (\<lambda>v. unpack_then unpack_v0 (\<lambda>l. unpack_then unpack_u32 (\<lambda>t.
     unpack_return \<lparr>last_vote = v, lock = l, other_branch_latest_time = t\<rparr>)))"

definition pack_fsi_entry :: "(bls_public_key \<times> finalizer_safety_information) packer" where
  "pack_fsi_entry = pack_pair (pack_point bls_key_size) pack_v1"

text \<open>What \<^verbatim>\<open>save_finalizer_safety_info\<close> writes: inactive entries first, the checksum of everything before it last.\<close>

definition safety_file_body :: "fsi_map \<Rightarrow> (bls_public_key, finalizer) std_map \<Rightarrow> u8 list res" where
  "safety_file_body inactive fins =
     pack_then (pack_u64 fsi_magic) (pack_then (pack_u64 current_safety_file_version)
     (pack_then (pack_u64 (of_nat (length fins + length inactive)))
     (pack_then (pack_list pack_fsi_entry inactive) (pack_list pack_fsi_entry (map (\<lambda>(k, f). (k, fsi f)) fins)))))"

definition safety_file_content :: "(u8 list \<Rightarrow> u32) \<Rightarrow> fsi_map \<Rightarrow> (bls_public_key, finalizer) std_map \<Rightarrow> u8 list res" where
  "safety_file_content crc inactive fins =
     bind_res (safety_file_body inactive fins) (\<lambda>body. pack_then (Inr body) (pack_u32 (crc body)))"

section \<open>Loading\<close>

text \<open>Version 0 ends an entry with \<^verbatim>\<open>votes_forked_since_latest_strong_vote\<close>.\<close>

definition unpack_fsi_entry_v0 :: "(u8 list \<Rightarrow> bool) \<Rightarrow> (bls_public_key \<times> finalizer_safety_information) reader" where
  "unpack_fsi_entry_v0 valid_g1 = unpack_then (unpack_point bls_key_size valid_g1) (\<lambda>k.
     unpack_then unpack_v0 (\<lambda>v. unpack_then unpack_v0 (\<lambda>l. unpack_then unpack_bool (\<lambda>forked.
     unpack_return (k, \<lparr>last_vote = v, lock = l, other_branch_latest_time = (if forked then timestamp v else 0)\<rparr>)))))"

definition unpack_fsi_entry_v1 :: "(u8 list \<Rightarrow> bool) \<Rightarrow> (bls_public_key \<times> finalizer_safety_information) reader" where
  "unpack_fsi_entry_v1 valid_g1 = unpack_pair (unpack_point bls_key_size valid_g1) unpack_v1"

definition load_entries :: "(bls_public_key \<times> finalizer_safety_information) reader \<Rightarrow> fsi_map reader" where
  "load_entries entry = unpack_then unpack_u64 (\<lambda>num_finalizers. unpack_then (unpack_n entry (unat num_finalizers)) (\<lambda>es.
     unpack_return (fold (\<lambda>(k, i). map_insert k i) es [])))"

definition load_finalizer_safety_info_v0 :: "(u8 list \<Rightarrow> bool) \<Rightarrow> fsi_map reader" where
  "load_finalizer_safety_info_v0 valid_g1 = load_entries (unpack_fsi_entry_v0 valid_g1)"

definition load_finalizer_safety_info_v1 :: "(u8 list \<Rightarrow> bool) \<Rightarrow> fsi_map reader" where
  "load_finalizer_safety_info_v1 valid_g1 = load_entries (unpack_fsi_entry_v1 valid_g1)"

text \<open>The bytes read so far are those of the file that are not left.\<close>

definition verify_checksum :: "(u8 list \<Rightarrow> u32) \<Rightarrow> u8 list \<Rightarrow> u8 list \<Rightarrow> unit res" where
  "verify_checksum crc file rest =
     bind_res (unpack_u32 rest) (\<lambda>(cs, _).
     eos_assert (cs = crc (take (length file - length rest) file)) finalizer_safety_exception)"

definition read_safety_file :: "(u8 list \<Rightarrow> bool) \<Rightarrow> (u8 list \<Rightarrow> u32) \<Rightarrow> u8 list \<Rightarrow> fsi_map res" where
  "read_safety_file valid_g1 crc file =
     bind_res (unpack_u64 file) (\<lambda>(magic, s1).
     bind_res (eos_assert (magic = fsi_magic) finalizer_safety_exception) (\<lambda>_.
     bind_res (unpack_u64 s1) (\<lambda>(file_version, s2).
     bind_res (eos_assert (file_version \<le> current_safety_file_version) finalizer_safety_exception) (\<lambda>_.
     if file_version = safety_file_version_0 then
       bind_res (load_finalizer_safety_info_v0 valid_g1 s2) (\<lambda>(m, rest). Inr m)
     else if file_version = safety_file_version_1 then
       bind_res (load_finalizer_safety_info_v1 valid_g1 s2) (\<lambda>(m, rest).
       bind_res (verify_checksum crc file rest) (\<lambda>_. Inr m))
     else Inl finalizer_safety_exception))))"

definition load_finalizer_safety_info ::
    "(u8 list \<Rightarrow> bool) \<Rightarrow> (u8 list \<Rightarrow> u32) \<Rightarrow> string \<Rightarrow> u8 list option \<Rightarrow> fsi_map res" where
  "load_finalizer_safety_info valid_g1 crc path disk =
     bind_res (eos_assert (path \<noteq> []) finalizer_safety_exception) (\<lambda>_.
     case disk of None \<Rightarrow> Inr [] | Some file \<Rightarrow> read_safety_file valid_g1 crc file)"

section \<open>What was saved is loaded\<close>

definition strip_ref :: "block_ref \<Rightarrow> block_ref" where
  "strip_ref r = r\<lparr>active_policy_generation := 0, pending_policy_generation := 0\<rparr>"

definition strip_fsi :: "finalizer_safety_information \<Rightarrow> finalizer_safety_information" where
  "strip_fsi i = i\<lparr>last_vote := strip_ref (last_vote i), lock := strip_ref (lock i)\<rparr>"

lemma unpack_then_v0: "pack_v0 r = Inr a \<Longrightarrow> unpack_then unpack_v0 f (a @ rest) = f (strip_ref r) rest"
  by (cases r) (auto simp: pack_v0_def unpack_v0_def strip_ref_def empty_block_ref_def base_steps unpack_then_def[of "unpack_then _ _"])

lemma unpack_v1_round_trip: "pack_v1 i = Inr a \<Longrightarrow> unpack_v1 (a @ rest) = Inr (strip_fsi i, rest)"
  by (cases i) (auto simp: pack_v1_def unpack_v1_def strip_fsi_def base_steps unpack_then_v0)

lemma unpack_fsi_entry:
  assumes "pack_fsi_entry (k, i) = Inr a" and "point_ok bls_key_size valid_g1 k"
  shows "unpack_then (unpack_fsi_entry_v1 valid_g1) f (a @ rest) = f (k, strip_fsi i) rest"
  using assms by (auto simp: pack_fsi_entry_def unpack_fsi_entry_v1_def pack_pair_def unpack_pair_def base_steps point_step
      unpack_then_def[of "unpack_then _ _"] unpack_then_def[of unpack_v1] unpack_v1_round_trip)

lemma unpack_fsi_entries:
  "\<forall>e\<in>set es. point_ok bls_key_size valid_g1 (fst e) \<Longrightarrow> pack_list pack_fsi_entry es = Inr a \<Longrightarrow>
   unpack_n (unpack_fsi_entry_v1 valid_g1) (length es) (a @ rest) = Inr (map (map_prod id strip_fsi) es, rest)"
proof (induction es arbitrary: a)
  case (Cons e es)
  then obtain x y where "pack_fsi_entry e = Inr x" "pack_list pack_fsi_entry es = Inr y" "a = x @ y"
    by (auto simp: pack_then_Inr_iff)
  with Cons show ?case
    by (cases e) (simp add: unpack_fsi_entry unpack_then_def[of "unpack_n _ _"] unpack_simps)
qed (simp add: unpack_simps)

lemma pack_list_append: "pack_list pk (xs @ ys) = pack_then (pack_list pk xs) (pack_list pk ys)"
proof (induction xs)
  case Nil
  show ?case by (cases "pack_list pk ys") (simp_all add: pack_then_def)
next
  case (Cons x xs)
  then show ?case by (cases "pk x"; cases "pack_list pk xs"; cases "pack_list pk ys") (simp_all add: pack_then_def)
qed

text \<open>All entries that are written, in their order.\<close>

definition saved_entries :: "fsi_map \<Rightarrow> (bls_public_key, finalizer) std_map \<Rightarrow> (bls_public_key \<times> finalizer_safety_information) list" where
  "saved_entries inactive fins = inactive @ map (\<lambda>(k, f). (k, fsi f)) fins"

lemma saved_keys: "fst ` set (saved_entries inactive fins) = fst ` set inactive \<union> fst ` set fins"
  by (simp add: saved_entries_def image_Un image_image case_prod_unfold)

definition reloaded :: "fsi_map \<Rightarrow> (bls_public_key, finalizer) std_map \<Rightarrow> fsi_map" where
  "reloaded inactive fins = fold (\<lambda>(k, i). map_insert k i) (map (map_prod id strip_fsi) (saved_entries inactive fins)) []"

lemma safety_file_total: "\<exists>bs. safety_file_content crc inactive fins = Inr bs"
proof -
  have "\<exists>a. pack_fsi_entry e = Inr a" for e
    by (cases e) (simp add: pack_fsi_entry_def pack_pair_def pack_point_def pack_unsigned_int_def pack_byte_array_def pack_v1_def pack_v0_def
        pack_sha256_def pack_u32_def pack_then_def)
  then have "\<exists>a. pack_list pack_fsi_entry es = Inr a" for es by (induction es) (simp_all add: pack_then_Inr_iff, blast)
  then obtain a b where "pack_list pack_fsi_entry inactive = Inr a" "pack_list pack_fsi_entry (map (\<lambda>(k, f). (k, fsi f)) fins) = Inr b"
    by metis
  then show ?thesis by (simp add: safety_file_content_def safety_file_body_def pack_u64_def pack_u32_def pack_then_def)
qed

lemma read_saved_file:
  assumes "safety_file_content crc inactive fins = Inr file"
    and "\<forall>e\<in>set (saved_entries inactive fins). point_ok bls_key_size valid_g1 (fst e)"
    and "length inactive + length fins < 2 ^ 64"
  shows "read_safety_file valid_g1 crc file = Inr (reloaded inactive fins)"
proof -
  let ?es = "saved_entries inactive fins"
  define n :: u64 where "n = of_nat (length fins + length inactive)"
  obtain body c where body: "safety_file_body inactive fins = Inr body" "pack_u32 (crc body) = Inr c" "file = body @ c"
    using assms(1) by (auto simp: safety_file_content_def bind_res_Inr_iff pack_then_Inr_iff)
  then obtain a b m e where parts: "pack_u64 fsi_magic = Inr a" "pack_u64 current_safety_file_version = Inr b" "pack_u64 n = Inr m"
      "pack_list pack_fsi_entry ?es = Inr e" "body = a @ b @ m @ e"
    by (auto simp: safety_file_body_def saved_entries_def pack_list_append pack_then_Inr_iff n_def)
  have n: "unat n = length ?es" using assms(3) unfolding n_def unat_of_nat by (simp add: saved_entries_def del: of_nat_add)
  note reads = u64.round_trip[OF TrueI parts(1)] u64.round_trip[OF TrueI parts(2)]
  have "load_finalizer_safety_info_v1 valid_g1 (m @ e @ c) = Inr (reloaded inactive fins, c)"
    using unpack_fsi_entries[OF assms(2) parts(4), of c]
    by (simp add: load_finalizer_safety_info_v1_def load_entries_def u64_step[OF parts(3)] n unpack_then_def[of "unpack_n _ _"]
        reloaded_def unpack_simps)
  moreover have "verify_checksum crc file c = Inr ()"
    using u32.round_trip[OF TrueI body(2), of "[]"] by (simp add: verify_checksum_def body(3))
  ultimately show ?thesis
    using reads by (simp add: read_safety_file_def body(3) parts(5) current_safety_file_version_def safety_file_version_1_def safety_file_version_0_def)
qed

lemma reloaded_spec:
  assumes "map_wf inactive" and "map_wf fins" and "fst ` set inactive \<inter> fst ` set fins = {}"
  shows "map_wf (reloaded inactive fins)"
    and "map_of (reloaded inactive fins) k = map_option strip_fsi (case map_of fins k of Some f \<Rightarrow> Some (fsi f) | None \<Rightarrow> map_of inactive k)"
proof -
  have spec: "map_wf (reloaded inactive fins)"
    "map_of (reloaded inactive fins) = map_of (map (map_prod id strip_fsi) (saved_entries inactive fins))"
    using std_map.insert_all[of "[]" "map (map_prod id strip_fsi) (saved_entries inactive fins)"] by (simp_all add: reloaded_def)
  then show "map_wf (reloaded inactive fins)" by simp
  have strip: "map_of (map (map_prod id strip_fsi) es) k = map_option strip_fsi (map_of es k)" for es :: fsi_map
    by (induction es) auto
  have "map_of (map (\<lambda>(k, f). (k, fsi f)) fins) k = map_option fsi (map_of fins k)" by (induction fins) auto
  moreover have "map_of inactive k = None" if "map_of fins k = Some f" for f
  proof -
    have "k \<in> fst ` set fins" using map_of_SomeD[OF that] by force
    with assms(3) show ?thesis by (auto simp: map_of_eq_None_iff)
  qed
  ultimately show "map_of (reloaded inactive fins) k =
      map_option strip_fsi (case map_of fins k of Some f \<Rightarrow> Some (fsi f) | None \<Rightarrow> map_of inactive k)"
    unfolding spec(2) strip saved_entries_def map_of_append map_add_def by (auto split: option.splits)
qed

section \<open>Properties\<close>

text \<open>
  C32. The safety file round trip. Writing the safety information never raises, and loading the file on the next start gives
  back, for every configured and every inactive finalizer, the saved information without the generation numbers, and
  nothing else. The keys are valid points, and a finalizer is not both configured and inactive.
\<close>

theorem safety_file_round_trip:
  assumes "map_wf inactive" and "map_wf fins" and "fst ` set inactive \<inter> fst ` set fins = {}"
    and "\<forall>k\<in>fst ` set inactive \<union> fst ` set fins. point_ok bls_key_size valid_g1 k"
    and "length inactive + length fins < 2 ^ 64" and "path \<noteq> []"
  shows "\<exists>content m. safety_file_content crc inactive fins = Inr content \<and>
    load_finalizer_safety_info valid_g1 crc path (Some content) = Inr m \<and> map_wf m \<and>
    (\<forall>k. map_of m k = map_option strip_fsi (case map_of fins k of Some f \<Rightarrow> Some (fsi f) | None \<Rightarrow> map_of inactive k))"
proof -
  obtain content where c: "safety_file_content crc inactive fins = Inr content" using safety_file_total by blast
  have "\<forall>e\<in>set (saved_entries inactive fins). point_ok bls_key_size valid_g1 (fst e)"
    using assms(4) unfolding saved_keys[symmetric] by blast
  then have "load_finalizer_safety_info valid_g1 crc path (Some content) = Inr (reloaded inactive fins)"
    using read_saved_file[OF c _ assms(5)] assms(6) by (simp add: load_finalizer_safety_info_def)
  then show ?thesis using c reloaded_spec[OF assms(1-3)] by blast
qed

theorem safety_file_round_trip_witness:
  "\<exists>content m. safety_file_content (\<lambda>_. 5) [(replicate 96 1, unset_fsi)] [(replicate 96 2, \<lparr>priv_key = [], fsi = unset_fsi\<rparr>)] = Inr content \<and>
    load_finalizer_safety_info (\<lambda>_. True) (\<lambda>_. 5) ''f'' (Some content) = Inr m \<and> map_of m (replicate 96 2) = Some (strip_fsi unset_fsi)"
proof -
  have "\<exists>content m. safety_file_content (\<lambda>_. 5) [(replicate 96 1, unset_fsi)] [(replicate 96 2, \<lparr>priv_key = [], fsi = unset_fsi\<rparr>)] = Inr content \<and>
    load_finalizer_safety_info (\<lambda>_. True) (\<lambda>_. 5) ''f'' (Some content) = Inr m \<and> map_wf m \<and>
    (\<forall>k. map_of m k = map_option strip_fsi (case map_of [(replicate 96 2, \<lparr>priv_key = [], fsi = unset_fsi\<rparr>)] k of Some f \<Rightarrow> Some (fsi f)
       | None \<Rightarrow> map_of [(replicate 96 1, unset_fsi)] k))"
    by (rule safety_file_round_trip) (simp_all add: point_ok_def bls_key_size_def replicate_eq_replicate)
  then show ?thesis by auto
qed

end
