(* ===== verification/My_Finalizers.thy ===== *)
theory My_Finalizers
  imports Safety_File "HOL-Library.Sublist"
begin

text \<open>
  The finalizers of a node (class \<^verbatim>\<open>my_finalizers_t\<close>, finality/finalizer.hpp and finality/finalizer.cpp). Every operation takes
  the members, the content of the safety file and how the replacement of the file ends. Operations run under the mutex, one
  at a time. The text form of keys is decoded by the arguments \<open>to_public\<close> and \<open>to_private\<close>.
\<close>

section \<open>State and operations\<close>

record my_finalizers_t =
  persist_file_path :: string
  has_voted :: bool
  my_finalizers :: "(bls_public_key, finalizer) std_map"
  inactive_safety_info :: fsi_map
  default_fsi :: finalizer_safety_information
  safety_write_failed :: bool

definition new_my_finalizers :: "string \<Rightarrow> my_finalizers_t" where
  "new_my_finalizers path = \<lparr>persist_file_path = path, has_voted = False, my_finalizers = [], inactive_safety_info = [],
     default_fsi = unset_fsi, safety_write_failed = False\<rparr>"

text \<open>
  \<^verbatim>\<open>durable_file::replace\<close>: the old content stays until the rename; a failure after the rename is reported although the new
  content is in place.
\<close>

datatype replace_outcome = replace_done | replace_failed | replace_failed_after_rename

definition replace_file :: "replace_outcome \<Rightarrow> u8 list res \<Rightarrow> u8 list option \<Rightarrow> bool \<times> u8 list option" where
  "replace_file out content disk = (case content of
     Inl e \<Rightarrow> (False, disk)
   | Inr bs \<Rightarrow> (case out of replace_done \<Rightarrow> (True, Some bs) | replace_failed \<Rightarrow> (False, disk)
       | replace_failed_after_rename \<Rightarrow> (False, Some bs)))"

definition save_finalizer_safety_info ::
    "(u8 list \<Rightarrow> u32) \<Rightarrow> replace_outcome \<Rightarrow> my_finalizers_t \<Rightarrow> u8 list option \<Rightarrow> bool \<times> my_finalizers_t \<times> u8 list option" where
  "save_finalizer_safety_info crc out m disk =
     (if safety_write_failed m then (False, m, disk)
      else if persist_file_path m = [] then (False, m\<lparr>safety_write_failed := True\<rparr>, disk)
      else let (ok, disk') = replace_file out (safety_file_content crc (inactive_safety_info m) (my_finalizers m)) disk in
           (ok, if ok then m else m\<lparr>safety_write_failed := True\<rparr>, disk'))"

type_synonym vote_t = "vote_message \<times> finalizer_authority option \<times> finalizer_authority option"

definition in_policy :: "finalizer_policy \<Rightarrow> bls_public_key \<Rightarrow> finalizer_authority option" where
  "in_policy p key = find (\<lambda>f. public_key f = key) (finalizers p)"

text \<open>The loop of \<^verbatim>\<open>my_finalizers_t::maybe_vote\<close> over the finalizers; \<open>None\<close> is a failed assertion.\<close>

fun vote_loop ::
    "(bls_private_key \<Rightarrow> u8 list \<Rightarrow> bls_signature option) \<Rightarrow> block_state \<Rightarrow> (bls_public_key, finalizer) std_map \<Rightarrow>
     (vote_t list \<times> (bls_public_key, finalizer) std_map) option" where
  "vote_loop bls_sign bs [] = Some ([], [])"
| "vote_loop bls_sign bs ((key, f) # fs) =
     (let active_auth = in_policy (active_policy (bhs bs)) key;
          pending_auth = Option.bind (pending_policy (bhs bs)) (\<lambda>(_, p). in_policy p key) in
      do {
        (msg, f') \<leftarrow> (if active_auth \<noteq> None \<or> pending_auth \<noteq> None then maybe_vote bls_sign key bs (strong_digest bs) f
                       else Some (None, f));
        (votes, fs') \<leftarrow> vote_loop bls_sign bs fs;
        Some ((case msg of Some v \<Rightarrow> (v, active_auth, pending_auth) # votes | None \<Rightarrow> votes), (key, f') # fs')
      })"

text \<open>The result lists the votes passed to \<^verbatim>\<open>process_vote\<close>.\<close>

definition my_maybe_vote ::
    "(bls_private_key \<Rightarrow> u8 list \<Rightarrow> bls_signature option) \<Rightarrow> (u8 list \<Rightarrow> u32) \<Rightarrow> replace_outcome \<Rightarrow> block_state \<Rightarrow>
     my_finalizers_t \<Rightarrow> u8 list option \<Rightarrow> (vote_t list \<times> my_finalizers_t \<times> u8 list option) option" where
  "my_maybe_vote bls_sign crc out bs m disk =
     (if my_finalizers m = [] \<or> safety_write_failed m then Some ([], m, disk)
      else do {
        (votes, fs) \<leftarrow> vote_loop bls_sign bs (my_finalizers m);
        let m' = m\<lparr>my_finalizers := fs\<rparr>;
        Some (if votes \<noteq> [] then
                let (ok, m'', disk') = save_finalizer_safety_info crc out (m'\<lparr>has_voted := True\<rparr>) disk in
                (if ok then votes else [], m'', disk')
              else ([], m', disk))
      })"

text \<open>\<^verbatim>\<open>has_voted_strong\<close> on the active and, where the first is false, on the pending policy.\<close>

definition voted_strong_in_qc :: "block_state \<Rightarrow> qc_t \<Rightarrow> bls_public_key \<Rightarrow> bool option" where
  "voted_strong_in_qc bs qc key = do {
     a \<leftarrow> has_voted_strong (finalizers (active_policy (bhs bs))) (active_policy_sig qc) key;
     if a then Some True
     else case pending_policy (bhs bs) of None \<Rightarrow> Some False
          | Some (_, p) \<Rightarrow> do { q \<leftarrow> pending_policy_sig qc; has_voted_strong (finalizers p) q key }
   }"

fun update_loop :: "block_state \<Rightarrow> qc_t \<Rightarrow> (bls_public_key, finalizer) std_map \<Rightarrow> (bool \<times> (bls_public_key, finalizer) std_map) option" where
  "update_loop bs qc [] = Some (False, [])"
| "update_loop bs qc ((key, f) # fs) = do {
     voted \<leftarrow> voted_strong_in_qc bs qc key;
     (u, i) \<leftarrow> (if voted then maybe_update_fsi bs (fsi f) else Some (False, fsi f));
     (us, fs') \<leftarrow> update_loop bs qc fs;
     Some (u \<or> us, (key, f\<lparr>fsi := i\<rparr>) # fs')
   }"

definition my_maybe_update_fsi ::
    "(u8 list \<Rightarrow> u32) \<Rightarrow> replace_outcome \<Rightarrow> block_state \<Rightarrow> qc_t \<Rightarrow> my_finalizers_t \<Rightarrow> u8 list option \<Rightarrow>
     (my_finalizers_t \<times> u8 list option) res" where
  "my_maybe_update_fsi crc out bs qc m disk =
     (if my_finalizers m = [] \<or> has_voted m then Inr (m, disk)
      else bind_res (eos_assert (pending_policy (bhs bs) = None \<or> pending_policy_sig qc \<noteq> None) invalid_qc_claim) (\<lambda>_.
           bind_res (asserted (update_loop bs qc (my_finalizers m))) (\<lambda>(updated, fs).
           let m' = m\<lparr>my_finalizers := fs\<rparr> in
           Inr (if updated then snd (save_finalizer_safety_info crc out m' disk) else (m', disk)))))"

definition my_set_default_safety_information :: "finalizer_safety_information \<Rightarrow> my_finalizers_t \<Rightarrow> my_finalizers_t" where
  "my_set_default_safety_information i m = m\<lparr>
     my_finalizers := map (\<lambda>(k, f). (k, if \<not> block_ref_empty (last_vote (fsi f)) \<or> \<not> block_ref_empty (lock (fsi f)) then f
                                       else f\<lparr>fsi := i\<rparr>)) (my_finalizers m),
     default_fsi := i\<rparr>"

text \<open>The loops of \<^verbatim>\<open>set_keys\<close>: decoding a key may raise.\<close>

fun configure_loop ::
    "(string \<Rightarrow> bls_public_key res) \<Rightarrow> (string \<Rightarrow> bls_private_key res) \<Rightarrow> fsi_map \<Rightarrow> finalizer_safety_information \<Rightarrow>
     (string \<times> string) list \<Rightarrow> (bls_public_key, finalizer) std_map \<Rightarrow> (bls_public_key, finalizer) std_map res" where
  "configure_loop to_public to_private safety_info dflt [] fins = Inr fins"
| "configure_loop to_public to_private safety_info dflt ((pub, priv) # keys) fins =
     bind_res (to_public pub) (\<lambda>k.
     bind_res (to_private priv) (\<lambda>p.
     configure_loop to_public to_private safety_info dflt keys
       (map_put k \<lparr>priv_key = p, fsi = (case map_of safety_info k of Some i \<Rightarrow> i | None \<Rightarrow> dflt)\<rparr> fins)))"

fun erase_keys_loop :: "(string \<Rightarrow> bls_public_key res) \<Rightarrow> (string \<times> string) list \<Rightarrow> fsi_map \<Rightarrow> fsi_map res" where
  "erase_keys_loop to_public [] safety_info = Inr safety_info"
| "erase_keys_loop to_public ((pub, priv) # keys) safety_info =
     bind_res (to_public pub) (\<lambda>k. erase_keys_loop to_public keys (map_erase k safety_info))"

definition set_keys ::
    "(u8 list \<Rightarrow> bool) \<Rightarrow> (u8 list \<Rightarrow> u32) \<Rightarrow> (string \<Rightarrow> bls_public_key res) \<Rightarrow> (string \<Rightarrow> bls_private_key res) \<Rightarrow>
     (string \<times> string) list \<Rightarrow> my_finalizers_t \<Rightarrow> u8 list option \<Rightarrow> my_finalizers_t res" where
  "set_keys valid_g1 crc to_public to_private finalizer_keys m disk =
     (if finalizer_keys = [] then Inr m
      else bind_res (asserted (assert_opt (my_finalizers m = []))) (\<lambda>_.
           bind_res (load_finalizer_safety_info valid_g1 crc (persist_file_path m) disk) (\<lambda>safety_info.
           bind_res (configure_loop to_public to_private safety_info (default_fsi m) finalizer_keys (my_finalizers m)) (\<lambda>fins.
           bind_res (erase_keys_loop to_public finalizer_keys safety_info) (\<lambda>inactive.
           Inr (m\<lparr>my_finalizers := fins, inactive_safety_info := inactive\<rparr>))))))"

end
