(* ===== verification/Chain_Tree.thy ===== *)
theory Chain_Tree
  imports Block_Chain Finalizer
begin

text \<open>
  Blocks as branches. A block is identified with the list of header states from the Savanna genesis block to
  itself, so that its ancestors are the prefixes of the list. The theory relates what a finalizer reads from
  the finality core of a block (the claimed block, its time, the ancestors, the last final block)
  to the branch.
\<close>

type_synonym branch = "block_header_state list"

section \<open>Times and prefixes\<close>

lemma h_step_time:
  assumes "h_step hl prev nxt"
  shows "bhs_timestamp prev < bhs_timestamp nxt"
proof -
  from assms obtain fresh h exts features f where
    fn: "finish_next hl fresh prev (new_header_state prev h exts) features f = Inr nxt"
    unfolding h_step_def by blast
  from fn obtain feats n1 n2 n3 n4 where
    n1: "finish_proposer_policy fresh prev ((new_header_state prev h exts)\<lparr>activated_protocol_features := feats\<rparr>) f = Inr n1"
    and n2: "finish_finality_core hl prev n1 f = Inr n2" and n3: "finish_finalizer_policy hl prev n2 f = Inr n3"
    and n4: "finish_qc_claim_policy prev n3 = Inr n4"
    and nxt: "nxt = n4\<lparr>bhs_block_id := calculate_id (hash_header hl (header n4)) (header_block_num (header n4))\<rparr>"
    by (auto simp: finish_next_def bind_res_Inr_iff)
  have h1: "header n1 = h" "pending_policy n1 = None" "proposed_finalizer_policies n1 = []"
    using finish_proposer_policy_keeps[OF n1] by (simp_all add: new_header_state_def)
  obtain c where n2': "n2 = n1\<lparr>core := c\<rparr>" and "links c \<noteq> []"
    using n2 next_core_links_ne by (auto simp: finish_finality_core_def res_simps)
  then obtain lib where lib: "last_final_block_num (core n2) = Some lib" by (simp add: core_reads)
  have h3: "header n3 = header n2" using finish_finalizer_policy_spec[OF n3 lib] h1 n2' by auto
  have h4: "header n4 = header n3" using finish_qc_claim_policy_spec[OF n4] by (metis block_header_state.select_convs(2) block_header_state.surjective block_header_state.update_convs(11))
  have "bhs_timestamp prev < hdr_timestamp h"
    using n1 unfolding finish_proposer_policy_def bind_res_Inr_iff asserted_Inr_iff evaluate_proposer_policies_for_promotion_def
    by (auto simp: bind_eq_Some_conv res_simps bhs_timestamp_def new_header_state_def)
  then show ?thesis using h1 n2' h3 h4 by (simp add: nxt bhs_timestamp_def)
qed

inductive_cases header_chain_snocE: "header_chain hl (hist @ [s])"

lemma header_chain_snoc:
  assumes "header_chain hl (hist @ [s])" and "hist \<noteq> []"
  shows "header_chain hl hist" and "h_step hl (last hist) s"
  using header_chain_snocE[OF assms(1)] assms(2) by auto

lemma header_chain_prefix:
  assumes "header_chain hl (xs @ ys)" and "xs \<noteq> []"
  shows "header_chain hl xs"
  using assms(1)
proof (induction ys rule: rev_induct)
  case (snoc y ys)
  then show ?case using header_chain_snoc(1)[of hl "xs @ ys" y] assms(2) by simp
qed simp

lemma header_chain_times:
  assumes "header_chain hl hist"
  shows "sorted_wrt (\<lambda>a b. bhs_timestamp a < bhs_timestamp b) hist"
  using assms
proof (induction rule: header_chain.induct)
  case (extend hist nxt)
  have ne: "hist \<noteq> []" by (rule header_chain_ne[OF extend.hyps(1)])
  have "bhs_timestamp s < bhs_timestamp nxt" if "s \<in> set hist" for s
  proof -
    have "bhs_timestamp s \<le> bhs_timestamp (last hist)"
    proof (cases "s = last hist")
      case False
      have "hist = butlast hist @ [last hist]" using ne by simp
      then have "sorted_wrt (\<lambda>a b. bhs_timestamp a < bhs_timestamp b) (butlast hist @ [last hist])" using extend.IH by simp
      moreover have "s \<in> set (butlast hist)" using that False ne by (metis append_butlast_last_id in_set_butlastD set_ConsD rotate1.simps(2) set_rotate1)
      ultimately show ?thesis by (simp add: sorted_wrt_append order_less_imp_le)
    qed simp
    also have "\<dots> < bhs_timestamp nxt" by (rule h_step_time[OF extend.hyps(2)])
    finally show ?thesis .
  qed
  with extend.IH show ?case by (simp add: sorted_wrt_append)
qed simp

section \<open>The claimed block\<close>

definition branch_ok :: "hash_lib \<Rightarrow> block_header_state \<Rightarrow> branch \<Rightarrow> bool" where
  "branch_ok hl g h \<longleftrightarrow> header_chain hl h \<and> hd h = g \<and> unat (bhs_block_num g) + length h \<le> 2 ^ 32"

definition claim_num :: "branch \<Rightarrow> block_num_type" where
  "claim_num h = target_block_num (last (links (core (last h))))"

definition claimed :: "branch \<Rightarrow> branch" where
  "claimed h = take (Suc (unat (claim_num h) - unat (bhs_block_num (hd h)))) h"

definition final_num :: "branch \<Rightarrow> block_num_type" where
  "final_num h = target_block_num (hd (links (core (last h))))"

definition final_branch :: "branch \<Rightarrow> branch" where
  "final_branch h = take (Suc (unat (final_num h) - unat (bhs_block_num (hd h)))) h"

lemma branch_ok_core: "branch_ok hl g h \<Longrightarrow> chain_core hl h \<and> h \<noteq> []"
  using header_chain_core header_chain_ne by (auto simp: branch_ok_def)

lemma branch_ok_prefix: "branch_ok hl g h \<Longrightarrow> prefix a h \<Longrightarrow> a \<noteq> [] \<Longrightarrow> branch_ok hl g a"
  unfolding branch_ok_def prefix_def using header_chain_prefix by fastforce

lemma branch_claim:
  assumes "branch_ok hl g h"
  shows "unat (bhs_block_num g) \<le> unat (claim_num h)" and "unat (claim_num h) \<le> unat (bhs_block_num g) + (length h - 1)"
proof -
  have core: "chain_core hl h" "h \<noteq> []" using branch_ok_core[OF assms] by auto
  note reads = chain_core_reads[OF core]
  have hd: "hd h = g" using assms by (simp add: branch_ok_def)
  show "unat (bhs_block_num g) \<le> unat (claim_num h)"
    using reads(5) core_front[OF reads(1)] by (simp add: claim_num_def hd word_le_nat_alt)
  have "claim_num h \<le> source_block_num (last (links (core (last h))))"
    using link_target_le[OF reads(1), of "length (links (core (last h))) - 1"] core_links_ne[OF reads(1)]
    by (simp add: claim_num_def last_conv_nth)
  then show "unat (claim_num h) \<le> unat (bhs_block_num g) + (length h - 1)"
    using reads(2) by (simp add: hd word_le_nat_alt)
qed

lemma branch_claim_step:
  assumes "branch_ok hl g (h @ [s])" and "h \<noteq> []"
  shows "claim_num h \<le> claim_num (h @ [s])" and "unat (claim_num (h @ [s])) < unat (bhs_block_num g) + length h"
proof -
  have h: "branch_ok hl g h" by (rule branch_ok_prefix[OF assms(1)]) (use assms(2) in auto)
  have core: "chain_core hl h" "h \<noteq> []" using branch_ok_core[OF h] by auto
  have hd: "hd h = g" using h by (simp add: branch_ok_def)
  have "h_step hl (last h) s" using assms header_chain_snoc(2) by (auto simp: branch_ok_def)
  then obtain ref q where "next_core (core (last h)) ref q = Some (core s)" by (rule h_step_spec)
  note claim = next_core_claim[OF chain_core_reads(1)[OF core] this]
  show "claim_num h \<le> claim_num (h @ [s])" using claim by (simp add: claim_num_def)
  show "unat (claim_num (h @ [s])) < unat (bhs_block_num g) + length h"
    using claim chain_core_reads(2)[OF core] core(2) hd by (cases h) (auto simp: claim_num_def word_le_nat_alt)
qed

lemma branch_claim_proper:
  assumes "branch_ok hl g h" and "1 < length h"
  shows "unat (claim_num h) < unat (bhs_block_num g) + (length h - 1)"
  using branch_claim_step(2)[of hl g "butlast h" "last h"] assms by (cases h rule: rev_cases) auto

lemma branch_claim_mono:
  assumes "branch_ok hl g h" and "prefix a h" and "a \<noteq> []"
  shows "claim_num a \<le> claim_num h"
proof -
  obtain ys where "h = a @ ys" using assms(2) by (auto simp: prefix_def)
  with assms(1) show ?thesis
  proof (induction ys arbitrary: h rule: rev_induct)
    case (snoc y ys)
    then have "branch_ok hl g (a @ ys)" using branch_ok_prefix[of hl g h "a @ ys"] assms(3) by simp
    then have "claim_num a \<le> claim_num (a @ ys)" using snoc.IH by simp
    also have "\<dots> \<le> claim_num h" using branch_claim_step(1)[of hl g "a @ ys" y] snoc.prems assms(3) by simp
    finally show ?case .
  qed simp
qed

lemma claimed_prefix [simp]: "prefix (claimed h) h"
  by (simp add: claimed_def take_is_prefix)

lemma claimed_ne: "h \<noteq> [] \<Longrightarrow> claimed h \<noteq> []"
  by (simp add: claimed_def)

lemma claimed_mono:
  assumes "branch_ok hl g h" and "prefix a h" and "a \<noteq> []"
  shows "prefix (claimed a) (claimed h)"
proof -
  let ?k = "\<lambda>h. Suc (unat (claim_num h) - unat (bhs_block_num g))"
  have a: "branch_ok hl g a" by (rule branch_ok_prefix[OF assms])
  have hd: "hd a = g" "hd h = g" using a assms(1) by (auto simp: branch_ok_def)
  have "?k a \<le> length a" using branch_claim[OF a] assms(3) by (cases a) auto
  moreover obtain ys where "h = a @ ys" using assms(2) by (auto simp: prefix_def)
  ultimately have "claimed a = take (?k a) h" by (simp add: claimed_def hd)
  moreover have "?k a \<le> ?k h" using branch_claim_mono[OF assms] by (simp add: word_le_nat_alt diff_le_mono)
  ultimately show ?thesis by (metis claimed_def hd(2) min.absorb1 take_is_prefix take_take)
qed

lemma claimed_proper:
  assumes "branch_ok hl g h" and "1 < length h"
  shows "claimed h \<noteq> h"
proof -
  have "length (claimed h) < length h"
    using branch_claim_proper[OF assms] branch_claim(1)[OF assms(1)] assms by (auto simp: claimed_def branch_ok_def)
  then show ?thesis by auto
qed

lemma claimed_last:
  assumes "branch_ok hl g h"
  shows "last (claimed h) = h ! (unat (claim_num h) - unat (bhs_block_num g))"
    and "bhs_block_num (last (claimed h)) = claim_num h"
proof -
  have core: "chain_core hl h" "h \<noteq> []" using branch_ok_core[OF assms] by auto
  have hd: "hd h = g" using assms by (simp add: branch_ok_def)
  have i: "unat (claim_num h) - unat (bhs_block_num g) < length h" using branch_claim[OF assms] core(2) by (cases h) auto
  then show l: "last (claimed h) = h ! (unat (claim_num h) - unat (bhs_block_num g))"
    by (simp add: claimed_def hd take_Suc_conv_app_nth)
  show "bhs_block_num (last (claimed h)) = claim_num h"
    using chain_core_reads(3)[OF core i] branch_claim(1)[OF assms] unfolding l by (simp add: hd word_unat_eq_iff)
qed

section \<open>What a finalizer reads\<close>

lemma branch_claimed_ref:
  assumes "branch_ok hl g h" and "1 < length h"
  obtains r where "get_block_reference (core (last h)) (claim_num h) = Some r"
    and "bhs_make_block_ref hl (last (claimed h)) = Some r"
proof -
  have core: "chain_core hl h" "h \<noteq> []" using branch_ok_core[OF assms(1)] by auto
  note reads = chain_core_reads[OF core]
  have hd: "hd h = g" using assms by (simp add: branch_ok_def)
  let ?i = "unat (claim_num h) - unat (bhs_block_num g)"
  have i: "?i < length h" "?i \<noteq> length h - 1"
    using branch_claim_proper[OF assms] branch_claim(1)[OF assms(1)] assms(2) by auto
  have num: "bhs_block_num (h ! ?i) = claim_num h" using claimed_last[OF assms(1)] by simp
  have "target_block_num (hd (links (core (last h)))) \<le> claim_num h"
    using link_target_mono[OF reads(1), of 0 "length (links (core (last h))) - 1"] core_links_ne[OF reads(1)]
    by (simp add: claim_num_def hd_conv_nth last_conv_nth)
  then have "get_block_reference (core (last h)) (claim_num h) = bhs_make_block_ref hl (last (claimed h))"
    using chain_reference_at[OF core(1) i] claimed_last(1)[OF assms(1)] by (simp add: num)
  moreover have "claim_num h < source_block_num (last (links (core (last h))))"
    using reads(2) branch_claim_proper[OF assms] by (simp add: hd word_less_nat_alt)
  ultimately show thesis
    using that get_block_reference_ok[OF reads(1) \<open>target_block_num (hd (links (core (last h)))) \<le> claim_num h\<close>]
    by (metis option.sel)
qed

lemma branch_claim_reads:
  assumes "branch_ok hl g h" and "1 < length h"
  shows "latest_qc_block_timestamp (core (last h)) = Some (bhs_timestamp (last (claimed h)))"
    and "\<exists>claim. latest_qc_claim (core (last h)) = Some claim \<and> block_num claim = claim_num h"
proof -
  have core: "chain_core hl h" "h \<noteq> []" using branch_ok_core[OF assms(1)] by auto
  have ne: "links (core (last h)) \<noteq> []" using core_links_ne[OF chain_core_reads(1)[OF core]] .
  then show "\<exists>claim. latest_qc_claim (core (last h)) = Some claim \<and> block_num claim = claim_num h"
    by (simp add: core_reads claim_num_def)
  obtain r where r: "get_block_reference (core (last h)) (claim_num h) = Some r"
    "bhs_make_block_ref hl (last (claimed h)) = Some r" by (rule branch_claimed_ref[OF assms])
  have "refs (core (last h)) \<noteq> []" using r(1) by (auto simp: get_block_reference_def bind_eq_Some_conv res_simps)
  then show "latest_qc_block_timestamp (core (last h)) = Some (bhs_timestamp (last (claimed h)))"
    using r(1) make_block_ref_reads(4)[OF r(2)] ne
    by (simp add: latest_qc_block_timestamp_def is_genesis_core_def flip: claim_num_def)
qed

lemma branch_extends_iff:
  assumes "branch_ok hl g h"
  shows "extends (core (last h)) bid = Some ((\<exists>i<length h - 1. bhs_block_id (h ! i) = bid) \<and> final_num h \<le> num_from_id bid)"
proof -
  obtain steps where steps: "core_refines (bhs_block_num g) steps (core (last h))" "Suc (length steps) = length h"
      "\<forall>i<length steps. bhs_make_block_ref hl (h ! i) = Some (fst (steps ! i))"
    using branch_ok_core[OF assms] assms unfolding chain_core_def branch_ok_def by blast
  have ids: "block_id (fst (steps ! i)) = bhs_block_id (h ! i)" if "i < length steps" for i
    using that steps(3) make_block_ref_reads(1) by metis
  have "bid \<in> (\<lambda>s. block_id (fst s)) ` set steps \<longleftrightarrow> (\<exists>i<length steps. block_id (fst (steps ! i)) = bid)"
    unfolding set_conv_nth by blast
  also have "\<dots> \<longleftrightarrow> (\<exists>i<length h - 1. bhs_block_id (h ! i) = bid)" using ids steps(2) by (metis diff_Suc_1)
  finally show ?thesis
    using extends_iff[OF steps(1), of bid] steps(1) by (simp add: core_refines_def final_num_def)
qed

lemma branch_extends:
  assumes "branch_ok hl g h"
  shows "\<exists>e. extends (core (last h)) bid = Some e \<and> (e \<longrightarrow> (\<exists>i<length h - 1. bhs_block_id (h ! i) = bid))"
  using branch_extends_iff[OF assms] by simp

section \<open>The last final block\<close>

text \<open>The links of the core are the claims of blocks of the branch.\<close>

lemma branch_links:
  assumes "header_chain hl h" and "unat (bhs_block_num (hd h)) + length h \<le> 2 ^ 32"
    and "l \<in> set (links (core (last h)))"
  shows "\<exists>a. prefix a h \<and> a \<noteq> [] \<and> unat (source_block_num l) = unat (bhs_block_num (hd h)) + (length a - 1) \<and>
             target_block_num l = claim_num a"
  using assms
proof (induction arbitrary: l rule: header_chain.induct)
  case (genesis s)
  then show ?case
    by (intro exI[of _ "[s]"]) (auto simp: genesis_state_def create_core_for_genesis_block_def claim_num_def Let_def)
next
  case (extend h nxt)
  have ne: "h \<noteq> []" by (rule header_chain_ne[OF extend.hyps(1)])
  have wrap: "unat (bhs_block_num (hd h)) + length h < 2 ^ 32" using extend.prems(1) ne by simp
  then have core: "chain_core hl h" using header_chain_core[OF extend.hyps(1)] by simp
  note reads = chain_core_reads[OF core ne]
  obtain ref q where nx: "next_core (core (last h)) ref q = Some (core nxt)" by (rule h_step_spec[OF extend.hyps(2)])
  obtain i where "links (core nxt) = drop i (links (core (last h))) @ [\<lparr>source_block_num = source_block_num (last (links (core (last h)))) + 1,
       target_block_num = block_num q, is_link_strong = is_strong_qc q\<rparr>]"
  proof (rule next_core_ok[OF reads(1) next_core_Some_pre[OF nx]], goal_cases)
    case (1 j)
    show ?case by (rule 1(1)[of j]) (use 1(6) nx in simp)
  qed
  then consider "l \<in> set (links (core (last h)))" | "l = last (links (core nxt))" and
      "source_block_num l = source_block_num (last (links (core (last h)))) + 1"
    using extend.prems(2) by (auto dest: in_set_dropD)
  then show ?case
  proof cases
    case 1
    then obtain a where "prefix a h" "a \<noteq> []" "unat (source_block_num l) = unat (bhs_block_num (hd h)) + (length a - 1)"
        "target_block_num l = claim_num a"
      using extend.IH wrap by fastforce
    then show ?thesis using ne by (intro exI[of _ a]) (auto intro: prefix_order.trans)
  next
    case 2
    have "unat (source_block_num l) = unat (bhs_block_num (hd h)) + length h"
      using 2(2) reads(2) wrap ne by (cases h) (simp_all add: unat_Suc_no_wrap)
    with 2(1) ne show ?thesis by (intro exI[of _ "h @ [nxt]"]) (simp add: claim_num_def)
  qed
qed

definition claim_strong :: "branch \<Rightarrow> bool" where
  "claim_strong h = is_link_strong (last (links (core (last h))))"

lemma same_length_prefix: "prefix a h \<Longrightarrow> prefix b h \<Longrightarrow> length a = length b \<Longrightarrow> a = b"
  by (metis append_eq_append_conv prefix_def)

lemma claimed_of_prefix:
  assumes "branch_ok hl g a" and "prefix a h"
  shows "claimed a = take (Suc (unat (claim_num a) - unat (bhs_block_num g))) h"
proof -
  have "a \<noteq> []" using branch_ok_core[OF assms(1)] by simp
  then have "Suc (unat (claim_num a) - unat (bhs_block_num g)) \<le> length a" using branch_claim[OF assms(1)] by (cases a) auto
  moreover obtain ys where "h = a @ ys" using assms(2) by (auto simp: prefix_def)
  moreover have "hd a = g" using assms(1) by (simp add: branch_ok_def)
  ultimately show ?thesis by (simp add: claimed_def)
qed

text \<open>The two-chain rule on branches.\<close>

lemma branch_final_rule:
  assumes "branch_ok hl g (h @ [s])" and "h \<noteq> []"
  shows "final_branch (h @ [s]) = (if claim_strong (h @ [s]) then claimed (claimed (h @ [s])) else final_branch h)"
proof -
  have h: "branch_ok hl g h" by (rule branch_ok_prefix[OF assms(1)]) (use assms(2) in auto)
  have core: "chain_core hl h" "h \<noteq> []" using branch_ok_core[OF h] by auto
  note reads = chain_core_reads[OF core]
  have hd: "hd h = g" "hd (h @ [s]) = g" using h assms(2) by (auto simp: branch_ok_def)
  have "h_step hl (last h) s" using assms header_chain_snoc(2) by (auto simp: branch_ok_def)
  then obtain ref q where nx: "next_core (core (last h)) ref q = Some (core s)" by (rule h_step_spec)
  obtain i where i: "i < length (links (core (last h)))" "is_strong_qc q \<Longrightarrow> source_block_num (links (core (last h)) ! i) = block_num q"
      "\<not> is_strong_qc q \<Longrightarrow> i = 0"
    and l: "links (core s) = drop i (links (core (last h))) @ [\<lparr>source_block_num = source_block_num (last (links (core (last h)))) + 1,
       target_block_num = block_num q, is_link_strong = is_strong_qc q\<rparr>]"
  proof (rule next_core_ok[OF reads(1) next_core_Some_pre[OF nx]], goal_cases)
    case (1 j)
    show ?case by (rule 1(1)[OF 1(2,4,5)]) (use 1(6) nx in simp_all)
  qed
  have fn: "final_num (h @ [s]) = target_block_num (links (core (last h)) ! i)"
    using i(1) by (simp add: final_num_def l hd_drop)
  obtain a where a: "prefix a h" "a \<noteq> []" "unat (source_block_num (links (core (last h)) ! i)) = unat (bhs_block_num g) + (length a - 1)"
      "target_block_num (links (core (last h)) ! i) = claim_num a"
    using branch_links[of hl h "links (core (last h)) ! i"] h i(1) by (auto simp: branch_ok_def)
  have a_ok: "branch_ok hl g a" by (rule branch_ok_prefix[OF h a(1,2)])
  have fin: "final_branch (h @ [s]) = claimed a"
    using claimed_of_prefix[OF a_ok, of "h @ [s]"] a by (simp add: final_branch_def fn hd)
  show ?thesis
  proof (cases "is_strong_qc q")
    case True
    have "claim_num (h @ [s]) = block_num q" by (simp add: claim_num_def l)
    then have "length (claimed (h @ [s])) = length a"
      using a i(2)[OF True] prefix_length_le[OF a(1)] by (cases a) (auto simp: claimed_def hd)
    moreover have "prefix a (h @ [s])" using a(1) by simp
    ultimately have "claimed (h @ [s]) = a" by (intro same_length_prefix[OF claimed_prefix])
    with fin True show ?thesis by (simp add: claim_strong_def l)
  next
    case False
    with i(3) fn have "final_num (h @ [s]) = final_num h"
      using core_links_ne[OF reads(1)] by (simp add: final_num_def hd_conv_nth)
    moreover have "final_branch h = claimed a"
      using claimed_of_prefix[OF a_ok a(1)] \<open>final_num (h @ [s]) = final_num h\<close> fn a(4) by (simp add: final_branch_def hd)
    ultimately show ?thesis using fin False by (simp add: claim_strong_def l)
  qed
qed

lemma branch_final_step:
  assumes "branch_ok hl g (h @ [s])" and "h \<noteq> []"
  shows "final_branch (h @ [s]) = final_branch h \<or>
         claim_strong (h @ [s]) \<and> final_branch (h @ [s]) = claimed (claimed (h @ [s]))"
  using branch_final_rule[OF assms] by simp

lemma branch_final:
  assumes "branch_ok hl g h"
  shows "final_branch h = [g] \<or>
         (\<exists>h'. prefix h' h \<and> 1 < length h' \<and> claim_strong h' \<and> final_branch h = claimed (claimed h'))"
  using assms
proof (induction h rule: rev_induct)
  case Nil
  then show ?case using branch_ok_core by blast
next
  case (snoc s h)
  show ?case
  proof (cases "h = []")
    case True
    with snoc.prems header_chain_snocE[of hl "[]" s] have "genesis_state s" "g = s"
      by (auto simp: branch_ok_def elim: header_chain.cases)
    with True show ?thesis
      by (auto simp: final_branch_def final_num_def genesis_state_def create_core_for_genesis_block_def Let_def)
  next
    case False
    then have "branch_ok hl g h" using branch_ok_prefix[OF snoc.prems, of h] by simp
    with snoc.IH have IH: "final_branch h = [g] \<or>
         (\<exists>h'. prefix h' h \<and> 1 < length h' \<and> claim_strong h' \<and> final_branch h = claimed (claimed h'))" by blast
    from branch_final_step[OF snoc.prems False] show ?thesis
    proof
      assume "final_branch (h @ [s]) = final_branch h"
      with IH show ?thesis by (auto intro: prefix_order.trans)
    next
      assume "claim_strong (h @ [s]) \<and> final_branch (h @ [s]) = claimed (claimed (h @ [s]))"
      with False show ?thesis by (intro disjI2 exI[of _ "h @ [s]"]) (cases h; simp)
    qed
  qed
qed

section \<open>The voting rule on a branch\<close>

text \<open>The reference names an ancestor that is not below the last final block.\<close>

definition knows :: "branch \<Rightarrow> block_ref \<Rightarrow> bool" where
  "knows h r \<longleftrightarrow> (\<exists>i<length h - 1. bhs_block_id (h ! i) = block_id r) \<and> final_num h \<le> num_from_id (block_id r)"

lemma branch_extends_knows: "branch_ok hl g h \<Longrightarrow> extends (core (last h)) (block_id r) = Some (knows h r)"
  by (simp add: branch_extends_iff knows_def)

definition may_vote :: "branch \<Rightarrow> finalizer_safety_information \<Rightarrow> bool" where
  "may_vote h i \<longleftrightarrow>
     (block_ref_empty (last_vote i) \<or> timestamp (last_vote i) < bhs_timestamp (last h)) \<and> \<not> block_ref_empty (lock i) \<and>
     (timestamp (lock i) < bhs_timestamp (last (claimed h)) \<or> knows h (lock i))"

definition strong_on :: "branch \<Rightarrow> finalizer_safety_information \<Rightarrow> bool" where
  "strong_on h i \<longleftrightarrow>
     timestamp (last_vote i) \<le> bhs_timestamp (last (claimed h)) \<or>
     knows h (last_vote i) \<and> other_branch_latest_time i \<le> bhs_timestamp (last (claimed h))"

lemma vote_update_rule:
  assumes "branch_ok hl g h" and "1 < length h" and "bhs bs = last h"
  shows "\<exists>lk other. vote_update bs i = Some (if strong_on h i then strong_vote else weak_vote,
             \<lparr>last_vote = bs_make_block_ref bs, lock = lk, other_branch_latest_time = other\<rparr>) \<and>
           (if strong_on h i \<and> timestamp (lock i) < bhs_timestamp (last (claimed h))
            then bhs_make_block_ref hl (last (claimed h)) = Some lk else lk = lock i) \<and>
           other = (if strong_on h i then 0 else if knows h (last_vote i) then other_branch_latest_time i else timestamp (last_vote i))"
proof -
  let ?t = "bhs_timestamp (last (claimed h))"
  note qts = branch_claim_reads(1)[OF assms(1,2)]
  obtain claim where claim: "latest_qc_claim (core (last h)) = Some claim" "block_num claim = claim_num h"
    using branch_claim_reads(2)[OF assms(1,2)] by blast
  obtain r where r: "get_block_reference (core (last h)) (claim_num h) = Some r" "bhs_make_block_ref hl (last (claimed h)) = Some r"
    by (rule branch_claimed_ref[OF assms(1,2)])
  have "vote_strength (core (last h)) ?t i = Some (if strong_on h i then strong_vote else weak_vote,
      if strong_on h i then 0 else if knows h (last_vote i) then other_branch_latest_time i else timestamp (last_vote i))"
    by (simp add: vote_strength_def strong_on_def branch_extends_knows[OF assms(1)])
  with qts claim r show ?thesis by (simp add: vote_update_def assms(3))
qed

text \<open>
  C2. The voting rule over complete branches. On every block after the genesis block, whatever safety information the finalizer
  holds, \<^verbatim>\<open>decide_vote\<close> fires no assertion. It votes exactly when the block is later than the last vote and its claimed
  block is later than the lock or the lock is an ancestor. The vote is strong exactly when the claimed block is not
  before the last vote, or the last vote is an ancestor and the claimed block is not before the last vote on another branch.
  A strong vote moves the lock to a later claimed block and clears the time of the other branch; a weak vote that leaves the
  branch of the last vote records the time of that vote; without a vote nothing changes.
\<close>

theorem decide_vote_rule:
  assumes "branch_ok hl g h" and "1 < length h" and "bhs bs = last h"
  shows "\<exists>res i'. decide_vote bs i = Some (res, i') \<and>
    decision res = (if may_vote h i then if strong_on h i then strong_vote else weak_vote else no_vote) \<and>
    (if may_vote h i then last_vote i' = bs_make_block_ref bs \<and>
       (if strong_on h i \<and> timestamp (lock i) < bhs_timestamp (last (claimed h))
        then bhs_make_block_ref hl (last (claimed h)) = Some (lock i') else lock i' = lock i) \<and>
       other_branch_latest_time i' =
         (if strong_on h i then 0 else if knows h (last_vote i) then other_branch_latest_time i else timestamp (last_vote i))
     else i' = i)"
proof -
  let ?t = "bhs_timestamp (last (claimed h))"
  obtain lk other where upd: "vote_update bs i = Some (if strong_on h i then strong_vote else weak_vote,
             \<lparr>last_vote = bs_make_block_ref bs, lock = lk, other_branch_latest_time = other\<rparr>)"
      "if strong_on h i \<and> timestamp (lock i) < ?t then bhs_make_block_ref hl (last (claimed h)) = Some lk else lk = lock i"
      "other = (if strong_on h i then 0 else if knows h (last_vote i) then other_branch_latest_time i else timestamp (last_vote i))"
    using vote_update_rule[OF assms, of i] by blast
  have checks: "vote_checks (core (last h)) (lock i) =
      Some (if block_ref_empty (lock i) then (False, False) else if timestamp (lock i) < ?t then (True, False) else (False, knows h (lock i)))"
    using branch_claim_reads(1)[OF assms(1,2)] branch_extends_knows[OF assms(1)] by (simp add: vote_checks_def)
  show ?thesis
  proof (cases "may_vote h i")
    case True
    then have "decide_vote bs i = do {
        (d, i') \<leftarrow> vote_update bs i;
        Some (\<lparr>decision = d, safety_check = \<not> timestamp (lock i) < ?t, liveness_check = timestamp (lock i) < ?t, monotony_check = True\<rparr>, i') }"
      using checks by (auto simp: decide_vote_def may_vote_def assms(3))
    with True upd show ?thesis by simp
  next
    case False
    then show ?thesis using checks by (auto simp: decide_vote_def may_vote_def assms(3))
  qed
qed

theorem decide_vote_rule_witness:
  "\<exists>res i'. decide_vote (ex_bs ex_s3 None) unset_fsi = Some (res, i') \<and> decision res = no_vote"
proof -
  have chain: "header_chain ex_hl ([ex_s1, ex_s2, ex_s3] @ [ex_s4, ex_s5, ex_s6])" using ex_chain by simp
  have "branch_ok ex_hl ex_s1 [ex_s1, ex_s2, ex_s3]"
    using header_chain_prefix[OF chain]
    by (simp add: branch_ok_def ex_s1_def ex_state_def ex_header_def bhs_block_num_def num_from_id_calculate_id)
  moreover have "\<not> may_vote [ex_s1, ex_s2, ex_s3] unset_fsi"
    by (simp add: may_vote_def unset_fsi_def empty_block_ref_def block_ref_empty_def sha256_empty_iff)
  ultimately show ?thesis using decide_vote_rule[of ex_hl ex_s1 "[ex_s1, ex_s2, ex_s3]" "ex_bs ex_s3 None" unset_fsi] by auto
qed

end
