(* ===== verification/Vote_Safety.thy ===== *)
theory Vote_Safety
  imports Prelude
begin

text \<open>
  The safety argument of the Savanna voting rule over two interfaces: a tree of blocks in which every block claims
  one of its ancestors, and a voter that casts strong and weak votes on blocks. The second interface lists
  the laws that the voting rule of the node promises; nothing else about the rule is used.
\<close>

section \<open>A tree of blocks\<close>

locale block_tree =
  fixes blk :: "'b \<Rightarrow> bool"
    and anc :: "'b \<Rightarrow> 'b \<Rightarrow> bool"
    and ts :: "'b \<Rightarrow> block_timestamp_type"
    and qc :: "'b \<Rightarrow> 'b"
    and root :: 'b
  assumes anc_refl: "blk b \<Longrightarrow> anc b b"
    and anc_trans: "blk c \<Longrightarrow> anc a b \<Longrightarrow> anc b c \<Longrightarrow> anc a c"
    and anc_blk: "blk b \<Longrightarrow> anc a b \<Longrightarrow> blk a"
    and anc_time: "blk b \<Longrightarrow> anc a b \<Longrightarrow> a \<noteq> b \<Longrightarrow> ts a < ts b"
    and anc_linear: "blk b \<Longrightarrow> anc a b \<Longrightarrow> anc c b \<Longrightarrow> anc a c \<or> anc c a"
    and root_anc: "blk b \<Longrightarrow> anc root b"
    and qc_anc: "blk b \<Longrightarrow> anc (qc b) b"
    and qc_proper: "blk b \<Longrightarrow> b \<noteq> root \<Longrightarrow> qc b \<noteq> b"
    and qc_mono: "blk b \<Longrightarrow> anc a b \<Longrightarrow> anc (qc a) (qc b)"
begin

lemma anc_time_le: "blk b \<Longrightarrow> anc a b \<Longrightarrow> ts a \<le> ts b"
  using anc_time order_less_imp_le by (cases "a = b") auto

lemma anc_later:
  assumes "blk b" and "anc a b" and "anc c b" and "ts a \<le> ts c"
  shows "anc a c"
proof (rule ccontr)
  assume "\<not> anc a c"
  with assms anc_linear anc_refl anc_blk have "anc c a" "a \<noteq> c" by metis+
  with assms(1,2,4) anc_blk anc_time[of a c] show False by auto
qed

lemma blk_qc: "blk b \<Longrightarrow> blk (qc b)"
  using anc_blk qc_anc by blast

lemma blk_root: "blk b \<Longrightarrow> blk root"
  using anc_blk root_anc by blast

lemma root_time: "blk b \<Longrightarrow> ts root \<le> ts b"
  using anc_time_le root_anc by blast

lemma qc_time: "blk b \<Longrightarrow> b \<noteq> root \<Longrightarrow> ts (qc b) < ts b"
  using anc_time qc_anc qc_proper by blast

end

section \<open>A voter\<close>

text \<open>The votes of a run, in the order they are cast, each with whether it is strong.\<close>

inductive vote_run :: "('s \<Rightarrow> 'b \<Rightarrow> bool \<Rightarrow> 's \<Rightarrow> bool) \<Rightarrow> 's \<Rightarrow> ('b \<times> bool) list \<Rightarrow> 's \<Rightarrow> bool" for cast s0 where
  vote_start: "vote_run cast s0 [] s0"
| vote_next: "vote_run cast s0 vs s \<Longrightarrow> cast s b strong s' \<Longrightarrow> vote_run cast s0 (vs @ [(b, strong)]) s'"

inductive_cases vote_run_snocE: "vote_run cast s0 (vs @ [v]) s"

locale voter = block_tree +
  fixes st :: "'s \<Rightarrow> bool"
    and cast :: "'s \<Rightarrow> 'b \<Rightarrow> bool \<Rightarrow> 's \<Rightarrow> bool"
    and voted :: "'s \<Rightarrow> 'b option"
    and locked :: "'s \<Rightarrow> 'b"
    and other :: "'s \<Rightarrow> block_timestamp_type"
  assumes cast_blk: "st s \<Longrightarrow> cast s b strong s' \<Longrightarrow> blk b \<and> b \<noteq> root"
    and cast_st: "st s \<Longrightarrow> cast s b strong s' \<Longrightarrow> st s'"
    and cast_voted: "st s \<Longrightarrow> cast s b strong s' \<Longrightarrow> voted s' = Some b"
    and cast_time: "st s \<Longrightarrow> cast s b strong s' \<Longrightarrow> voted s = Some l \<Longrightarrow> ts l < ts b"
    and cast_guard: "st s \<Longrightarrow> cast s b strong s' \<Longrightarrow>
          ts (locked s) < ts (qc b) \<or> anc (locked s) b \<and> locked s \<noteq> b"
    and cast_strong: "st s \<Longrightarrow> cast s b True s' \<Longrightarrow> voted s = Some l \<Longrightarrow>
          ts l \<le> ts (qc b) \<or> anc l b \<and> other s \<le> ts (qc b)"
    and cast_locks: "st s \<Longrightarrow> cast s b True s' \<Longrightarrow>
          locked s' = (if ts (locked s) < ts (qc b) then qc b else locked s)"
    and cast_weak: "st s \<Longrightarrow> cast s b False s' \<Longrightarrow> locked s' = locked s"
    and cast_other: "st s \<Longrightarrow> cast s b False s' \<Longrightarrow> voted s = Some l \<Longrightarrow>
          anc l b \<and> other s' = other s \<or> other s' = ts l"
begin

text \<open>Every vote is an ancestor of the last one, or not later than a time that a strong vote has to exceed.\<close>

definition covered :: "('b \<times> bool) list \<Rightarrow> 's \<Rightarrow> bool" where
  "covered vs s \<longleftrightarrow>
     (\<forall>v\<in>fst ` set vs. \<exists>l. voted s = Some l \<and> blk l \<and> ts v \<le> ts l \<and>
        (anc v l \<or> ts v \<le> other s \<or> (\<exists>d. anc d l \<and> ts v \<le> ts (qc d))))"

lemma covered_cast:
  assumes cov: "covered vs s" and s: "st s" and cast: "cast s b strong s'"
  shows "covered (vs @ [(b, strong)]) s'"
proof -
  have b: "blk b" using cast_blk[OF s cast] by simp
  have v': "voted s' = Some b" by (rule cast_voted[OF s cast])
  have old: "ts v \<le> ts b \<and> (anc v b \<or> ts v \<le> other s' \<or> (\<exists>d. anc d b \<and> ts v \<le> ts (qc d)))" if v: "v \<in> fst ` set vs" for v
  proof -
    obtain l where l: "voted s = Some l" "blk l" "ts v \<le> ts l"
      "anc v l \<or> ts v \<le> other s \<or> (\<exists>d. anc d l \<and> ts v \<le> ts (qc d))"
      using cov v unfolding covered_def by blast
    have lt: "ts l < ts b" by (rule cast_time[OF s cast l(1)])
    have up: "anc v b \<or> ts v \<le> other s \<or> (\<exists>d. anc d b \<and> ts v \<le> ts (qc d))" if "anc l b"
      using l(4) that anc_trans[OF b] by blast
    have "anc v b \<or> ts v \<le> other s' \<or> (\<exists>d. anc d b \<and> ts v \<le> ts (qc d))"
    proof (cases strong)
      case True
      then have "ts l \<le> ts (qc b) \<or> anc l b \<and> other s \<le> ts (qc b)" using cast_strong[OF s _ l(1), of b s'] cast by simp
      then show ?thesis
      proof
        assume "ts l \<le> ts (qc b)"
        with l(3) anc_refl[OF b] show ?thesis by (meson order_trans)
      next
        assume "anc l b \<and> other s \<le> ts (qc b)"
        with up anc_refl[OF b] show ?thesis by (meson order_trans)
      qed
    next
      case False
      then have "anc l b \<and> other s' = other s \<or> other s' = ts l" using cast_other[OF s _ l(1), of b s'] cast by simp
      with up l(3) show ?thesis by auto
    qed
    with l(3) lt show ?thesis by auto
  qed
  show ?thesis
    unfolding covered_def using old v' b anc_refl[OF b] by auto
qed

lemma run_covered:
  assumes "vote_run cast s0 vs s" and "st s0"
  shows "st s \<and> covered vs s"
  using assms
proof (induction rule: vote_run.induct)
  case vote_start
  then show ?case by (simp add: covered_def)
next
  case (vote_next vs s b strong s')
  then have s: "st s" "covered vs s" by auto
  show ?case using covered_cast[OF s(2,1) vote_next.hyps(2)] cast_st[OF s(1) vote_next.hyps(2)] by simp
qed

lemma run_split:
  assumes "vote_run cast s0 (vs @ (b, strong) # ws) s"
  obtains s1 s2 where "vote_run cast s0 vs s1" and "cast s1 b strong s2" and "vote_run cast s2 ws s"
  using assms
proof (induction ws arbitrary: s thesis rule: rev_induct)
  case Nil
  then have "vote_run cast s0 (vs @ [(b, strong)]) s" by simp
  then obtain s1 where "vote_run cast s0 vs s1" "cast s1 b strong s" by (rule vote_run_snocE) auto
  then show ?case by (rule Nil.prems(1)) (rule vote_start)
next
  case (snoc w ws)
  from snoc.prems(2) have "vote_run cast s0 ((vs @ (b, strong) # ws) @ [w]) s" by simp
  then obtain s3 c str where "vote_run cast s0 (vs @ (b, strong) # ws) s3" "cast s3 c str s" "w = (c, str)"
    by (rule vote_run_snocE) auto
  with snoc.IH[of s3] snoc.prems(1) vote_next show ?case by metis
qed

lemma run_st: "vote_run cast s0 vs s \<Longrightarrow> st s0 \<Longrightarrow> st s"
  by (induction rule: vote_run.induct) (auto intro: cast_st)

lemma run_blk:
  assumes "vote_run cast s0 vs s" and "st s0" and "(b, strong) \<in> set vs"
  shows "blk b \<and> b \<noteq> root"
proof -
  obtain xs ys where "vs = xs @ (b, strong) # ys" using assms(3) by (meson split_list)
  then obtain s1 s2 where "vote_run cast s0 xs s1" "cast s1 b strong s2" using assms(1) run_split by metis
  then show ?thesis using cast_blk run_st assms(2) by blast
qed

lemma run_times:
  assumes "vote_run cast s0 vs s" and "st s0"
  shows "sorted_wrt (<) (map (ts \<circ> fst) vs)"
  using assms(1)
proof (induction rule: vote_run.induct)
  case (vote_next vs s b strong s')
  note cov = run_covered[OF vote_next.hyps(1) assms(2)]
  have "ts v < ts b" if "v \<in> fst ` set vs" for v
    using cov that cast_time[OF _ vote_next.hyps(2)] unfolding covered_def by (meson order.strict_trans1)
  with vote_next.IH show ?case by (auto simp: sorted_wrt_append)
qed simp

lemma run_unique:
  assumes "vote_run cast s0 vs s" and "st s0"
    and "(a, str1) \<in> set vs" and "(b, str2) \<in> set vs" and "ts a = ts b"
  shows "a = b"
proof -
  have "distinct (map (ts \<circ> fst) vs)"
    using run_times[OF assms(1,2)] by (simp add: strict_sorted_iff)
  then have "inj_on (ts \<circ> fst) (set vs)" by (simp add: distinct_map)
  from inj_onD[OF this, of "(a, str1)" "(b, str2)"] assms(3-5) show ?thesis by simp
qed

text \<open>A strong vote extends all earlier votes that are later than the block it claims.\<close>

lemma strong_extends:
  assumes "vote_run cast s0 (vs @ (b, True) # ws) s" and "st s0"
    and "v \<in> fst ` set vs" and "ts (qc b) < ts v"
  shows "anc v b"
proof -
  obtain s1 s2 where s1: "vote_run cast s0 vs s1" and cast: "cast s1 b True s2" by (rule run_split[OF assms(1)])
  note cov = run_covered[OF s1 assms(2)]
  then have st1: "st s1" by simp
  obtain l where l: "voted s1 = Some l" "blk l" "ts v \<le> ts l"
      "anc v l \<or> ts v \<le> other s1 \<or> (\<exists>d. anc d l \<and> ts v \<le> ts (qc d))"
    using cov assms(3) unfolding covered_def by blast
  have b: "blk b" using cast_blk[OF st1 cast] by simp
  have lb: "anc l b" "other s1 \<le> ts (qc b)" using cast_strong[OF st1 cast l(1)] l(3) assms(4) by auto
  have "ts (qc d) \<le> ts (qc b)" if "anc d l" for d
    using that anc_trans[OF b _ lb(1)] anc_time_le[OF blk_qc[OF b]] qc_mono[OF b] by blast
  with l(4) lb anc_trans[OF b] assms(4) show ?thesis by (meson leD order_trans)
qed

lemma run_locked:
  assumes "vote_run cast s0 vs s" and "st s0"
  shows "ts (locked s0) \<le> ts (locked s) \<and> (locked s = locked s0 \<or> (\<exists>d. (d, True) \<in> set vs \<and> locked s = qc d))"
  using assms
proof (induction rule: vote_run.induct)
  case (vote_next vs s b strong s')
  have st: "st s" by (rule run_st[OF vote_next.hyps(1) vote_next.prems])
  have "locked s' = (if strong \<and> ts (locked s) < ts (qc b) then qc b else locked s)"
    using cast_locks[OF st] cast_weak[OF st] vote_next.hyps(2) by (cases strong) auto
  with vote_next.IH[OF vote_next.prems] show ?case by (auto split: if_splits)
qed simp

text \<open>
  When a vote follows a strong one, the lock extends the block claimed by the strong one, or it is the block
  claimed by a strong vote in between.
\<close>

lemma later_vote_guard:
  assumes "vote_run cast s0 (vs @ (b, True) # ws @ (c, strong) # us) s" and "st s0"
  obtains lk where "ts (qc b) \<le> ts lk" and "anc (qc b) lk \<or> (\<exists>d. (d, True) \<in> set ws \<and> lk = qc d)"
    and "ts lk < ts (qc c) \<or> anc lk c \<and> lk \<noteq> c"
proof -
  have "vote_run cast s0 ((vs @ (b, True) # ws) @ (c, strong) # us) s" using assms(1) by simp
  then obtain s1 s2 where s1: "vote_run cast s0 (vs @ (b, True) # ws) s1" and c: "cast s1 c strong s2" by (rule run_split)
  obtain s3 s4 where s3: "vote_run cast s0 vs s3" and b: "cast s3 b True s4" and s4: "vote_run cast s4 ws s1"
    by (rule run_split[OF s1])
  have st3: "st s3" by (rule run_st[OF s3 assms(2)])
  have blk: "blk b" using cast_blk[OF st3 b] by simp
  have "ts (qc b) \<le> ts (locked s4) \<and> anc (qc b) (locked s4)"
  proof (cases "ts (locked s3) < ts (qc b)")
    case True
    then show ?thesis using cast_locks[OF st3 b] anc_refl[OF blk_qc[OF blk]] by simp
  next
    case False
    then have "anc (qc b) (locked s3)"
      using cast_guard[OF st3 b] anc_later[OF blk qc_anc[OF blk]] by simp
    with False show ?thesis using cast_locks[OF st3 b] by simp
  qed
  moreover have "ts (locked s4) \<le> ts (locked s1) \<and> (locked s1 = locked s4 \<or> (\<exists>d. (d, True) \<in> set ws \<and> locked s1 = qc d))"
    by (rule run_locked[OF s4 cast_st[OF st3 b]])
  ultimately show thesis
    using that[OF _ _ cast_guard[OF run_st[OF s1 assms(2)] c]] order_trans[of "ts (qc b)" "ts (locked s4)" "ts (locked s1)"]
    by metis
qed

text \<open>
  \<open>electorate cert honest votes\<close>: the honest voters follow the rule; any two certificates share an honest voter,
  whose vote is strong where the certificate is; and every claim is backed by a certificate.
\<close>

definition electorate :: "(bool \<Rightarrow> 'b \<Rightarrow> bool) \<Rightarrow> ('k \<Rightarrow> bool) \<Rightarrow> ('k \<Rightarrow> ('b \<times> bool) list) \<Rightarrow> bool" where
  "electorate cert honest votes \<longleftrightarrow>
     (\<forall>k. honest k \<longrightarrow> (\<exists>s0 s. st s0 \<and> vote_run cast s0 (votes k) s)) \<and>
     (\<forall>s1 b1 s2 b2. cert s1 b1 \<and> cert s2 b2 \<longrightarrow>
        (\<exists>k str1 str2. honest k \<and> (b1, str1) \<in> set (votes k) \<and> (b2, str2) \<in> set (votes k) \<and> (s1 \<longrightarrow> str1) \<and> (s2 \<longrightarrow> str2))) \<and>
     (\<forall>b. blk b \<and> b \<noteq> root \<longrightarrow> qc b = root \<or> (\<exists>str. cert str (qc b)))"

lemma electorate_common:
  assumes "electorate cert honest votes" and "cert s1 b1" and "cert s2 b2"
  obtains s0 s vs str1 str2 where "st s0" and "vote_run cast s0 vs s" and "(b1, str1) \<in> set vs" and "(b2, str2) \<in> set vs" and "s1 \<longrightarrow> str1" and "s2 \<longrightarrow> str2"
proof -
  from assms(1) have runs: "\<And>k. honest k \<Longrightarrow> \<exists>s0 s. st s0 \<and> vote_run cast s0 (votes k) s"
    unfolding electorate_def by (elim conjE) (drule spec, erule mp)
  from assms have "\<exists>k str1 str2. honest k \<and> (b1, str1) \<in> set (votes k) \<and> (b2, str2) \<in> set (votes k) \<and> (s1 \<longrightarrow> str1) \<and> (s2 \<longrightarrow> str2)"
    unfolding electorate_def by (elim conjE) blast
  then obtain k str1 str2 where k: "honest k" and mem: "(b1, str1) \<in> set (votes k)" "(b2, str2) \<in> set (votes k)" "s1 \<longrightarrow> str1" "s2 \<longrightarrow> str2"
    by (elim exE conjE)
  obtain s0 s where "st s0" "vote_run cast s0 (votes k) s"
    using runs[OF k] by (elim exE conjE)
  then show thesis using mem by (rule that)
qed

lemma certified_blk:
  assumes "electorate cert honest votes" and "cert str b"
  shows "blk b \<and> b \<noteq> root"
  using electorate_common[OF assms assms(2)] run_blk by metis

lemma certified_unique:
  assumes "electorate cert honest votes" and "cert s1 b1" and "cert s2 b2" and "ts b1 = ts b2"
  shows "b1 = b2"
  using electorate_common[OF assms(1-3)] run_unique assms(4) by metis

lemma claim_backed:
  assumes "electorate cert honest votes" and "blk b" and "b \<noteq> root"
  shows "qc b = root \<or> (\<exists>str. cert str (qc b))"
  using assms unfolding electorate_def by blast

text \<open>
  A block that a strongly certified block claims is an ancestor of every later certified block.
\<close>

lemma certified_extends:
  assumes el: "electorate cert honest votes" and b: "cert True b" and c: "cert str c" and later: "ts (qc b) < ts c"
  shows "anc (qc b) c"
  using c later
proof (induction "unat (ts c)" arbitrary: c str rule: less_induct)
  case less
  let ?t = "qc b"
  have blks: "blk b" "b \<noteq> root" "blk c" "c \<noteq> root" using certified_blk[OF el] b less.prems(1) by blast+
  have step: "anc ?t c" if "blk x" "anc x c" "x \<noteq> c" "x = root \<or> (\<exists>str. cert str x)" "ts ?t \<le> ts x" for x
  proof (cases "ts ?t = ts x")
    case True
    have "?t = x"
      using True that claim_backed[OF el blks(1,2)] certified_unique[OF el _ _ True]
        anc_time[OF blk_qc[OF blks(1)] root_anc[OF blk_qc[OF blks(1)]]] anc_time[OF that(1) root_anc[OF that(1)]]
      by (metis order_less_irrefl)
    with that(2) show ?thesis by simp
  next
    case False
    then have lt: "ts ?t < ts x" using that(5) by simp
    have "x \<noteq> root" using lt root_time[OF blk_qc[OF blks(1)]] by auto
    moreover have "unat (ts x) < unat (ts c)" using anc_time[OF blks(3) that(2,3)] by (simp add: word_less_nat_alt)
    ultimately have "anc ?t x" using less.hyps that(4) lt by blast
    then show ?thesis using anc_trans[OF blks(3)] that(2) by blast
  qed
  obtain s0 s vs str1 str2 where run: "st s0" "vote_run cast s0 vs s" and mem: "(b, str1) \<in> set vs" "(c, str2) \<in> set vs" and str: "True \<longrightarrow> str1"
    by (rule electorate_common[OF el b less.prems(1)])
  from mem(1) str obtain xs ys where vs: "vs = xs @ (b, True) # ys" by (metis split_list)
  with mem(2) consider "c = b" | "c \<in> fst ` set xs" | "(c, str2) \<in> set ys" by force
  then show ?case
  proof cases
    case 1
    then show ?thesis using qc_anc[OF blks(1)] by simp
  next
    case 2
    then have "anc c b" using strong_extends[OF run(2)[unfolded vs] run(1)] less.prems(2) by blast
    then show ?thesis using anc_later[OF blks(1) qc_anc[OF blks(1)]] less.prems(2) by simp
  next
    case 3
    then obtain us ws where ys: "ys = us @ (c, str2) # ws" by (meson split_list)
    obtain lk where lk: "ts ?t \<le> ts lk" "anc ?t lk \<or> (\<exists>d. (d, True) \<in> set us \<and> lk = qc d)"
        "ts lk < ts (qc c) \<or> anc lk c \<and> lk \<noteq> c"
      using later_vote_guard[of s0 xs b us c str2 ws s] run unfolding vs ys by blast
    have backed: "lk = root \<or> (\<exists>str. cert str lk)" if "(d, True) \<in> set us" "lk = qc d" for d
    proof -
      have "(d, True) \<in> set vs" using that(1) unfolding vs ys by auto
      then have "blk d \<and> d \<noteq> root" by (rule run_blk[OF run(2,1)])
      with claim_backed[OF el] that(2) show ?thesis by blast
    qed
    from lk(3) show ?thesis
    proof (elim disjE conjE)
      assume "ts lk < ts (qc c)"
      with lk(1) show ?thesis
        using step[OF blk_qc[OF blks(3)] qc_anc[OF blks(3)] qc_proper[OF blks(3,4)] claim_backed[OF el blks(3,4)]] by simp
    next
      assume "anc lk c" "lk \<noteq> c"
      then show ?thesis using step[OF anc_blk[OF blks(3)]] lk(1,2) backed anc_trans[OF blks(3)] by blast
    qed
  qed
qed

text \<open>Two final blocks, each claimed by a strongly certified block, lie on one branch.\<close>

lemma final_on_one_branch:
  assumes el: "electorate cert honest votes" and "cert True b" and "cert True c" and le: "ts (qc b) \<le> ts (qc c)"
  shows "anc (qc b) (qc c)"
proof -
  have blks: "blk b" "b \<noteq> root" "blk c" "c \<noteq> root" using certified_blk[OF el] assms(2,3) by blast+
  note backed = claim_backed[OF el blks(1,2)] claim_backed[OF el blks(3,4)]
  show ?thesis
  proof (cases "qc b = root")
    case True
    then show ?thesis using root_anc[OF blk_qc[OF blks(3)]] by simp
  next
    case False
    then have t: "ts root < ts (qc b)" using anc_time[OF blk_qc[OF blks(1)] root_anc[OF blk_qc[OF blks(1)]]] by auto
    then obtain s1 where s1: "cert s1 (qc c)" using backed(2) le by auto
    show ?thesis
    proof (cases "ts (qc b) = ts (qc c)")
      case True
      then have "qc b = qc c" using backed(1) False s1 certified_unique[OF el] by blast
      then show ?thesis using anc_refl[OF blk_qc[OF blks(3)]] by simp
    next
      case False
      then show ?thesis using certified_extends[OF el assms(2) s1] le by simp
    qed
  qed
qed

end

end
