(* ===== verification/Savanna_Safety.thy ===== *)
theory Savanna_Safety
  imports Chain_Tree Vote_Safety
begin

text \<open>
  Safety of the finality gadget: the interfaces of the safety argument are interpreted on branches of header states and on
  \<^verbatim>\<open>finalizer::decide_vote\<close>, and the argument is instantiated for a finalizer policy whose faulty finalizers are
  outweighed.
\<close>

section \<open>The tree of branches\<close>

text \<open>
  A set of branches from one genesis block, closed under ancestors, in which different blocks have
  different identifiers.
\<close>

definition tree_ok :: "hash_lib \<Rightarrow> block_header_state \<Rightarrow> branch set \<Rightarrow> bool" where
  "tree_ok hl g T \<longleftrightarrow>
     (\<forall>h\<in>T. branch_ok hl g h) \<and> (\<forall>h\<in>T. \<forall>a. prefix a h \<and> a \<noteq> [] \<longrightarrow> a \<in> T) \<and>
     inj_on (\<lambda>h. bhs_block_id (last h)) T"

definition in_tree :: "hash_lib \<Rightarrow> block_header_state \<Rightarrow> branch set \<Rightarrow> branch \<Rightarrow> bool" where
  "in_tree hl g T h \<longleftrightarrow> tree_ok hl g T \<and> h \<in> T"

definition branch_anc :: "branch \<Rightarrow> branch \<Rightarrow> bool" where
  "branch_anc a b \<longleftrightarrow> prefix a b \<and> a \<noteq> []"

definition branch_time :: "branch \<Rightarrow> block_timestamp_type" where
  "branch_time h = bhs_timestamp (last h)"

lemma in_tree_branch: "in_tree hl g T h \<Longrightarrow> branch_ok hl g h \<and> h \<noteq> []"
  using branch_ok_core by (auto simp: in_tree_def tree_ok_def)

lemma in_tree_long: "in_tree hl g T h \<Longrightarrow> h \<noteq> [g] \<Longrightarrow> 1 < length h"
  using in_tree_branch[of hl g T h] by (cases h rule: list.exhaust[case_product list.exhaust]; cases "tl h") (auto simp: branch_ok_def)

lemma branch_anc_time:
  assumes "in_tree hl g T b" and "branch_anc a b" and "a \<noteq> b"
  shows "branch_time a < branch_time b"
proof -
  obtain ys where b: "b = a @ ys" "ys \<noteq> []" "a \<noteq> []" using assms(2,3) by (auto simp: branch_anc_def prefix_def)
  have "sorted_wrt (\<lambda>x y. bhs_timestamp x < bhs_timestamp y) b"
    using in_tree_branch[OF assms(1)] header_chain_times by (auto simp: branch_ok_def)
  then show ?thesis using b by (simp add: sorted_wrt_append branch_time_def)
qed

interpretation bt: block_tree "in_tree hl g T" branch_anc branch_time claimed "[g]" for hl g T
proof
  fix a b c
  show "branch_anc b b" if "in_tree hl g T b" using in_tree_branch[OF that] by (simp add: branch_anc_def)
  show "branch_anc a c" if "in_tree hl g T c" "branch_anc a b" "branch_anc b c"
    using that by (auto simp: branch_anc_def intro: prefix_order.trans)
  show "in_tree hl g T a" if "in_tree hl g T b" "branch_anc a b"
    using that by (auto simp: in_tree_def branch_anc_def tree_ok_def)
  show "branch_time a < branch_time b" if "in_tree hl g T b" "branch_anc a b" "a \<noteq> b"
    using that by (rule branch_anc_time)
  show "branch_anc a c \<or> branch_anc c a" if "in_tree hl g T b" "branch_anc a b" "branch_anc c b"
    using that prefix_same_cases[of a b c] by (auto simp: branch_anc_def)
  show "branch_anc [g] b" if "in_tree hl g T b"
    using in_tree_branch[OF that] by (cases b) (auto simp: branch_anc_def branch_ok_def)
  show "branch_anc (claimed b) b" if "in_tree hl g T b"
    using in_tree_branch[OF that] claimed_ne by (simp add: branch_anc_def)
  show "claimed b \<noteq> b" if "in_tree hl g T b" "b \<noteq> [g]"
    using in_tree_branch[OF that(1)] in_tree_long[OF that] claimed_proper by blast
  show "branch_anc (claimed a) (claimed b)" if "in_tree hl g T b" "branch_anc a b"
    using that in_tree_branch[OF that(1)] claimed_mono claimed_ne by (auto simp: branch_anc_def)
qed

section \<open>The finalizer\<close>

text \<open>The block with a given identifier.\<close>

definition branch_of :: "branch set \<Rightarrow> block_id_type \<Rightarrow> branch" where
  "branch_of T bid = (THE h. h \<in> T \<and> bhs_block_id (last h) = bid)"

definition refers :: "branch \<Rightarrow> block_ref \<Rightarrow> bool" where
  "refers h r \<longleftrightarrow> block_id r = bhs_block_id (last h) \<and> timestamp r = bhs_timestamp (last h)"

text \<open>The lock names a block of the tree; so does the last vote, unless there is none yet.\<close>

definition fsi_ok :: "hash_lib \<Rightarrow> block_header_state \<Rightarrow> branch set \<Rightarrow> finalizer_safety_information \<Rightarrow> bool" where
  "fsi_ok hl g T i \<longleftrightarrow> tree_ok hl g T \<and> (\<exists>h\<in>T. refers h (lock i)) \<and>
     (block_ref_empty (last_vote i) \<or> (\<exists>h\<in>T. refers h (last_vote i)))"

definition fsi_voted :: "branch set \<Rightarrow> finalizer_safety_information \<Rightarrow> branch option" where
  "fsi_voted T i = (if block_ref_empty (last_vote i) then None else Some (branch_of T (block_id (last_vote i))))"

definition fsi_locked :: "branch set \<Rightarrow> finalizer_safety_information \<Rightarrow> branch" where
  "fsi_locked T i = branch_of T (block_id (lock i))"

text \<open>A vote of \<^verbatim>\<open>decide_vote\<close> on the block state of a branch. The genesis block is not voted on.\<close>

definition casts :: "hash_lib \<Rightarrow> branch set \<Rightarrow> finalizer_safety_information \<Rightarrow> branch \<Rightarrow> bool \<Rightarrow> finalizer_safety_information \<Rightarrow> bool" where
  "casts hl T i h strong i' \<longleftrightarrow> h \<in> T \<and> 1 < length h \<and>
     (\<exists>bs res. bhs bs = last h \<and> decide_vote bs i = Some (res, i') \<and>
        decision res = (if strong then strong_vote else weak_vote))"

lemma branch_of_eq:
  assumes "tree_ok hl g T" and "h \<in> T" and "bhs_block_id (last h) = bid"
  shows "branch_of T bid = h"
  unfolding branch_of_def using assms by (intro the_equality) (auto simp: tree_ok_def dest: inj_onD)

lemma extends_ancestor:
  assumes "tree_ok hl g T" and "h \<in> T" and "l \<in> T" and "extends (core (last h)) (bhs_block_id (last l)) = Some True"
  shows "branch_anc l h \<and> l \<noteq> h"
proof -
  have h: "branch_ok hl g h" using assms(1,2) by (simp add: tree_ok_def)
  obtain i where i: "i < length h - 1" "bhs_block_id (h ! i) = bhs_block_id (last l)"
    using branch_extends[OF h, of "bhs_block_id (last l)"] assms(4) by auto
  let ?a = "take (Suc i) h"
  have "prefix ?a h \<and> ?a \<noteq> []" using i(1) by (auto simp: take_is_prefix)
  then have "?a \<in> T" using assms(1,2) unfolding tree_ok_def by blast
  moreover have "bhs_block_id (last ?a) = bhs_block_id (last l)" using i by (simp add: take_Suc_conv_app_nth)
  ultimately have "?a = l" using assms(1,3) by (auto simp: tree_ok_def dest: inj_onD)
  moreover have "?a \<noteq> []" "length ?a < length h" using i(1) by (auto simp: min_def)
  ultimately show ?thesis using take_is_prefix[of "Suc i" h] by (auto simp: branch_anc_def)
qed

lemma fsi_locked_ref:
  assumes "fsi_ok hl g T i"
  shows "fsi_locked T i \<in> T" and "refers (fsi_locked T i) (lock i)"
proof -
  obtain h where "h \<in> T" "refers h (lock i)" using assms by (auto simp: fsi_ok_def)
  moreover from this have "fsi_locked T i = h"
    using assms branch_of_eq[of hl g T h] by (auto simp: fsi_locked_def fsi_ok_def refers_def)
  ultimately show "fsi_locked T i \<in> T" and "refers (fsi_locked T i) (lock i)" by simp_all
qed

lemma fsi_voted_ref:
  assumes "fsi_ok hl g T i" and "fsi_voted T i = Some l"
  shows "l \<in> T" and "refers l (last_vote i)" and "\<not> block_ref_empty (last_vote i)"
proof -
  show ne: "\<not> block_ref_empty (last_vote i)" using assms(2) by (auto simp: fsi_voted_def split: if_splits)
  then obtain h where "h \<in> T" "refers h (last_vote i)" using assms(1) by (auto simp: fsi_ok_def)
  moreover from this have "l = h"
    using assms branch_of_eq[of hl g T h] ne by (auto simp: fsi_voted_def fsi_ok_def refers_def)
  ultimately show "l \<in> T" and "refers l (last_vote i)" by simp_all
qed

lemma num_from_id_zero: "num_from_id sha256_zero = 0"
  by code_simp

lemma long_id_not_empty:
  assumes "branch_ok hl g h" and "1 < length h"
  shows "\<not> sha256_empty (bhs_block_id (last h))"
proof -
  have core: "chain_core hl h" "h \<noteq> []" using branch_ok_core[OF assms(1)] by auto
  have "unat (bhs_block_num (last h)) \<noteq> 0" "num_from_id (bhs_block_id (last h)) = bhs_block_num (last h)"
    using chain_core_reads(3,4)[OF core, of "length h - 1"] core(2) assms(2) by (auto simp: last_conv_nth)
  then show ?thesis by (auto simp: sha256_empty_iff num_from_id_zero)
qed

text \<open>What a cast vote says about the branch, the claimed block and the safety information.\<close>

lemma casts_spec:
  assumes "fsi_ok hl g T i" and "casts hl T i h strong i'"
  obtains "in_tree hl g T h" and "1 < length h" and "refers h (last_vote i')"
    and "block_ref_empty (last_vote i) \<or> timestamp (last_vote i) < branch_time h"
    and "timestamp (lock i) < branch_time (claimed h) \<or> extends (core (last h)) (block_id (lock i)) = Some True"
    and "vote_strength (core (last h)) (branch_time (claimed h)) i =
           Some (if strong then strong_vote else weak_vote, other_branch_latest_time i')"
    and "if strong \<and> timestamp (lock i) < branch_time (claimed h) then refers (claimed h) (lock i') else lock i' = lock i"
proof -
  have tree: "in_tree hl g T h" "1 < length h" using assms by (auto simp: in_tree_def casts_def fsi_ok_def)
  have ok: "branch_ok hl g h" using in_tree_branch[OF tree(1)] by simp
  obtain bs res where bs: "bhs bs = last h" and vote: "decide_vote bs i = Some (res, i')"
    and d: "decision res = (if strong then strong_vote else weak_vote)"
    using assms(2) by (auto simp: casts_def)
  then have "decision res \<noteq> no_vote" by simp
  note votes = decide_vote_votes[OF vote this]
  note qts = branch_claim_reads(1)[OF ok tree(2)]
  note spec = vote_update_spec[OF votes(3)[unfolded d], unfolded bs, OF qts]
  obtain claim where claim: "latest_qc_claim (core (last h)) = Some claim" "block_num claim = claim_num h"
    using branch_claim_reads(2)[OF ok tree(2)] by blast
  obtain r where r: "get_block_reference (core (last h)) (claim_num h) = Some r" "bhs_make_block_ref hl (last (claimed h)) = Some r"
    by (rule branch_claimed_ref[OF ok tree(2)])
  have lk: "refers (claimed h) (lock i')" if "strong" "timestamp (lock i) < branch_time (claimed h)"
    using spec(4)[OF _ _ claim(1)] that claim(2) r make_block_ref_reads[OF r(2)] by (simp add: refers_def branch_time_def)
  show thesis
  proof (rule that[OF tree])
    show "refers h (last_vote i')" using spec(2) bs by (simp add: refers_def bs_make_block_ref_def)
    show "block_ref_empty (last_vote i) \<or> timestamp (last_vote i) < branch_time h"
      using votes(1) bs by (simp add: branch_time_def)
    show "timestamp (lock i) < branch_time (claimed h) \<or> extends (core (last h)) (block_id (lock i)) = Some True"
      using votes(2) qts bs by (simp add: branch_time_def)
    show "vote_strength (core (last h)) (branch_time (claimed h)) i =
           Some (if strong then strong_vote else weak_vote, other_branch_latest_time i')"
      using spec(1) by (simp add: branch_time_def)
    show "if strong \<and> timestamp (lock i) < branch_time (claimed h) then refers (claimed h) (lock i') else lock i' = lock i"
      using lk spec(3) by (auto simp: branch_time_def)
  qed
qed

lemma refers_of: "fsi_ok hl g T i \<Longrightarrow> h \<in> T \<Longrightarrow> refers h (lock i) \<Longrightarrow> fsi_locked T i = h"
  using branch_of_eq[of hl g T h] by (auto simp: fsi_locked_def fsi_ok_def refers_def)

lemma casts_keeps:
  assumes "fsi_ok hl g T i" and "casts hl T i h strong i'"
  shows "fsi_ok hl g T i'" and "fsi_voted T i' = Some h"
proof -
  obtain tree: "in_tree hl g T h" and long: "1 < length h" and lv: "refers h (last_vote i')"
    and lk: "if strong \<and> timestamp (lock i) < branch_time (claimed h) then refers (claimed h) (lock i') else lock i' = lock i"
    by (rule casts_spec[OF assms])
  have "claimed h \<in> T" using bt.blk_qc[OF tree] by (simp add: in_tree_def)
  then have "\<exists>h\<in>T. refers h (lock i')" using lk assms(1) by (auto simp: fsi_ok_def split: if_splits)
  then show "fsi_ok hl g T i'" using tree lv assms(1) by (auto simp: fsi_ok_def in_tree_def)
  have "\<not> block_ref_empty (last_vote i')"
    using long_id_not_empty[of hl g h] in_tree_branch[OF tree] long lv by (simp add: block_ref_empty_def refers_def)
  moreover have "branch_of T (block_id (last_vote i')) = h"
    using tree lv branch_of_eq[of hl g T h] by (simp add: in_tree_def refers_def)
  ultimately show "fsi_voted T i' = Some h" by (simp add: fsi_voted_def)
qed

lemma casts_last_vote:
  assumes "fsi_ok hl g T i" and "casts hl T i h strong i'" and "fsi_voted T i = Some l"
  shows "branch_time l < branch_time h" and "timestamp (last_vote i) = branch_time l"
    and "extends (core (last h)) (block_id (last_vote i)) = Some True \<Longrightarrow> branch_anc l h"
proof -
  note l = fsi_voted_ref[OF assms(1,3)]
  show t: "timestamp (last_vote i) = branch_time l" using l(2) by (simp add: refers_def branch_time_def)
  have h: "in_tree hl g T h" by (rule casts_spec[OF assms(1,2)])
  show "branch_time l < branch_time h"
    by (rule casts_spec[OF assms(1,2)]) (use l(3) t in simp)
  show "branch_anc l h" if "extends (core (last h)) (block_id (last_vote i)) = Some True"
    using extends_ancestor[of hl g T h l] h l that by (simp add: in_tree_def refers_def)
qed

interpretation fv: voter "in_tree hl g T" branch_anc branch_time claimed "[g]"
    "fsi_ok hl g T" "casts hl T" "fsi_voted T" "fsi_locked T" other_branch_latest_time for hl g T
proof
  fix i h strong i' l
  assume i: "fsi_ok hl g T i"
  have lt: "timestamp (lock i) = branch_time (fsi_locked T i)" "block_id (lock i) = bhs_block_id (last (fsi_locked T i))"
    using fsi_locked_ref[OF i] by (simp_all add: refers_def branch_time_def)
  { assume c: "casts hl T i h strong i'"
    show "in_tree hl g T h \<and> h \<noteq> [g]" by (rule casts_spec[OF i c]) auto
    show "fsi_ok hl g T i'" "fsi_voted T i' = Some h" by (rule casts_keeps[OF i c])+
    show "branch_time l < branch_time h" if "fsi_voted T i = Some l" by (rule casts_last_vote(1)[OF i c that])
    show "branch_time (fsi_locked T i) < branch_time (claimed h) \<or> branch_anc (fsi_locked T i) h \<and> fsi_locked T i \<noteq> h"
      by (rule casts_spec[OF i c]) (use extends_ancestor[of hl g T h "fsi_locked T i"] fsi_locked_ref(1)[OF i] lt in \<open>auto simp: in_tree_def\<close>)
  }
  { assume c: "casts hl T i h True i'"
    show "branch_time l \<le> branch_time (claimed h) \<or> branch_anc l h \<and> other_branch_latest_time i \<le> branch_time (claimed h)"
      if l: "fsi_voted T i = Some l"
      by (rule casts_spec[OF i c]) (use casts_last_vote(2,3)[OF i c l] in \<open>auto dest: vote_strength_cases\<close>)
    show "fsi_locked T i' = (if branch_time (fsi_locked T i) < branch_time (claimed h) then claimed h else fsi_locked T i)"
    proof (rule casts_spec[OF i c], goal_cases)
      case 1
      have "claimed h \<in> T" using bt.blk_qc[OF 1(1)] by (simp add: in_tree_def)
      note found = refers_of[OF casts_keeps(1)[OF i c] this]
      show ?case
      proof (cases "branch_time (fsi_locked T i) < branch_time (claimed h)")
        case True
        with 1(7) lt(1) found show ?thesis by simp
      next
        case False
        with 1(7) lt(1) have "lock i' = lock i" by simp
        with False show ?thesis by (simp add: fsi_locked_def)
      qed
    qed
  }
  { assume c: "casts hl T i h False i'"
    show "fsi_locked T i' = fsi_locked T i" by (rule casts_spec[OF i c]) (simp add: fsi_locked_def)
    show "branch_anc l h \<and> other_branch_latest_time i' = other_branch_latest_time i \<or> other_branch_latest_time i' = branch_time l"
      if l: "fsi_voted T i = Some l"
      by (rule casts_spec[OF i c]) (use casts_last_vote(2,3)[OF i c l] in \<open>auto dest!: vote_strength_cases\<close>)
  }
qed

section \<open>Certificates and votes\<close>

text \<open>A certificate on the last block of a branch that the checks of the node accept.\<close>

definition certified :: "hash_lib \<Rightarrow> bls_lib \<Rightarrow> branch set \<Rightarrow> bool \<Rightarrow> branch \<Rightarrow> bool" where
  "certified hl lib T strong h \<longleftrightarrow> h \<in> T \<and> 1 < length h \<and>
     (\<exists>q d. compute_finality_digest hl (last h) = Some d \<and>
        verify_qc lib (active_policy (last h)) (map_option snd (pending_policy (last h))) q d (create_weak_digest d) = Inr () \<and>
        (strong \<longrightarrow> qc_is_strong q))"

text \<open>Every claim in the tree, other than that of the genesis block, was accepted with a certificate.\<close>

definition claims_verified :: "hash_lib \<Rightarrow> bls_lib \<Rightarrow> branch set \<Rightarrow> bool" where
  "claims_verified hl lib T \<longleftrightarrow>
     (\<forall>h\<in>T. 1 < length (claimed h) \<longrightarrow> certified hl lib T (claim_strong h) (claimed h))"

text \<open>
  Signatures cannot be forged: an honest finalizer marked in an accepted certificate cast that vote.
  Finalizers are named by their position in the active policy.
\<close>

definition votes_unforgeable :: "hash_lib \<Rightarrow> bls_lib \<Rightarrow> branch set \<Rightarrow> (nat \<Rightarrow> bool) \<Rightarrow> (nat \<Rightarrow> (branch \<times> bool) list) \<Rightarrow> bool" where
  "votes_unforgeable hl lib T honest votes \<longleftrightarrow>
     (\<forall>h\<in>T. \<forall>q d. 1 < length h \<and> compute_finality_digest hl (last h) = Some d \<and>
        verify_qc lib (active_policy (last h)) (map_option snd (pending_policy (last h))) q d (create_weak_digest d) = Inr () \<longrightarrow>
        (\<forall>k. honest k \<longrightarrow> (k \<in> strong_set (active_policy_sig q) \<longrightarrow> (h, True) \<in> set (votes k)) \<and>
                          (k \<in> weak_set (active_policy_sig q) \<longrightarrow> (h, False) \<in> set (votes k))))"

text \<open>An honest finalizer starts from safety information about blocks of the tree and votes as \<^verbatim>\<open>decide_vote\<close> says.\<close>

definition finalizers_follow :: "hash_lib \<Rightarrow> block_header_state \<Rightarrow> branch set \<Rightarrow> (nat \<Rightarrow> bool) \<Rightarrow> (nat \<Rightarrow> (branch \<times> bool) list) \<Rightarrow> bool" where
  "finalizers_follow hl g T honest votes \<longleftrightarrow>
     (\<forall>k. honest k \<longrightarrow> (\<exists>i0 i. fsi_ok hl g T i0 \<and> vote_run (casts hl T) i0 (votes k) i))"

lemma qc_sig_quorum:
  assumes "verify_qc lib p pending q d wd = Inr ()" and "policy_ok p"
  shows "sig_quorum p (active_policy_sig q)"
proof -
  have "verify_vote_format (active_policy_sig q) p = Inr ()" "qc_sig_verify lib (active_policy_sig q) p d wd = Inr ()"
    using assms(1) by (auto simp: verify_qc_def bind_res_Inr_iff)
  with assms(2) show ?thesis by (intro qc_sig_verify_quorum) (simp_all add: policy_ok_def)
qed

text \<open>The voters of an accepted certificate.\<close>

lemma certified_voters:
  assumes "certified hl lib T strong h" and "policy_ok (active_policy (last h))" and "votes_unforgeable hl lib T honest votes"
  obtains A where "A \<subseteq> {..<length (finalizers (active_policy (last h)))}"
    and "unat (threshold (active_policy (last h))) \<le> weight_of (active_policy (last h)) A"
    and "\<And>k. k \<in> A \<Longrightarrow> honest k \<Longrightarrow> \<exists>str. (h, str) \<in> set (votes k) \<and> (strong \<longrightarrow> str)"
proof -
  obtain q d where q: "compute_finality_digest hl (last h) = Some d" "h \<in> T" "1 < length h" "strong \<Longrightarrow> qc_is_strong q"
      "verify_qc lib (active_policy (last h)) (map_option snd (pending_policy (last h))) q d (create_weak_digest d) = Inr ()"
    using assms(1) by (auto simp: certified_def)
  have quorum: "sig_quorum (active_policy (last h)) (active_policy_sig q)" by (rule qc_sig_quorum[OF q(5) assms(2)])
  let ?A = "strong_set (active_policy_sig q) \<union> weak_set (active_policy_sig q)"
  have "\<exists>str. (h, str) \<in> set (votes k) \<and> (strong \<longrightarrow> str)" if k: "k \<in> ?A" "honest k" for k
  proof -
    have "strong \<Longrightarrow> weak_set (active_policy_sig q) = {}"
      using quorum q(4) by (simp add: sig_quorum_def qc_is_strong_def qc_sig_is_strong_def split: option.splits)
    moreover have "k \<in> strong_set (active_policy_sig q) \<Longrightarrow> (h, True) \<in> set (votes k)"
      "k \<in> weak_set (active_policy_sig q) \<Longrightarrow> (h, False) \<in> set (votes k)"
      using assms(3) k(2) q unfolding votes_unforgeable_def by blast+
    ultimately show ?thesis using k(1) by auto
  qed
  with quorum show thesis by (intro that[of ?A]) (auto simp: sig_quorum_def)
qed

lemma honest_overlap:
  assumes "A \<subseteq> {..<length (finalizers p)}" and "B \<subseteq> {..<length (finalizers p)}"
    and "unat (threshold p) \<le> weight_of p A" and "unat (threshold p) \<le> weight_of p B"
    and "weight_of p {k. k < length (finalizers p) \<and> \<not> honest k} + total_weight (finalizers p) < 2 * unat (threshold p)"
  obtains k where "k \<in> A" and "k \<in> B" and "honest k"
proof (rule ccontr)
  assume "\<not> thesis"
  with that assms(1) have "A \<inter> B \<subseteq> {k. k < length (finalizers p) \<and> \<not> honest k}" by auto
  then have "weight_of p (A \<inter> B) \<le> weight_of p {k. k < length (finalizers p) \<and> \<not> honest k}"
    unfolding weight_of_def by (intro sum_mono2) auto
  with quorum_overlap[OF assms(1-4)] assms(5) show False by linarith
qed

lemma tree_electorate:
  assumes tree: "tree_ok hl g T" and pol: "policy_ok p" "\<forall>h\<in>T. active_policy (last h) = p"
    and claims: "claims_verified hl lib T" and unf: "votes_unforgeable hl lib T honest votes"
    and follow: "finalizers_follow hl g T honest votes"
    and faulty: "weight_of p {k. k < length (finalizers p) \<and> \<not> honest k} + total_weight (finalizers p) < 2 * unat (threshold p)"
  shows "fv.electorate hl g T (certified hl lib T) honest votes"
  unfolding fv.electorate_def
proof (intro conjI allI impI)
  fix k assume "honest k"
  then show "\<exists>s0 s. fsi_ok hl g T s0 \<and> vote_run (casts hl T) s0 (votes k) s"
    using follow by (simp add: finalizers_follow_def)
next
  fix s1 b1 s2 b2 assume "certified hl lib T s1 b1 \<and> certified hl lib T s2 b2"
  then have c: "certified hl lib T s1 b1" "certified hl lib T s2 b2" by auto
  then have p: "active_policy (last b1) = p" "active_policy (last b2) = p" using pol(2) by (auto simp: certified_def)
  obtain A where A: "A \<subseteq> {..<length (finalizers p)}" "unat (threshold p) \<le> weight_of p A"
      "\<And>k. k \<in> A \<Longrightarrow> honest k \<Longrightarrow> \<exists>str. (b1, str) \<in> set (votes k) \<and> (s1 \<longrightarrow> str)"
    by (rule certified_voters[OF c(1) _ unf, unfolded p]) (use pol(1) in auto)
  obtain B where B: "B \<subseteq> {..<length (finalizers p)}" "unat (threshold p) \<le> weight_of p B"
      "\<And>k. k \<in> B \<Longrightarrow> honest k \<Longrightarrow> \<exists>str. (b2, str) \<in> set (votes k) \<and> (s2 \<longrightarrow> str)"
    by (rule certified_voters[OF c(2) _ unf, unfolded p]) (use pol(1) in auto)
  obtain k where "k \<in> A" "k \<in> B" "honest k" by (rule honest_overlap[OF A(1) B(1) A(2) B(2) faulty])
  with A(3) B(3) show "\<exists>k str1 str2. honest k \<and> (b1, str1) \<in> set (votes k) \<and> (b2, str2) \<in> set (votes k) \<and> (s1 \<longrightarrow> str1) \<and> (s2 \<longrightarrow> str2)"
    by meson
next
  fix b assume "in_tree hl g T b \<and> b \<noteq> [g]"
  then have b: "in_tree hl g T b" by simp
  show "claimed b = [g] \<or> (\<exists>str. certified hl lib T str (claimed b))"
    using claims b in_tree_long[OF bt.blk_qc[OF b]] by (auto simp: claims_verified_def in_tree_def)
qed

text \<open>The last final block is the genesis block or the claim of a strongly certified block.\<close>

lemma final_certified:
  assumes "tree_ok hl g T" and "claims_verified hl lib T" and "h \<in> T"
  shows "final_branch h = [g] \<or> (\<exists>b. certified hl lib T True b \<and> final_branch h = claimed b)"
proof -
  have ok: "branch_ok hl g h" using assms by (simp add: tree_ok_def)
  show ?thesis
    using branch_final[OF ok]
  proof (elim disjE exE conjE)
    fix h' assume h': "prefix h' h" "1 < length h'" "claim_strong h'" "final_branch h = claimed (claimed h')"
    have "h' \<noteq> []" using h'(2) by auto
    then have in': "in_tree hl g T h'" using h'(1) assms(1,3) unfolding in_tree_def tree_ok_def by blast
    show ?thesis
    proof (cases "claimed h' = [g]")
      case True
      then show ?thesis using h'(4) claimed_prefix[of "[g]"] claimed_ne[of "[g]"] by (cases "claimed [g]") auto
    next
      case False
      then have "1 < length (claimed h')" using in_tree_long bt.blk_qc[OF in'] by blast
      then have "certified hl lib T True (claimed h')"
        using assms(2) in' h'(3) unfolding claims_verified_def in_tree_def by metis
      then show ?thesis using h'(4) by blast
    qed
  qed simp
qed

section \<open>Properties\<close>

text \<open>
  C1. Safety of Savanna finality. Take any set of blocks with one genesis block, one active finalizer policy, and claims
  that passed \<^verbatim>\<open>verify_qc\<close>. If the honest finalizers vote as \<^verbatim>\<open>decide_vote\<close> says, signatures cannot be forged, and the
  faulty finalizers weigh less than twice the threshold minus the total weight, then the last final blocks
  that any two block states report lie on one branch.
\<close>

theorem savanna_safety:
  assumes "tree_ok hl g T" and "policy_ok p" and "\<forall>h\<in>T. active_policy (last h) = p"
    and "claims_verified hl lib T" and "votes_unforgeable hl lib T honest votes" and "finalizers_follow hl g T honest votes"
    and "weight_of p {k. k < length (finalizers p) \<and> \<not> honest k} + total_weight (finalizers p) < 2 * unat (threshold p)"
    and "h1 \<in> T" and "h2 \<in> T"
  shows "prefix (final_branch h1) (final_branch h2) \<or> prefix (final_branch h2) (final_branch h1)"
proof -
  note el = tree_electorate[OF assms(1-7)]
  note final = final_certified[OF assms(1,4)]
  have first: "prefix [g] (final_branch h)" if h: "h \<in> T" for h
    using h assms(1) branch_ok_core[of hl g h] by (cases h) (auto simp: tree_ok_def final_branch_def branch_ok_def)
  show ?thesis
  proof (cases "final_branch h1 = [g] \<or> final_branch h2 = [g]")
    case True
    then show ?thesis using first assms(8,9) by auto
  next
    case False
    then obtain b1 b2 where b: "certified hl lib T True b1" "final_branch h1 = claimed b1"
        "certified hl lib T True b2" "final_branch h2 = claimed b2"
      using final assms(8,9) by blast
    then show ?thesis
      using fv.final_on_one_branch[OF el b(1,3)] fv.final_on_one_branch[OF el b(3,1)] linear[of "branch_time (claimed b1)"]
      by (auto simp: branch_anc_def)
  qed
qed

text \<open>
  The first four blocks of the example chain, with three finalizers that vote strong on all of them and a signature
  library that accepts strong certificates only.
\<close>

definition ex_branch :: branch where
  "ex_branch = [ex_s1, ex_s2, ex_s3, ex_s4]"

definition ex_tree :: "branch set" where
  "ex_tree = {[ex_s1], [ex_s1, ex_s2], [ex_s1, ex_s2, ex_s3], ex_branch}"

definition ex_strong_lib :: bls_lib where
  "ex_strong_lib = ex_lib\<lparr>aggregate_verify := (\<lambda>ks ds s. \<forall>d\<in>set ds. length d = 32)\<rparr>"

definition ex_votes :: "(branch \<times> bool) list" where
  "ex_votes = [([ex_s1, ex_s2], True), ([ex_s1, ex_s2, ex_s3], True), (ex_branch, True)]"

lemma ex_tree_prefixes: "ex_tree = {a. prefix a ex_branch \<and> a \<noteq> []}"
  by (auto simp: ex_tree_def ex_branch_def prefix_Cons)

lemma ex_ids: "bhs_block_id ex_s1 = calculate_id sha256_zero 1" "bhs_block_id ex_s2 = calculate_id sha256_zero 2"
  "bhs_block_id ex_s3 = calculate_id sha256_zero 3" "bhs_block_id ex_s4 = calculate_id sha256_zero 4"
  by (simp_all add: ex_s1_def ex_s2_def ex_s3_def ex_s4_def)

lemma calculate_id_inj: "calculate_id d a = calculate_id d b \<Longrightarrow> a = b"
  by (metis num_from_id_calculate_id)

lemma ex_tree_ok: "tree_ok ex_hl ex_s1 ex_tree"
proof -
  have chain: "header_chain ex_hl (ex_branch @ [ex_s5, ex_s6])" using ex_chain by (simp add: ex_branch_def)
  have "unat (bhs_block_num ex_s1) = 1"
    by (simp add: ex_s1_def ex_state_def ex_header_def bhs_block_num_def num_from_id_calculate_id)
  then have "branch_ok ex_hl ex_s1 ex_branch"
    using header_chain_prefix[OF chain] by (simp add: branch_ok_def ex_branch_def)
  then have "\<forall>h\<in>ex_tree. branch_ok ex_hl ex_s1 h" unfolding ex_tree_prefixes by (auto intro: branch_ok_prefix)
  moreover have "\<forall>h\<in>ex_tree. \<forall>a. prefix a h \<and> a \<noteq> [] \<longrightarrow> a \<in> ex_tree"
    unfolding ex_tree_prefixes by (auto intro: prefix_order.trans)
  moreover have "inj_on (\<lambda>h. bhs_block_id (last h)) ex_tree"
    by (auto simp: inj_on_def ex_tree_def ex_branch_def ex_ids dest: calculate_id_inj)
  ultimately show ?thesis by (simp add: tree_ok_def)
qed

lemma ex_claims: "claimed [ex_s1] = [ex_s1]" "claimed [ex_s1, ex_s2] = [ex_s1]"
  "claimed [ex_s1, ex_s2, ex_s3] = [ex_s1, ex_s2]" "claimed ex_branch = [ex_s1, ex_s2, ex_s3]"
  by (simp_all add: claimed_def claim_num_def ex_branch_def ex_s1_def ex_s2_def ex_s3_def ex_s4_def ex_state_def ex_link_def
      ex_header_def bhs_block_num_def num_from_id_calculate_id)

lemma ex_policies:
  "active_policy ex_s1 = ex_pol 1" "active_policy ex_s2 = ex_pol 1" "active_policy ex_s3 = ex_pol 1" "active_policy ex_s4 = ex_pol 1"
  "pending_policy ex_s2 = None" "pending_policy ex_s3 = None"
  by (simp_all add: ex_s1_def ex_s2_def ex_s3_def ex_s4_def ex_state_def)

lemma ex_strong_certificate:
  "verify_qc ex_strong_lib (ex_pol 1) None
     \<lparr>qc_block_num = n, active_policy_sig = \<lparr>strong_votes = Some [True, True, True], weak_votes = None, sig = []\<rparr>, pending_policy_sig = None\<rparr>
     d (create_weak_digest d) = Inr ()"
  by (simp add: verify_qc_def verify_vote_format_def qc_sig_verify_def ex_pol_def ex_strong_lib_def qc_sig_is_strong_def ex_finalizer_def)

lemma ex_certified: "certified ex_hl ex_strong_lib ex_tree str [ex_s1, ex_s2]" "certified ex_hl ex_strong_lib ex_tree str [ex_s1, ex_s2, ex_s3]"
proof -
  have d: "\<exists>d. compute_finality_digest ex_hl ex_s2 = Some d" "\<exists>d. compute_finality_digest ex_hl ex_s3 = Some d"
    by (simp_all add: ex_s2_def ex_s3_def ex_eval)
  have "qc_is_strong \<lparr>qc_block_num = n, active_policy_sig = \<lparr>strong_votes = Some [True, True, True], weak_votes = None, sig = []\<rparr>,
      pending_policy_sig = None\<rparr>" for n by (simp add: qc_is_strong_def qc_sig_is_strong_def)
  then have "\<exists>q. verify_qc ex_strong_lib (ex_pol 1) None q d (create_weak_digest d) = Inr () \<and> (str \<longrightarrow> qc_is_strong q)" for d
    using ex_strong_certificate by blast
  with d show "certified ex_hl ex_strong_lib ex_tree str [ex_s1, ex_s2]" "certified ex_hl ex_strong_lib ex_tree str [ex_s1, ex_s2, ex_s3]"
    by (auto simp: certified_def ex_tree_def ex_policies)
qed

lemma ex_lib_strong_only:
  assumes "verify_qc ex_strong_lib p pending q d (create_weak_digest d) = Inr ()"
  shows "weak_set (active_policy_sig q) = {}"
proof (cases "weak_votes (active_policy_sig q)")
  case (Some w)
  have "length (create_weak_digest d) = 36" by (simp add: create_weak_digest_def)
  with Some assms show ?thesis
    by (auto simp: verify_qc_def qc_sig_verify_def bind_res_Inr_iff eos_assert_Inr_iff ex_strong_lib_def Let_def)
qed (simp add: weak_set_def)

definition ex_fsi :: "u32 \<Rightarrow> block_ref \<Rightarrow> finalizer_safety_information" where
  "ex_fsi n v = \<lparr>last_vote = v, lock = ex_bref n 1 0, other_branch_latest_time = 0\<rparr>"

definition ex_vref :: "u32 \<Rightarrow> block_ref" where
  "ex_vref n = \<lparr>block_id = calculate_id sha256_zero n, timestamp = n, finality_digest = Sha256 1 0 0 0,
     active_policy_generation = 1, pending_policy_generation = (if n = 4 then 2 else 0)\<rparr>"

lemmas ex_vote_eval = decide_vote_def vote_checks_def vote_update_def vote_strength_def bs_make_block_ref_def latest_qc_block_timestamp_def
  extends_def ex_fsi_def ex_vref_def empty_block_ref_def block_ref_empty_def ex_eval ex_bs_def

lemma ex_id_not_empty: "n \<noteq> 0 \<Longrightarrow> \<not> sha256_empty (calculate_id sha256_zero n)"
  by (metis num_from_id_calculate_id num_from_id_zero sha256_empty_iff)

lemma ex_decisions:
  "\<exists>res. decide_vote (ex_bs ex_s2 None) (ex_fsi 1 empty_block_ref) = Some (res, ex_fsi 1 (ex_vref 2)) \<and> decision res = strong_vote"
  "\<exists>res. decide_vote (ex_bs ex_s3 None) (ex_fsi 1 (ex_vref 2)) = Some (res, ex_fsi 2 (ex_vref 3)) \<and> decision res = strong_vote"
  "\<exists>res. decide_vote (ex_bs ex_s4 None) (ex_fsi 2 (ex_vref 3)) = Some (res, ex_fsi 3 (ex_vref 4)) \<and> decision res = strong_vote"
  by (simp_all add: ex_s2_def ex_s3_def ex_s4_def ex_vote_eval ex_id_not_empty)

theorem savanna_safety_witness:
  "final_branch [ex_s1, ex_s2] = [ex_s1] \<and> final_branch ex_branch = [ex_s1, ex_s2] \<and>
   (prefix (final_branch [ex_s1, ex_s2]) (final_branch ex_branch) \<or> prefix (final_branch ex_branch) (final_branch [ex_s1, ex_s2]))"
proof -
  let ?votes = "\<lambda>_ :: nat. ex_votes" and ?honest = "\<lambda>_ :: nat. True"
  have final: "final_branch [ex_s1, ex_s2] = [ex_s1]" "final_branch ex_branch = [ex_s1, ex_s2]"
    by (simp_all add: final_branch_def final_num_def ex_branch_def ex_s1_def ex_s2_def ex_s3_def ex_s4_def ex_state_def ex_link_def
        ex_header_def bhs_block_num_def num_from_id_calculate_id)
  have claims: "claims_verified ex_hl ex_strong_lib ex_tree"
    by (auto simp: claims_verified_def ex_tree_def ex_claims ex_certified[unfolded ex_tree_def])
  have unf: "votes_unforgeable ex_hl ex_strong_lib ex_tree ?honest ?votes"
    unfolding votes_unforgeable_def
    by (auto simp: ex_tree_def ex_votes_def dest: ex_lib_strong_only)
  have start: "fsi_ok ex_hl ex_s1 ex_tree (ex_fsi 1 empty_block_ref)"
    using ex_tree_ok by (auto simp: fsi_ok_def ex_fsi_def empty_block_ref_def block_ref_empty_def sha256_empty_iff refers_def ex_tree_def
        ex_bref_def ex_ids bhs_timestamp_def ex_s1_def ex_state_def ex_header_def)
  have cast: "casts ex_hl ex_tree i h True i'"
    if "h \<in> ex_tree" "1 < length h" "last h = s" "\<exists>res. decide_vote (ex_bs s None) i = Some (res, i') \<and> decision res = strong_vote" for i h i' s
    using that by (auto simp: casts_def intro!: exI[of _ "ex_bs s None"])
  have c: "casts ex_hl ex_tree (ex_fsi 1 empty_block_ref) [ex_s1, ex_s2] True (ex_fsi 1 (ex_vref 2))"
    "casts ex_hl ex_tree (ex_fsi 1 (ex_vref 2)) [ex_s1, ex_s2, ex_s3] True (ex_fsi 2 (ex_vref 3))"
    "casts ex_hl ex_tree (ex_fsi 2 (ex_vref 3)) ex_branch True (ex_fsi 3 (ex_vref 4))"
    by (rule cast[OF _ _ _ ex_decisions(1)] cast[OF _ _ _ ex_decisions(2)] cast[OF _ _ _ ex_decisions(3)];
        simp add: ex_tree_def ex_branch_def)+
  have "vote_run (casts ex_hl ex_tree) (ex_fsi 1 empty_block_ref) ((([] @ [([ex_s1, ex_s2], True)]) @ [([ex_s1, ex_s2, ex_s3], True)]) @ [(ex_branch, True)])
      (ex_fsi 3 (ex_vref 4))"
    by (rule vote_next, rule vote_next, rule vote_next, rule vote_start) (rule c)+
  then have follow: "finalizers_follow ex_hl ex_s1 ex_tree ?honest ?votes"
    using start by (auto simp: finalizers_follow_def ex_votes_def)
  have pol: "policy_ok (ex_pol 1)" "weight_of (ex_pol 1) {k. k < length (finalizers (ex_pol 1)) \<and> \<not> ?honest k} +
      total_weight (finalizers (ex_pol 1)) < 2 * unat (threshold (ex_pol 1))"
    by (simp_all add: policy_ok_def ex_pol_def ex_finalizer_def max_finalizers_def weight_of_def)
  have act: "\<forall>h\<in>ex_tree. active_policy (last h) = ex_pol 1" by (simp add: ex_tree_def ex_branch_def ex_policies)
  have safe: "prefix (final_branch [ex_s1, ex_s2]) (final_branch ex_branch) \<or> prefix (final_branch ex_branch) (final_branch [ex_s1, ex_s2])"
    by (rule savanna_safety[OF ex_tree_ok pol(1) act claims unf follow pol(2)]) (simp_all add: ex_tree_def)
  show ?thesis by (rule conjI[OF final(1) conjI[OF final(2) safe]])
qed

end
