(* ===== verification/Crash_Safety.thy ===== *)
theory Crash_Safety
  imports My_Finalizers Savanna_Safety
begin

text \<open>
  What a node emits over its whole life. A node runs the operations of \<^verbatim>\<open>my_finalizers_t\<close> in any order, writing the safety file
  may fail before or after the rename, the process may stop at any time, also between two votes of one block, and it is
  started again with any configuration of keys. The votes emitted with one key are still part of one sequence of
  decisions of \<^verbatim>\<open>decide_vote\<close>, each made on the safety information left by the one before.
\<close>

section \<open>The decisions of one finalizer\<close>

text \<open>
  Besides voting, the safety information changes where a quorum certificate shows a strong vote of this finalizer, where
  it is still unset and gets a default, and in the generation numbers, which are not saved and which no decision reads.
\<close>

inductive fsi_run :: "finalizer_safety_information \<Rightarrow> (block_state \<times> bool) list \<Rightarrow> finalizer_safety_information \<Rightarrow> bool" where
  run_start: "fsi_run i [] i"
| run_vote: "fsi_run i vs j \<Longrightarrow> decide_vote bs j = Some (res, j') \<Longrightarrow> decision res \<noteq> no_vote \<Longrightarrow>
    \<not> sha256_empty (bhs_block_id (bhs bs)) \<Longrightarrow> fsi_run i (vs @ [(bs, decision res = strong_vote)]) j'"
| run_update: "fsi_run i vs j \<Longrightarrow> maybe_update_fsi bs j = Some (u, j') \<Longrightarrow> \<not> sha256_empty (bhs_block_id (bhs bs)) \<Longrightarrow> fsi_run i vs j'"
| run_default: "fsi_run i vs j \<Longrightarrow> block_ref_empty (last_vote j) \<Longrightarrow> block_ref_empty (lock j) \<Longrightarrow> fsi_run i vs j'"
| run_same: "fsi_run i vs j \<Longrightarrow> strip_fsi j' = strip_fsi j \<Longrightarrow> fsi_run i vs j'"

lemma fsi_run_append: "fsi_run j ws k \<Longrightarrow> fsi_run i vs j \<Longrightarrow> fsi_run i (vs @ ws) k"
proof (induction rule: fsi_run.induct)
  case (run_vote j ws k bs res k')
  then show ?case using fsi_run.run_vote[of i "vs @ ws" k] by simp
qed (auto intro: fsi_run.intros)

lemma strip_reads: "block_ref_empty (strip_ref r) = block_ref_empty r" "block_id (strip_ref r) = block_id r" "timestamp (strip_ref r) = timestamp r"
  by (simp_all add: strip_ref_def block_ref_empty_def)

lemma strip_fsi_reads:
  assumes "strip_fsi i = strip_fsi j"
  shows "block_id (last_vote i) = block_id (last_vote j)" and "timestamp (last_vote i) = timestamp (last_vote j)"
    and "block_id (lock i) = block_id (lock j)" and "timestamp (lock i) = timestamp (lock j)"
    and "other_branch_latest_time i = other_branch_latest_time j"
    and "strip_ref (lock i) = strip_ref (lock j)"
proof -
  have "strip_ref (last_vote i) = strip_ref (last_vote j)" "strip_ref (lock i) = strip_ref (lock j)"
    "other_branch_latest_time i = other_branch_latest_time j"
    using assms by (cases i; cases j; simp add: strip_fsi_def)+
  then show "block_id (last_vote i) = block_id (last_vote j)" "timestamp (last_vote i) = timestamp (last_vote j)"
    "block_id (lock i) = block_id (lock j)" "timestamp (lock i) = timestamp (lock j)"
    "other_branch_latest_time i = other_branch_latest_time j" "strip_ref (lock i) = strip_ref (lock j)"
    by (metis strip_reads)+
qed

text \<open>A decision does not depend on the generation numbers.\<close>

lemma decide_vote_generations:
  assumes "strip_fsi i = strip_fsi j" and "decide_vote bs i = Some (res, i')"
  shows "\<exists>j'. decide_vote bs j = Some (res, j') \<and> strip_fsi i' = strip_fsi j'"
proof -
  note r = strip_fsi_reads[OF assms(1)]
  have vs: "vote_strength c t i = vote_strength c t j" for c t unfolding vote_strength_def r ..
  have upd: "\<exists>j''. vote_update bs j = Some (d, j'') \<and> strip_fsi i'' = strip_fsi j''" if u: "vote_update bs i = Some (d, i'')" for d i''
  proof -
    obtain t other lk where t: "latest_qc_block_timestamp (core (bhs bs)) = Some t"
      "vote_strength (core (bhs bs)) t j = Some (d, other)"
      and lk: "(if d = strong_vote \<and> timestamp (lock j) < t then do {
               claim \<leftarrow> latest_qc_claim (core (bhs bs)); get_block_reference (core (bhs bs)) (block_num claim)
             } else Some (lock i)) = Some lk"
      and i'': "i'' = \<lparr>last_vote = bs_make_block_ref bs, lock = lk, other_branch_latest_time = other\<rparr>"
      using u unfolding vote_update_def vs r(4) by (auto simp: bind_eq_Some_conv)
    show ?thesis
    proof (cases "d = strong_vote \<and> timestamp (lock j) < t")
      case True
      with t lk show ?thesis by (simp add: vote_update_def i'' split: bind_splits)
    next
      case False
      with t lk have "vote_update bs j = Some (d, i''\<lparr>lock := lock j\<rparr>)" by (auto simp: vote_update_def i'')
      with False lk show ?thesis by (auto simp: strip_fsi_def i'' r(6))
    qed
  qed
  show ?thesis
  proof (cases "block_ref_empty (last_vote j) \<or> timestamp (last_vote j) < bhs_timestamp (bhs bs)")
    case True
    have chk: "vote_checks c (lock i) = vote_checks c (lock j)" for c unfolding vote_checks_def block_ref_empty_def r ..
    from True assms(2) obtain l sf d where d: "vote_checks (core (bhs bs)) (lock j) = Some (l, sf)"
      "(if l \<or> sf then vote_update bs i else Some (no_vote, i)) = Some (d, i')"
      "res = \<lparr>decision = d, safety_check = sf, liveness_check = l, monotony_check = True\<rparr>"
      unfolding decide_vote_def block_ref_empty_def r chk by (auto simp: bind_eq_Some_conv)
    have "\<exists>j'. (if l \<or> sf then vote_update bs j else Some (no_vote, j)) = Some (d, j') \<and> strip_fsi i' = strip_fsi j'"
      using d(2) upd assms(1) by (auto split: if_splits)
    with True d show ?thesis by (auto simp: decide_vote_def)
  next
    case False
    with assms show ?thesis by (auto simp: decide_vote_def block_ref_empty_def r)
  qed
qed

abbreviation vote_time :: "block_state \<times> bool \<Rightarrow> block_timestamp_type" where
  "vote_time v \<equiv> bhs_timestamp (bhs (fst v))"

lemma maybe_update_time:
  assumes "maybe_update_fsi bs j = Some (u, j')"
  shows "j' = j \<or> timestamp (last_vote j) < timestamp (last_vote j') \<and> block_id (last_vote j') = bhs_block_id (bhs bs)"
  using assms by (auto simp: maybe_update_fsi_def bind_eq_Some_conv bs_make_block_ref_def split: if_splits)

lemma fsi_run_times:
  assumes "fsi_run i vs j"
  shows "sorted_wrt (<) (map vote_time vs) \<and>
    (vs \<noteq> [] \<longrightarrow> \<not> block_ref_empty (last_vote j) \<and> (\<forall>v\<in>set vs. vote_time v \<le> timestamp (last_vote j)))"
  using assms
proof (induction rule: fsi_run.induct)
  case (run_vote i vs j bs res j')
  note v = decide_vote_votes[OF run_vote(2,3)]
  have l: "last_vote j' = bs_make_block_ref bs"
    using v(2) vote_update_spec(2)[OF v(3)] by blast
  have "\<forall>v\<in>set vs. vote_time v < bhs_timestamp (bhs bs)" using run_vote.IH v(1) by fastforce
  then show ?case using run_vote by (force simp: l bs_make_block_ref_def block_ref_empty_def sorted_wrt_append)
next
  case (run_update i vs j bs u j')
  show ?case using maybe_update_time[OF run_update(2)] run_update by (force simp: block_ref_empty_def)
next
  case (run_same i vs j j')
  then show ?case by (simp add: block_ref_empty_def strip_fsi_reads[OF run_same(2)])
qed auto

section \<open>The life of a node\<close>

text \<open>
  \<^verbatim>\<open>process_vote\<close> may be called for a beginning of the votes only, when the process stops in between; a block has a block
  id, and the number of entries is a \<^verbatim>\<open>size_t\<close>.
\<close>

inductive node_run ::
    "(bls_private_key \<Rightarrow> u8 list \<Rightarrow> bls_signature option) \<Rightarrow> (u8 list \<Rightarrow> u32) \<Rightarrow> (u8 list \<Rightarrow> bool) \<Rightarrow>
     (string \<Rightarrow> bls_public_key res) \<Rightarrow> (string \<Rightarrow> bls_private_key res) \<Rightarrow> string \<Rightarrow>
     my_finalizers_t \<Rightarrow> u8 list option \<Rightarrow> (block_state \<times> vote_message) list \<Rightarrow> bool"
  for bls_sign crc valid_g1 to_public to_private path where
  node_start: "node_run bls_sign crc valid_g1 to_public to_private path (new_my_finalizers path) None []"
| node_vote: "node_run bls_sign crc valid_g1 to_public to_private path m d t \<Longrightarrow> \<not> sha256_empty (bhs_block_id (bhs bs)) \<Longrightarrow>
    my_maybe_vote bls_sign crc out bs m d = Some (votes, m', d') \<Longrightarrow>
    node_run bls_sign crc valid_g1 to_public to_private path m' d' (t @ map (\<lambda>v. (bs, fst v)) (take n votes))"
| node_update: "node_run bls_sign crc valid_g1 to_public to_private path m d t \<Longrightarrow> \<not> sha256_empty (bhs_block_id (bhs bs)) \<Longrightarrow>
    my_maybe_update_fsi crc out bs qc m d = Inr (m', d') \<Longrightarrow>
    node_run bls_sign crc valid_g1 to_public to_private path m' d' t"
| node_default: "node_run bls_sign crc valid_g1 to_public to_private path m d t \<Longrightarrow>
    node_run bls_sign crc valid_g1 to_public to_private path (my_set_default_safety_information i m) d t"
| node_restart: "node_run bls_sign crc valid_g1 to_public to_private path m d t \<Longrightarrow>
    node_run bls_sign crc valid_g1 to_public to_private path (new_my_finalizers path) d t"
| node_keys: "node_run bls_sign crc valid_g1 to_public to_private path m d t \<Longrightarrow>
    set_keys valid_g1 crc to_public to_private keys m d = Inr m' \<Longrightarrow>
    length (inactive_safety_info m') + length (my_finalizers m') < 2 ^ 64 \<Longrightarrow>
    node_run bls_sign crc valid_g1 to_public to_private path m' d t"

text \<open>The votes with key \<open>k\<close>, and the safety information of \<open>k\<close> in memory.\<close>

definition votes_of :: "bls_public_key \<Rightarrow> (block_state \<times> vote_message) list \<Rightarrow> (block_state \<times> bool) list" where
  "votes_of k t = map (\<lambda>(bs, v). (bs, vote_strong v)) (filter (\<lambda>(bs, v). finalizer_key v = k) t)"

definition in_memory :: "my_finalizers_t \<Rightarrow> bls_public_key \<Rightarrow> finalizer_safety_information option" where
  "in_memory m k = (case map_of (my_finalizers m) k of Some f \<Rightarrow> Some (fsi f) | None \<Rightarrow> map_of (inactive_safety_info m) k)"

lemma votes_of_append: "votes_of k (s @ t) = votes_of k s @ votes_of k t"
  by (simp add: votes_of_def)

lemma votes_of_take: "subseq (votes_of k (map g (take n vs))) (votes_of k (map g vs))"
  unfolding votes_of_def by (intro subseq_map subseq_filter) (rule prefix_imp_subseq, rule take_is_prefix)

section \<open>What the operations do to one finalizer\<close>

lemma maybe_vote_run:
  assumes "maybe_vote bls_sign k bs dg f = Some (msg, f')" and "\<not> sha256_empty (bhs_block_id (bhs bs))"
  shows "\<exists>ws. fsi_run (fsi f) ws (fsi f') \<and> (\<forall>v. msg = Some v \<longrightarrow> finalizer_key v = k \<and> ws = [(bs, vote_strong v)])"
proof -
  obtain res i where d: "decide_vote bs (fsi f) = Some (res, i)" and f': "fsi f' = i"
    and msg: "msg = map_option (\<lambda>s. \<lparr>vote_block_id = bhs_block_id (bhs bs), vote_strong = (decision res = strong_vote),
        finalizer_key = k, vote_sig = s\<rparr>) (case decision res of no_vote \<Rightarrow> None
         | weak_vote \<Rightarrow> bls_sign (priv_key f) (create_weak_digest dg) | strong_vote \<Rightarrow> bls_sign (priv_key f) (sha256_data dg))"
    using assms(1) by (auto simp: maybe_vote_def bind_eq_Some_conv Let_def)
  show ?thesis
  proof (cases "decision res = no_vote")
    case True
    then show ?thesis using decide_vote_no_vote[OF d] f' msg run_start by auto
  next
    case False
    from run_vote[OF run_start d False assms(2)] show ?thesis
      using msg f' by (intro exI[of _ "[(bs, decision res = strong_vote)]"]) auto
  qed
qed

text \<open>The finalizers \<open>fs\<close> become \<open>fs'\<close>, casting the votes \<open>new\<close>.\<close>

definition follows ::
    "(bls_public_key, finalizer) std_map \<Rightarrow> (bls_public_key, finalizer) std_map \<Rightarrow> (bls_public_key \<Rightarrow> (block_state \<times> bool) list) \<Rightarrow> bool" where
  "follows fs fs' new \<longleftrightarrow> map fst fs' = map fst fs \<and> (\<forall>k. k \<notin> fst ` set fs \<longrightarrow> new k = []) \<and>
     (\<forall>k f. map_of fs k = Some f \<longrightarrow> (\<exists>f' ws. map_of fs' k = Some f' \<and> fsi_run (fsi f) ws (fsi f') \<and> subseq (new k) ws))"

lemma follows_Nil: "follows [] [] (\<lambda>_. [])"
  by (simp add: follows_def)

lemma follows_Cons:
  assumes "follows fs fs' new" and "k \<notin> fst ` set fs" and "fsi_run (fsi f) ws (fsi f')" and "subseq (new' k) ws"
    and "\<And>k'. k' \<noteq> k \<Longrightarrow> new' k' = new k'"
  shows "follows ((k, f) # fs) ((k, f') # fs') new'"
  using assms by (auto simp: follows_def)

lemma vote_loop_follows:
  "vote_loop bls_sign bs fs = Some (votes, fs') \<Longrightarrow> distinct (map fst fs) \<Longrightarrow> \<not> sha256_empty (bhs_block_id (bhs bs)) \<Longrightarrow>
   follows fs fs' (\<lambda>k. votes_of k (map (\<lambda>v. (bs, fst v)) votes))"
proof (induction fs arbitrary: votes fs')
  case Nil
  then show ?case using follows_Nil by (simp add: votes_of_def)
next
  case (Cons e fs)
  obtain k f where e: "e = (k, f)" by fastforce
  define a where "a = in_policy (active_policy (bhs bs)) k"
  define p where "p = Option.bind (pending_policy (bhs bs)) (\<lambda>(_, p). in_policy p k)"
  obtain msg f' vs fs'' where
    mv: "(if a \<noteq> None \<or> p \<noteq> None then maybe_vote bls_sign k bs (strong_digest bs) f else Some (None, f)) = Some (msg, f')"
    and rest: "vote_loop bls_sign bs fs = Some (vs, fs'')"
    and res: "votes = (case msg of Some v \<Rightarrow> (v, a, p) # vs | None \<Rightarrow> vs)" "fs' = (k, f') # fs''"
    using Cons.prems(1) unfolding e vote_loop.simps Let_def a_def[symmetric] p_def[symmetric] by (auto simp: bind_eq_Some_conv)
  obtain ws where ws: "fsi_run (fsi f) ws (fsi f')" "\<forall>v. msg = Some v \<longrightarrow> finalizer_key v = k \<and> ws = [(bs, vote_strong v)]"
  proof (cases "a \<noteq> None \<or> p \<noteq> None")
    case True
    then have "maybe_vote bls_sign k bs (strong_digest bs) f = Some (msg, f')" using mv by simp
    from maybe_vote_run[OF this Cons.prems(3)] show ?thesis using that by blast
  next
    case False
    then show ?thesis using mv that[of "[]"] run_start by auto
  qed
  have IH: "follows fs fs'' (\<lambda>k. votes_of k (map (\<lambda>v. (bs, fst v)) vs))" using Cons.IH[OF rest] Cons.prems by simp
  have k: "k \<notin> fst ` set fs" using Cons.prems(2) by (auto simp: e)
  then have none: "votes_of k (map (\<lambda>v. (bs, fst v)) vs) = []" using IH by (simp add: follows_def)
  show ?case unfolding e res(2)
  proof (rule follows_Cons[OF IH k ws(1)])
    show "subseq (votes_of k (map (\<lambda>v. (bs, fst v)) votes)) ws"
      using none ws(2) by (cases msg) (auto simp: res(1) votes_of_def)
    show "votes_of k' (map (\<lambda>v. (bs, fst v)) votes) = votes_of k' (map (\<lambda>v. (bs, fst v)) vs)" if "k' \<noteq> k" for k'
      using that ws(2) by (cases msg) (auto simp: res(1) votes_of_def)
  qed
qed

lemma update_loop_follows:
  "update_loop bs qc fs = Some (u, fs') \<Longrightarrow> distinct (map fst fs) \<Longrightarrow> \<not> sha256_empty (bhs_block_id (bhs bs)) \<Longrightarrow> follows fs fs' (\<lambda>_. [])"
proof (induction fs arbitrary: u fs')
  case Nil
  then show ?case using follows_Nil by simp
next
  case (Cons e fs)
  obtain k f where e: "e = (k, f)" by fastforce
  obtain voted w i us fs'' where up: "(if voted then maybe_update_fsi bs (fsi f) else Some (False, fsi f)) = Some (w, i)"
    and rest: "update_loop bs qc fs = Some (us, fs'')" and fs': "fs' = (k, f\<lparr>fsi := i\<rparr>) # fs''"
    using Cons.prems(1) by (fastforce simp: e bind_eq_Some_conv)
  have "fsi_run (fsi f) [] i" using up run_update[OF run_start _ Cons.prems(3)] run_start by (auto split: if_splits)
  then show ?case
    using follows_Cons[of fs fs'' "\<lambda>_. []" k f "[]" "f\<lparr>fsi := i\<rparr>" "\<lambda>_. []"] Cons rest by (auto simp: e fs')
qed

lemma default_follows:
  "distinct (map fst (my_finalizers m)) \<Longrightarrow> follows (my_finalizers m) (my_finalizers (my_set_default_safety_information i m)) (\<lambda>_. [])"
proof -
  have "distinct (map fst fs) \<Longrightarrow> follows fs (map (\<lambda>(k, f). (k, if \<not> block_ref_empty (last_vote (fsi f)) \<or> \<not> block_ref_empty (lock (fsi f)) then f
      else f\<lparr>fsi := i\<rparr>)) fs) (\<lambda>_. [])" for fs
  proof (induction fs)
    case (Cons e fs)
    obtain k f where e: "e = (k, f)" by fastforce
    have "fsi_run (fsi f) [] (fsi (if \<not> block_ref_empty (last_vote (fsi f)) \<or> \<not> block_ref_empty (lock (fsi f)) then f else f\<lparr>fsi := i\<rparr>))"
      using run_default[OF run_start] run_start by auto
    then show ?case using Cons unfolding e by (auto intro!: follows_Cons)
  qed (simp add: follows_Nil)
  then show "distinct (map fst (my_finalizers m)) \<Longrightarrow> follows (my_finalizers m) (my_finalizers (my_set_default_safety_information i m)) (\<lambda>_. [])"
    by (simp add: my_set_default_safety_information_def)
qed

section \<open>Invariant\<close>

definition members_ok :: "(u8 list \<Rightarrow> bool) \<Rightarrow> my_finalizers_t \<Rightarrow> bool" where
  "members_ok valid_g1 m \<longleftrightarrow> map_wf (my_finalizers m) \<and> map_wf (inactive_safety_info m) \<and>
     fst ` set (inactive_safety_info m) \<inter> fst ` set (my_finalizers m) = {} \<and>
     (\<forall>k\<in>fst ` set (inactive_safety_info m) \<union> fst ` set (my_finalizers m). point_ok bls_key_size valid_g1 k) \<and>
     length (inactive_safety_info m) + length (my_finalizers m) < 2 ^ 64 \<and> (my_finalizers m = [] \<longrightarrow> inactive_safety_info m = [])"

definition disk_holds :: "(u8 list \<Rightarrow> bool) \<Rightarrow> (u8 list \<Rightarrow> u32) \<Rightarrow> u8 list option \<Rightarrow> fsi_map \<Rightarrow> bool" where
  "disk_holds valid_g1 crc d saved \<longleftrightarrow> map_wf saved \<and> (\<forall>k\<in>fst ` set saved. point_ok bls_key_size valid_g1 k) \<and>
     (case d of None \<Rightarrow> saved = [] | Some file \<Rightarrow> read_safety_file valid_g1 crc file = Inr saved)"

fun emitted_ok :: "finalizer_safety_information option \<Rightarrow> (block_state \<times> bool) list \<Rightarrow> bool" where
  "emitted_ok None vs = (vs = [])"
| "emitted_ok (Some j) vs = (\<exists>i us. fsi_run i us j \<and> subseq vs us)"

definition saved_behind :: "fsi_map \<Rightarrow> my_finalizers_t \<Rightarrow> bool" where
  "saved_behind saved m \<longleftrightarrow> (\<forall>k j. map_of saved k = Some j \<longrightarrow> (\<exists>j' ws. in_memory m k = Some j' \<and> fsi_run j ws j'))"

definition life_inv :: "(u8 list \<Rightarrow> bool) \<Rightarrow> (u8 list \<Rightarrow> u32) \<Rightarrow> my_finalizers_t \<Rightarrow> u8 list option \<Rightarrow> (block_state \<times> vote_message) list \<Rightarrow> bool" where
  "life_inv valid_g1 crc m d t \<longleftrightarrow> members_ok valid_g1 m \<and> (\<exists>saved. disk_holds valid_g1 crc d saved \<and>
     (\<forall>k. emitted_ok (map_of saved k) (votes_of k t)) \<and> (my_finalizers m \<noteq> [] \<longrightarrow> saved_behind saved m))"

lemma follows_keys:
  assumes "follows fs fs' new"
  shows "fst ` set fs' = fst ` set fs" and "length fs' = length fs"
proof -
  have eq: "map fst fs' = map fst fs" using assms by (simp add: follows_def)
  show "fst ` set fs' = fst ` set fs" using arg_cong[OF eq, of set] by simp
  show "length fs' = length fs" using arg_cong[OF eq, of length] by simp
qed

lemma follows_members:
  assumes "follows (my_finalizers m) (my_finalizers m') new" and "inactive_safety_info m' = inactive_safety_info m" and "members_ok valid_g1 m"
  shows "members_ok valid_g1 m'"
  using assms(3) unfolding members_ok_def map_wf_def assms(2) follows_keys[OF assms(1)]
  using assms(1) by (auto simp: follows_def)

lemma follows_memory:
  assumes "follows (my_finalizers m) (my_finalizers m') new" and "inactive_safety_info m' = inactive_safety_info m" and "members_ok valid_g1 m"
  shows "in_memory m k = Some j \<Longrightarrow> \<exists>j' ws. in_memory m' k = Some j' \<and> fsi_run j ws j' \<and> subseq (new k) ws"
    and "in_memory m k = None \<Longrightarrow> in_memory m' k = None \<and> new k = []"
proof -
  have keys: "map_of (my_finalizers m') k = None \<longleftrightarrow> map_of (my_finalizers m) k = None"
    unfolding map_of_eq_None_iff follows_keys(1)[OF assms(1)] ..
  have none: "map_of (my_finalizers m) k = None \<Longrightarrow> new k = []" using assms(1) by (simp add: follows_def map_of_eq_None_iff)
  show "in_memory m k = Some j \<Longrightarrow> \<exists>j' ws. in_memory m' k = Some j' \<and> fsi_run j ws j' \<and> subseq (new k) ws"
  proof (cases "map_of (my_finalizers m) k")
    case None
    then show "in_memory m k = Some j \<Longrightarrow> ?thesis" using keys none assms(2) run_start by (auto simp: in_memory_def)
  next
    case (Some f)
    then obtain f' ws where "map_of (my_finalizers m') k = Some f'" "fsi_run (fsi f) ws (fsi f')" "subseq (new k) ws"
      using assms(1) unfolding follows_def by blast
    then show "in_memory m k = Some j \<Longrightarrow> ?thesis" using Some by (auto simp: in_memory_def)
  qed
  show "in_memory m k = None \<Longrightarrow> in_memory m' k = None \<and> new k = []"
    using keys none assms(2) by (auto simp: in_memory_def split: option.splits)
qed

lemma in_memory_keys:
  assumes "in_memory m k \<noteq> None"
  shows "k \<in> fst ` set (inactive_safety_info m) \<union> fst ` set (my_finalizers m)"
proof -
  have "map_of (my_finalizers m) k \<noteq> None \<or> map_of (inactive_safety_info m) k \<noteq> None"
    using assms by (auto simp: in_memory_def split: option.splits)
  then show ?thesis unfolding map_of_eq_None_iff by blast
qed

text \<open>A change of the members that is not written and emits nothing.\<close>

lemma inv_unsaved:
  assumes "life_inv valid_g1 crc m d t" and "follows (my_finalizers m) (my_finalizers m') new"
    and "inactive_safety_info m' = inactive_safety_info m"
  shows "life_inv valid_g1 crc m' d t"
proof -
  obtain saved where inv: "members_ok valid_g1 m" "disk_holds valid_g1 crc d saved" "\<forall>k. emitted_ok (map_of saved k) (votes_of k t)"
      "my_finalizers m \<noteq> [] \<longrightarrow> saved_behind saved m"
    using assms(1) by (auto simp: life_inv_def)
  have "saved_behind saved m'" if "my_finalizers m' \<noteq> []"
    unfolding saved_behind_def
  proof (intro allI impI)
    fix k j assume "map_of saved k = Some j"
    moreover have "my_finalizers m \<noteq> []" using that assms(2) by (auto simp: follows_def)
    ultimately obtain j1 us where "in_memory m k = Some j1" "fsi_run j us j1" using inv(4) unfolding saved_behind_def by blast
    then show "\<exists>j' ws. in_memory m' k = Some j' \<and> fsi_run j ws j'"
      using follows_memory(1)[OF assms(2,3) inv(1)] fsi_run_append by blast
  qed
  then show ?thesis using inv follows_members[OF assms(2,3) inv(1)] by (auto simp: life_inv_def)
qed

text \<open>A change that is written; then the votes of that change may be emitted.\<close>

lemma inv_saved:
  assumes "life_inv valid_g1 crc m d t" and "follows (my_finalizers m) (my_finalizers m') new"
    and "inactive_safety_info m' = inactive_safety_info m" and "my_finalizers m \<noteq> []"
    and content: "safety_file_content crc (inactive_safety_info m') (my_finalizers m') = Inr file"
    and emitted: "\<And>k. subseq (votes_of k e) (new k)"
  shows "life_inv valid_g1 crc m' (Some file) (t @ e)"
proof -
  obtain saved where inv: "members_ok valid_g1 m" "disk_holds valid_g1 crc d saved" "\<forall>k. emitted_ok (map_of saved k) (votes_of k t)"
      "saved_behind saved m"
    using assms(1,4) by (auto simp: life_inv_def)
  note mok = follows_members[OF assms(2,3) inv(1)]
  define saved' where "saved' = reloaded (inactive_safety_info m') (my_finalizers m')"
  have wf': "map_wf saved'" and saved': "map_of saved' k = map_option strip_fsi (in_memory m' k)" for k
    using reloaded_spec[of "inactive_safety_info m'" "my_finalizers m'"] mok by (simp_all add: saved'_def members_ok_def in_memory_def)
  have kok: "\<And>k. k \<in> fst ` set (inactive_safety_info m') \<union> fst ` set (my_finalizers m') \<Longrightarrow> point_ok bls_key_size valid_g1 k"
    using mok unfolding members_ok_def by blast
  have keys: "\<forall>x\<in>set (saved_entries (inactive_safety_info m') (my_finalizers m')). point_ok bls_key_size valid_g1 (fst x)"
  proof
    fix x assume "x \<in> set (saved_entries (inactive_safety_info m') (my_finalizers m'))"
    then have "fst x \<in> fst ` set (saved_entries (inactive_safety_info m') (my_finalizers m'))" by (rule imageI)
    then show "point_ok bls_key_size valid_g1 (fst x)" unfolding saved_keys by (rule kok)
  qed
  have "point_ok bls_key_size valid_g1 k" if "k \<in> fst ` set saved'" for k
  proof -
    have "in_memory m' k \<noteq> None" using that saved'[of k] map_of_eq_None_iff[of saved' k] by auto
    then have "k \<in> fst ` set (inactive_safety_info m') \<union> fst ` set (my_finalizers m')" by (rule in_memory_keys)
    then show ?thesis by (rule kok)
  qed
  then have disk: "disk_holds valid_g1 crc (Some file) saved'"
    using read_saved_file[OF content keys] mok wf' by (simp add: disk_holds_def saved'_def members_ok_def)
  have same: "strip_fsi (strip_fsi j) = strip_fsi j" for j by (simp add: strip_fsi_def strip_ref_def)
  have "emitted_ok (map_of saved' k) (votes_of k (t @ e))" for k
  proof (cases "in_memory m k")
    case None
    then have n: "in_memory m' k = None" "new k = []" using follows_memory(2)[OF assms(2,3) inv(1)] by simp_all
    have "map_of saved k = None"
    proof (rule ccontr)
      assume "map_of saved k \<noteq> None"
      then obtain j where "map_of saved k = Some j" by blast
      then have "\<exists>j'. in_memory m k = Some j'" using inv(4) unfolding saved_behind_def by blast
      with None show False by simp
    qed
    then have "votes_of k t = []" using inv(3)[rule_format, of k] by simp
    then show ?thesis using n emitted[of k] saved'[of k] by (simp add: votes_of_append)
  next
    case (Some j)
    then obtain j' ws where j': "in_memory m' k = Some j'" "fsi_run j ws j'" "subseq (new k) ws"
      using follows_memory(1)[OF assms(2,3) inv(1)] by blast
    have sub: "subseq (votes_of k e) ws" using emitted j'(3) by (rule subseq_order.trans)
    show ?thesis
    proof (cases "map_of saved k")
      case None
      then have "votes_of k t = []" using inv(3)[rule_format, of k] by simp
      then show ?thesis using j' sub run_same[OF j'(2)] same saved'[of k] by (auto simp: votes_of_append)
    next
      case (Some jd)
      with inv(4) \<open>in_memory m k = Some j\<close> obtain us where "fsi_run jd us j" unfolding saved_behind_def by fastforce
      moreover obtain i vs where "fsi_run i vs jd" "subseq (votes_of k t) vs" using inv(3)[rule_format, of k] Some by auto
      ultimately have run: "fsi_run i (vs @ us) j" and pre: "subseq (votes_of k t @ []) (vs @ us)"
        by (blast intro: fsi_run_append, intro list_emb_append_mono list_emb_Nil)
      have "fsi_run i ((vs @ us) @ ws) (strip_fsi j')" by (rule run_same[OF fsi_run_append[OF j'(2) run] same])
      moreover have "subseq (votes_of k (t @ e)) ((vs @ us) @ ws)"
        unfolding votes_of_append using pre sub by (simp only: append_Nil2 list_emb_append_mono)
      ultimately show ?thesis using saved'[of k] j'(1) by auto
    qed
  qed
  moreover have "fsi_run (strip_fsi j) [] j" for j using run_same[OF run_start, of j "strip_fsi j"] same by simp
  then have "saved_behind saved' m'" unfolding saved_behind_def saved' by auto
  ultimately show ?thesis using mok disk by (auto simp: life_inv_def)
qed

section \<open>Every step keeps the invariant\<close>

lemma save_cases:
  assumes "save_finalizer_safety_info crc out m d = (ok, m', d')"
  shows "my_finalizers m' = my_finalizers m" and "inactive_safety_info m' = inactive_safety_info m"
    and "\<not> ok \<and> d' = d \<or> (\<exists>file. safety_file_content crc (inactive_safety_info m) (my_finalizers m) = Inr file \<and> d' = Some file)"
  using assms by (auto simp: save_finalizer_safety_info_def replace_file_def split: if_splits prod.splits sum.splits replace_outcome.splits)

lemma life_inv_vote:
  assumes "life_inv valid_g1 crc m d t" and "\<not> sha256_empty (bhs_block_id (bhs bs))"
    and "my_maybe_vote bls_sign crc out bs m d = Some (votes, m', d')"
  shows "life_inv valid_g1 crc m' d' (t @ map (\<lambda>v. (bs, fst v)) (take n votes))"
proof (cases "my_finalizers m = [] \<or> safety_write_failed m")
  case True
  then show ?thesis using assms by (auto simp: my_maybe_vote_def)
next
  case False
  then obtain vs fs where loop: "vote_loop bls_sign bs (my_finalizers m) = Some (vs, fs)"
    and res: "(votes, m', d') = (if vs \<noteq> [] then
        let (ok, m'', disk') = save_finalizer_safety_info crc out (m\<lparr>my_finalizers := fs, has_voted := True\<rparr>) d in (if ok then vs else [], m'', disk')
        else ([], m\<lparr>my_finalizers := fs\<rparr>, d))"
    using assms(3) by (auto simp: my_maybe_vote_def bind_eq_Some_conv Let_def)
  have "map_wf (my_finalizers m)" using assms(1) by (simp add: life_inv_def members_ok_def)
  note fol = vote_loop_follows[OF loop map_wf_distinct[OF this] assms(2)]
  show ?thesis
  proof (cases "vs = []")
    case True
    then show ?thesis using res inv_unsaved[OF assms(1), of "m\<lparr>my_finalizers := fs\<rparr>"] fol by simp
  next
    case vs: False
    obtain ok where save: "save_finalizer_safety_info crc out (m\<lparr>my_finalizers := fs, has_voted := True\<rparr>) d = (ok, m', d')"
      and votes: "votes = (if ok then vs else [])" using res vs by (auto split: prod.splits)
    note sc = save_cases[OF save]
    have fol': "follows (my_finalizers m) (my_finalizers m') (\<lambda>k. votes_of k (map (\<lambda>v. (bs, fst v)) vs))"
      and ina: "inactive_safety_info m' = inactive_safety_info m" using fol sc(1,2) by simp_all
    from sc(3) show ?thesis
    proof
      assume "\<not> ok \<and> d' = d"
      then show ?thesis using inv_unsaved[OF assms(1) fol' ina] votes by simp
    next
      assume "\<exists>file. safety_file_content crc (inactive_safety_info (m\<lparr>my_finalizers := fs, has_voted := True\<rparr>))
          (my_finalizers (m\<lparr>my_finalizers := fs, has_voted := True\<rparr>)) = Inr file \<and> d' = Some file"
      then obtain content where c: "safety_file_content crc (inactive_safety_info m') (my_finalizers m') = Inr content" "d' = Some content"
        using sc(1,2) by auto
      have "subseq (votes_of k (map (\<lambda>v. (bs, fst v)) (take n votes))) (votes_of k (map (\<lambda>v. (bs, fst v)) vs))" for k
        using votes_of_take[of k "\<lambda>v. (bs, fst v)" n vs] by (simp add: votes votes_of_def)
      then show ?thesis using inv_saved[OF assms(1) fol' ina _ c(1)] False c(2) by simp
    qed
  qed
qed

lemma life_inv_update:
  assumes "life_inv valid_g1 crc m d t" and "\<not> sha256_empty (bhs_block_id (bhs bs))"
    and "my_maybe_update_fsi crc out bs qc m d = Inr (m', d')"
  shows "life_inv valid_g1 crc m' d' t"
proof (cases "my_finalizers m = [] \<or> has_voted m")
  case True
  then show ?thesis using assms by (auto simp: my_maybe_update_fsi_def)
next
  case False
  then obtain u fs where loop: "update_loop bs qc (my_finalizers m) = Some (u, fs)"
    and res: "(m', d') = (if u then snd (save_finalizer_safety_info crc out (m\<lparr>my_finalizers := fs\<rparr>) d) else (m\<lparr>my_finalizers := fs\<rparr>, d))"
    using assms(3) by (auto simp: my_maybe_update_fsi_def bind_res_Inr_iff asserted_Inr_iff Let_def)
  have "map_wf (my_finalizers m)" using assms(1) by (simp add: life_inv_def members_ok_def)
  note fol = update_loop_follows[OF loop map_wf_distinct[OF this] assms(2)]
  show ?thesis
  proof (cases u)
    case u: True
    obtain ok where save: "save_finalizer_safety_info crc out (m\<lparr>my_finalizers := fs\<rparr>) d = (ok, m', d')"
      using res u by (cases "save_finalizer_safety_info crc out (m\<lparr>my_finalizers := fs\<rparr>) d") auto
    note sc = save_cases[OF save]
    have fol': "follows (my_finalizers m) (my_finalizers m') (\<lambda>_. [])"
      and ina: "inactive_safety_info m' = inactive_safety_info m" using fol sc(1,2) by simp_all
    from sc(3) show ?thesis
      using inv_unsaved[OF assms(1) fol' ina] inv_saved[OF assms(1) fol' ina _ , of _ "[]"] False sc(1,2)
      by (auto simp: votes_of_def)
  next
    case u: False
    then show ?thesis using res inv_unsaved[OF assms(1), of "m\<lparr>my_finalizers := fs\<rparr>"] fol by simp
  qed
qed

text \<open>\<^verbatim>\<open>set_keys\<close>: every loaded entry is either configured again or kept as inactive.\<close>

definition keys_valid :: "(string \<Rightarrow> bls_public_key res) \<Rightarrow> (u8 list \<Rightarrow> bool) \<Rightarrow> bool" where
  "keys_valid to_public valid_g1 \<longleftrightarrow> (\<forall>s k. to_public s = Inr k \<longrightarrow> point_ok bls_key_size valid_g1 k)"

lemma configure_loop_spec:
  "configure_loop to_public to_private info dflt keys fins = Inr fins' \<Longrightarrow> map_wf fins \<Longrightarrow>
   map_wf fins' \<and> (\<forall>k. map_of fins' k = map_of fins k \<and> (\<forall>pub\<in>fst ` set keys. to_public pub \<noteq> Inr k) \<or>
     (\<exists>f. map_of fins' k = Some f \<and> fsi f = (case map_of info k of Some i \<Rightarrow> i | None \<Rightarrow> dflt)) \<and> (\<exists>pub\<in>fst ` set keys. to_public pub = Inr k))"
proof (induction keys arbitrary: fins)
  case (Cons key keys)
  obtain pub priv where key: "key = (pub, priv)" by fastforce
  obtain k0 p where k0: "to_public pub = Inr k0" and loop: "configure_loop to_public to_private info dflt keys
      (map_put k0 \<lparr>priv_key = p, fsi = (case map_of info k0 of Some i \<Rightarrow> i | None \<Rightarrow> dflt)\<rparr> fins) = Inr fins'"
    using Cons.prems(1) by (auto simp: key bind_res_Inr_iff)
  note put = map_put_spec[OF Cons.prems(2), of k0]
  note IH = Cons.IH[OF loop put[THEN conjunct1]]
  show ?case
  proof (intro conjI allI)
    fix k
    show "map_of fins' k = map_of fins k \<and> (\<forall>pub\<in>fst ` set (key # keys). to_public pub \<noteq> Inr k) \<or>
      (\<exists>f. map_of fins' k = Some f \<and> fsi f = (case map_of info k of Some i \<Rightarrow> i | None \<Rightarrow> dflt)) \<and> (\<exists>pub\<in>fst ` set (key # keys). to_public pub = Inr k)"
      using IH[THEN conjunct2, rule_format, of k] k0 by (cases "k = k0") (auto simp: key put)
  qed (use IH in simp)
qed simp

lemma erase_keys_loop_spec:
  "erase_keys_loop to_public keys info = Inr info' \<Longrightarrow> map_wf info \<Longrightarrow>
   map_wf info' \<and> (\<forall>k. map_of info' k = (if \<exists>pub\<in>fst ` set keys. to_public pub = Inr k then None else map_of info k))"
proof (induction keys arbitrary: info)
  case (Cons key keys)
  obtain pub priv where key: "key = (pub, priv)" by fastforce
  obtain k0 where k0: "to_public pub = Inr k0" and loop: "erase_keys_loop to_public keys (map_erase k0 info) = Inr info'"
    using Cons.prems(1) by (auto simp: key bind_res_Inr_iff)
  note er = map_erase_spec[OF Cons.prems(2), of k0]
  note IH = Cons.IH[OF loop er[THEN conjunct1]]
  show ?case
  proof (intro conjI allI)
    fix k
    show "map_of info' k = (if \<exists>pub\<in>fst ` set (key # keys). to_public pub = Inr k then None else map_of info k)"
      using IH[THEN conjunct2, rule_format, of k] k0 by (cases "k = k0") (auto simp: key er)
  qed (use IH in simp)
qed simp

lemma life_inv_keys:
  assumes "life_inv valid_g1 crc m d t" and "keys_valid to_public valid_g1"
    and "set_keys valid_g1 crc to_public to_private keys m d = Inr m'"
    and "length (inactive_safety_info m') + length (my_finalizers m') < 2 ^ 64"
  shows "life_inv valid_g1 crc m' d t"
proof (cases "keys = []")
  case True
  then show ?thesis using assms by (simp add: set_keys_def)
next
  case False
  obtain saved where inv: "disk_holds valid_g1 crc d saved" "\<forall>k. emitted_ok (map_of saved k) (votes_of k t)"
    using assms(1) by (auto simp: life_inv_def)
  have emp: "my_finalizers m = []" using assms(3) False by (auto simp: set_keys_def res_simps assert_opt_def split: if_splits)
  have load: "load_finalizer_safety_info valid_g1 crc (persist_file_path m) d = Inr info \<Longrightarrow> info = saved" for info
    using inv(1) by (auto simp: load_finalizer_safety_info_def disk_holds_def res_simps split: option.splits)
  obtain fins inactive where conf: "configure_loop to_public to_private saved (default_fsi m) keys [] = Inr fins"
    and er: "erase_keys_loop to_public keys saved = Inr inactive"
    and m': "my_finalizers m' = fins" "inactive_safety_info m' = inactive"
    using assms(3) False emp load by (auto simp: set_keys_def res_simps)
  have wf: "map_wf saved" using inv(1) by (simp add: disk_holds_def)
  note cs = configure_loop_spec[OF conf] and es = erase_keys_loop_spec[OF er wf]
  have cases: "map_of inactive k = map_of saved k \<and> map_of fins k = None \<or> map_of inactive k = None \<and>
      (\<exists>f. map_of fins k = Some f \<and> fsi f = (case map_of saved k of Some i \<Rightarrow> i | None \<Rightarrow> default_fsi m)) \<and> point_ok bls_key_size valid_g1 k" for k
    using cs[THEN conjunct2, rule_format, of k] es[THEN conjunct2, rule_format, of k] assms(2) by (auto simp: keys_valid_def)
  have ne: "fins \<noteq> []"
  proof -
    obtain pub priv keys' where keys: "keys = (pub, priv) # keys'" using False by (cases keys) auto
    have "\<exists>k. to_public pub = Inr k" using conf by (auto simp: keys bind_res_Inr_iff)
    then obtain k where k: "to_public pub = Inr k" by blast
    then have "map_of fins k \<noteq> None" using cs[THEN conjunct2, rule_format, of k] by (auto simp: keys)
    then show ?thesis by auto
  qed
  have behind: "saved_behind saved m'"
    unfolding saved_behind_def
  proof (intro allI impI)
    fix k j assume "map_of saved k = Some j"
    then have "in_memory m' k = Some j" using cases[of k] by (auto simp: in_memory_def m')
    then show "\<exists>j' ws. in_memory m' k = Some j' \<and> fsi_run j ws j'" using run_start by blast
  qed
  have disj: "fst ` set inactive \<inter> fst ` set fins = {}"
  proof (rule equals0I)
    fix k assume "k \<in> fst ` set inactive \<inter> fst ` set fins"
    then show False using cases[of k] map_of_eq_None_iff[of inactive k] map_of_eq_None_iff[of fins k] by auto
  qed
  have pok: "point_ok bls_key_size valid_g1 k" if "k \<in> fst ` set inactive \<union> fst ` set fins" for k
    using that cases[of k] map_of_eq_None_iff[of inactive k] map_of_eq_None_iff[of fins k] map_of_eq_None_iff[of saved k] inv(1)
    by (auto simp: disk_holds_def)
  show ?thesis
    using assms(4) inv behind cs es disj pok ne by (auto simp: life_inv_def members_ok_def m')
qed

lemma node_run_inv:
  assumes "node_run bls_sign crc valid_g1 to_public to_private path m d t" and "keys_valid to_public valid_g1"
  shows "life_inv valid_g1 crc m d t"
  using assms(1)
proof (induction rule: node_run.induct)
  case node_start
  show ?case
    unfolding life_inv_def
    by (intro conjI exI[of _ "[]"]) (simp_all add: members_ok_def new_my_finalizers_def disk_holds_def votes_of_def)
next
  case (node_vote m d t bs out votes m' d' n)
  show ?case by (rule life_inv_vote[OF node_vote.IH node_vote.hyps(2,3)])
next
  case (node_update m d t bs out qc m' d')
  show ?case by (rule life_inv_update[OF node_update.IH node_update.hyps(2,3)])
next
  case (node_default m d t i)
  have "follows (my_finalizers m) (my_finalizers (my_set_default_safety_information i m)) (\<lambda>_. [])"
    using node_default.IH by (intro default_follows map_wf_distinct) (simp add: life_inv_def members_ok_def)
  from inv_unsaved[OF node_default.IH this] show ?case by (simp add: my_set_default_safety_information_def)
next
  case (node_restart m d t)
  then obtain saved where "disk_holds valid_g1 crc d saved" "\<forall>k. emitted_ok (map_of saved k) (votes_of k t)"
    unfolding life_inv_def by blast
  then show ?case
    unfolding life_inv_def by (intro conjI exI[of _ saved]) (simp_all add: members_ok_def new_my_finalizers_def)
next
  case (node_keys m d t keys m')
  from life_inv_keys[OF node_keys.IH assms(2) node_keys.hyps(2,3)] show ?case .
qed

lemma emitted_ok_run: "emitted_ok x vs \<Longrightarrow> \<exists>i us j. fsi_run i us j \<and> subseq vs us"
  using run_start by (cases x) (auto intro: exI[of _ "[]"])

lemma sorted_wrt_subseq_map: "subseq xs ys \<Longrightarrow> sorted_wrt (<) (map f ys) \<Longrightarrow> sorted_wrt (<) (map f xs)"
  by (induction rule: list_emb.induct) (auto dest: list_emb_set)

section \<open>Properties\<close>

text \<open>
  C3. Votes are safe across crashes. In every life of a node, with any order of blocks, certificates and defaults, with writes
  of the safety file that fail before or after the rename, with crashes at any point and restarts with any keys, the votes
  emitted with one key are a part of one sequence of decisions of \<^verbatim>\<open>decide_vote\<close> in which each decision starts from the safety
  information that the previous one left; in particular they are on blocks with strictly increasing timestamps.
\<close>

theorem crash_safe_votes:
  assumes "node_run bls_sign crc valid_g1 to_public to_private path m d t" and "keys_valid to_public valid_g1"
  shows "(\<exists>i vs j. fsi_run i vs j \<and> subseq (votes_of k t) vs) \<and> sorted_wrt (<) (map vote_time (votes_of k t))"
proof -
  obtain saved where "emitted_ok (map_of saved k) (votes_of k t)"
    using node_run_inv[OF assms] by (auto simp: life_inv_def)
  then obtain i vs j where run: "fsi_run i vs j" "subseq (votes_of k t) vs" using emitted_ok_run by blast
  then have "sorted_wrt (<) (map vote_time (votes_of k t))" using fsi_run_times sorted_wrt_subseq_map by blast
  with run show ?thesis by blast
qed

text \<open>One key, a vote on the second block of the example chain that is written and emitted, and a restart.\<close>

definition ex_key :: bls_public_key where "ex_key = replicate 96 1"

definition ex_node_bs :: block_state where
  "ex_node_bs = ex_bs (ex_s2\<lparr>active_policy := \<lparr>generation = 1, threshold = 1, finalizers = [\<lparr>description = [], weight = 1, public_key = ex_key\<rparr>]\<rparr>\<rparr>) None"

definition ex_node :: "finalizer_safety_information \<Rightarrow> bool \<Rightarrow> my_finalizers_t" where
  "ex_node i hv = \<lparr>persist_file_path = ''f'', has_voted = hv, my_finalizers = [(ex_key, \<lparr>priv_key = [], fsi = i\<rparr>)],
     inactive_safety_info = [], default_fsi = ex_fsi 1 empty_block_ref, safety_write_failed = False\<rparr>"

abbreviation "ex_life \<equiv> node_run (\<lambda>_ _. Some []) (\<lambda>_. 0) (\<lambda>_. True) (\<lambda>_. Inr ex_key) (\<lambda>_. Inr []) ''f''"

definition ex_vote :: vote_message where
  "ex_vote = \<lparr>vote_block_id = calculate_id sha256_zero 2, vote_strong = True, finalizer_key = ex_key, vote_sig = []\<rparr>"

lemma ex_node_decides:
  "\<exists>res. decide_vote ex_node_bs (ex_fsi 1 empty_block_ref) = Some (res, ex_fsi 1 (ex_vref 2)) \<and> decision res = strong_vote"
  by (simp add: ex_node_bs_def ex_s2_def ex_vote_eval ex_id_not_empty)

lemma ex_life_vote: "\<exists>file. ex_life (ex_node (ex_fsi 1 (ex_vref 2)) True) (Some file) [(ex_node_bs, ex_vote)]"
proof -
  let ?m = "new_my_finalizers ''f''"
  have dflt: "ex_life (my_set_default_safety_information (ex_fsi 1 empty_block_ref) ?m) None []" by (rule node_default) (rule node_start)
  have life: "ex_life (ex_node (ex_fsi 1 empty_block_ref) False) None []"
    by (rule node_keys[OF dflt, of "[(''p'', ''q'')]"])
      (simp_all add: set_keys_def my_set_default_safety_information_def new_my_finalizers_def load_finalizer_safety_info_def ex_node_def
        map_erase_def)
  obtain res where dec: "decide_vote ex_node_bs (ex_fsi 1 empty_block_ref) = Some (res, ex_fsi 1 (ex_vref 2))" "decision res = strong_vote"
    using ex_node_decides by blast
  obtain fl where content: "safety_file_content (\<lambda>_. 0) [] [(ex_key, \<lparr>priv_key = [], fsi = ex_fsi 1 (ex_vref 2)\<rparr>)] = Inr fl"
    using safety_file_total by blast
  have pol: "pending_policy (bhs ex_node_bs) = None" "finalizers (active_policy (bhs ex_node_bs)) = [\<lparr>description = [], weight = 1, public_key = ex_key\<rparr>]"
    "bhs_block_id (bhs ex_node_bs) = calculate_id sha256_zero 2"
    by (simp_all add: ex_node_bs_def ex_s2_def ex_state_def)
  have voted: "my_maybe_vote (\<lambda>_ _. Some []) (\<lambda>_. 0) replace_done ex_node_bs (ex_node (ex_fsi 1 empty_block_ref) False) None =
      Some ([(ex_vote, Some \<lparr>description = [], weight = 1, public_key = ex_key\<rparr>, None)], ex_node (ex_fsi 1 (ex_vref 2)) True, Some fl)"
    by (simp add: my_maybe_vote_def ex_node_def in_policy_def pol maybe_vote_def dec ex_vote_def save_finalizer_safety_info_def
        replace_file_def content)
  have "\<not> sha256_empty (bhs_block_id (bhs ex_node_bs))" using ex_id_not_empty by (simp add: pol)
  from node_vote[OF life this voted, of 1] show ?thesis by auto
qed

theorem crash_safe_votes_witness:
  "\<exists>m d t. ex_life m d t \<and> votes_of ex_key t = [(ex_node_bs, True)] \<and>
     (\<exists>i vs j. fsi_run i vs j \<and> subseq (votes_of ex_key t) vs)"
proof -
  obtain fl where "ex_life (ex_node (ex_fsi 1 (ex_vref 2)) True) (Some fl) [(ex_node_bs, ex_vote)]" using ex_life_vote by blast
  then have life: "ex_life (new_my_finalizers ''f'') (Some fl) [(ex_node_bs, ex_vote)]" by (rule node_restart)
  have "keys_valid (\<lambda>_. Inr ex_key) (\<lambda>_. True)" by (simp add: keys_valid_def point_ok_def ex_key_def bls_key_size_def)
  from crash_safe_votes[OF life this, of ex_key] have "\<exists>i vs j. fsi_run i vs j \<and> subseq (votes_of ex_key [(ex_node_bs, ex_vote)]) vs" ..
  moreover have "votes_of ex_key [(ex_node_bs, ex_vote)] = [(ex_node_bs, True)]" by (simp add: votes_of_def ex_vote_def)
  ultimately show ?thesis using life by blast
qed

end
