(* ===== verification/Dual_Qc.thy ===== *)
theory Dual_Qc
  imports Qc_Aggregation
begin

text \<open>
  Certificates over an active and a pending finalizer policy (finality/qc.cpp, \<^verbatim>\<open>aggregating_qc_t\<close>): a finalizer of both policies
  votes once for both, so the two aggregations record it alike; which of the certificates that \<^verbatim>\<open>get_best_qc\<close> assembles pass
  \<^verbatim>\<open>verify_dual_finalizers_votes\<close>; and what strong votes that reach both thresholds give.
\<close>

section \<open>The votes of dual finalizers\<close>

text \<open>The two aggregations agree on every finalizer of both policies.\<close>

definition dual_alike :: "finalizer_policy \<Rightarrow> finalizer_policy \<Rightarrow> aggregating_qc_sig_t \<Rightarrow> aggregating_qc_sig_t \<Rightarrow> bool" where
  "dual_alike p q a b \<longleftrightarrow>
     (\<forall>key i j. find_finalizer key (finalizers p) = Some i \<longrightarrow> find_finalizer key (finalizers q) = Some j \<longrightarrow>
        (i \<in> agg_strong a \<longleftrightarrow> j \<in> agg_strong b) \<and> (i \<in> agg_weak a \<longleftrightarrow> j \<in> agg_weak b))"

lemma find_finalizer_inj:
  "find_finalizer k fs = Some i \<Longrightarrow> find_finalizer l fs = Some i \<Longrightarrow> k = l"
  using find_finalizer_Some(2)[of k fs i] find_finalizer_Some(2)[of l fs i] by simp

text \<open>The effect of one vote on the aggregation of one policy.\<close>

lemma add_policy_vote_cases:
  assumes ok: "agg_ok p a" and pol: "policy_ok p" and step: "add_policy_vote lib v d p verified a = Some (r, auth, ver, a')"
  obtains (unknown) "find_finalizer (finalizer_key v) (finalizers p) = None" "r = unknown_public_key" "a' = a" "ver = verified"
  | (refused) i where "find_finalizer (finalizer_key v) (finalizers p) = Some i" "r = duplicate \<or> r = invalid_signature" "a' = a"
      "r = duplicate \<longleftrightarrow> i \<in> agg_strong a \<union> agg_weak a" "r = invalid_signature \<Longrightarrow> \<not> verified"
  | (counted) i where "find_finalizer (finalizer_key v) (finalizers p) = Some i" "r = success" "ver"
      "i \<notin> agg_strong a \<union> agg_weak a"
      "agg_strong a' = (if vote_strong v then insert i (agg_strong a) else agg_strong a)"
      "agg_weak a' = (if vote_strong v then agg_weak a else insert i (agg_weak a))" "received_qc_sig a' = received_qc_sig a"
proof (cases "find_finalizer (finalizer_key v) (finalizers p)")
  case None
  then show thesis using step by (intro unknown) (auto simp: add_policy_vote_def)
next
  case (Some i)
  have i: "i < length (finalizers p)" by (rule find_finalizer_Some[OF Some])
  have total: "total_weight (finalizers p) < 2 ^ 64" using pol by (simp add: policy_ok_def)
  note voted = has_voted_sig_iff[OF ok i]
  show thesis
  proof (cases "i \<in> agg_strong a \<union> agg_weak a \<or> \<not> verified \<and> \<not> bls_verify lib (finalizer_key v) d (vote_sig v)")
    case True
    then show thesis using step Some voted by (intro refused[OF Some]) (auto simp: add_policy_vote_def Let_def split: if_splits)
  next
    case False
    from add_vote_ok[OF ok total i, of lib "vote_strong v" "vote_sig v"] False obtain a1 where
      a1: "add_vote lib (vote_strong v) i (vote_sig v) (weight (finalizers p ! i)) a = Some (success, a1)"
        "received_qc_sig a1 = received_qc_sig a"
        "agg_strong a1 = (if vote_strong v then insert i (agg_strong a) else agg_strong a)"
        "agg_weak a1 = (if vote_strong v then agg_weak a else insert i (agg_weak a))" by (auto split: if_splits)
    then show thesis using step Some voted False by (intro counted[OF Some]) (auto simp: add_policy_vote_def Let_def)
  qed
qed

lemma aggregate_vote_pending:
  assumes "pending_finalizer_policy agg = Some p" and "pending_agg agg = Some b"
    and "aggregate_vote lib v d agg = Some (r, agg')"
  obtains (early) s auth ver a where "add_policy_vote lib v d (active_finalizer_policy agg) False (active_agg agg) = Some (s, auth, ver, a)"
      "s \<noteq> success" "s \<noteq> unknown_public_key" "active_agg agg' = a" "pending_agg agg' = Some b"
  | (both) s auth ver a s' auth' ver' b' where
      "add_policy_vote lib v d (active_finalizer_policy agg) False (active_agg agg) = Some (s, auth, ver, a)"
      "s = success \<or> s = unknown_public_key" "add_policy_vote lib v d p ver b = Some (s', auth', ver', b')"
      "active_agg agg' = a" "pending_agg agg' = Some b'"
proof -
  obtain s auth ver a where 1: "add_policy_vote lib v d (active_finalizer_policy agg) False (active_agg agg) = Some (s, auth, ver, a)"
    using assms(3) by (auto simp: aggregate_vote_def bind_eq_Some_conv)
  show thesis
  proof (cases "s \<noteq> success \<and> s \<noteq> unknown_public_key")
    case True
    then show thesis using 1 assms by (intro early[OF 1]) (auto simp: aggregate_vote_def Let_def)
  next
    case False
    then obtain s' auth' ver' b' where 2: "add_policy_vote lib v d p ver b = Some (s', auth', ver', b')"
      using 1 assms by (auto simp: aggregate_vote_def Let_def bind_eq_Some_conv)
    then show thesis using 1 assms False by (intro both[OF 1 _ 2]) (auto simp: aggregate_vote_def Let_def)
  qed
qed

lemma aggregate_vote_dual:
  assumes inv: "agg_qc_inv lib signs active (Some p) sd wd agg" and pol: "policy_ok active" "policy_ok p"
    and b: "pending_agg agg = Some b" and dual: "dual_alike active p (active_agg agg) b"
    and step: "aggregate_vote lib v d agg = Some (r, agg')"
  shows "\<exists>b'. pending_agg agg' = Some b' \<and> dual_alike active p (active_agg agg') b'"
proof -
  have f: "active_finalizer_policy agg = active" "pending_finalizer_policy agg = Some p"
    and ok: "agg_ok active (active_agg agg)" "agg_ok p b" using inv b by (auto simp: agg_qc_inv_def agg_inv_def)
  note inj = find_finalizer_inj[of _ "finalizers active"] find_finalizer_inj[of _ "finalizers p"]
  from f(2) b step show ?thesis
  proof (cases rule: aggregate_vote_pending)
    case (early s auth ver a)
    from ok(1) pol(1) early(1)[unfolded f(1)] show ?thesis
      by (cases rule: add_policy_vote_cases) (use early dual in auto)
  next
    case (both s auth ver a s' auth' ver' b')
    from ok(1) pol(1) both(1)[unfolded f(1)] show ?thesis
    proof (cases rule: add_policy_vote_cases)
      case unknown
      from ok(2) pol(2) both(3) show ?thesis
      proof (cases rule: add_policy_vote_cases)
        case (counted j)
        have "j' \<noteq> j" if "find_finalizer key (finalizers active) = Some i" "find_finalizer key (finalizers p) = Some j'" for key i j'
          using inj(2)[of key j "finalizer_key v"] counted(1) unknown(1) that by auto
        then show ?thesis using both(4,5) unknown(3) counted dual unfolding dual_alike_def by auto
      qed (use both unknown dual in auto)
    next
      case (refused i)
      then show ?thesis using both(2) by auto
    next
      case (counted i)
      from ok(2) pol(2) both(3) show ?thesis
      proof (cases rule: add_policy_vote_cases)
        case unknown
        have "i' \<noteq> i" if "find_finalizer key (finalizers active) = Some i'" "find_finalizer key (finalizers p) = Some j" for key i' j
          using inj(1)[of key i "finalizer_key v"] counted(1) unknown(1) that by auto
        then show ?thesis using both(4,5) unknown(3) counted dual unfolding dual_alike_def by auto
      next
        case (refused j)
        then have "j \<in> agg_strong b \<union> agg_weak b" using counted(3) by auto
        then show ?thesis using counted(1,4) refused(1) dual unfolding dual_alike_def by auto
      next
        case c: (counted j)
        have "i' = i \<longleftrightarrow> j' = j" if "find_finalizer key (finalizers active) = Some i'" "find_finalizer key (finalizers p) = Some j'" for key i' j'
          using inj(1)[of key i "finalizer_key v"] inj(2)[of key j "finalizer_key v"] counted(1) c(1) that by auto
        then show ?thesis using both(4,5) counted c dual unfolding dual_alike_def by (cases "vote_strong v") auto
      qed
    qed
  qed
qed

lemma agg_reachable_dual:
  assumes "agg_reachable lib active (Some p) sd wd agg" and "bls_correct lib signs" and "policy_ok active" and "policy_ok p"
  shows "\<exists>b. pending_agg agg = Some b \<and> dual_alike active p (active_agg agg) b"
  using assms
proof (induction rule: agg_reachable.induct)
  case init
  then show ?case by (auto simp: dual_alike_def aggregating_qc_init_def aggregating_qc_sig_of_policy_def aggregating_qc_sig_init_def votes_init_def)
next
  case (vote agg v r agg')
  have "agg_qc_inv lib signs active (Some p) sd wd agg" using agg_reachable_inv[OF vote.hyps(1) vote.prems(1,2)] vote.prems(3) by simp
  then show ?case using vote aggregate_vote_dual[of lib signs active p sd wd agg] by blast
next
  case (received agg q better agg')
  then obtain b where b: "pending_agg agg = Some b" "dual_alike active p (active_agg agg) b" by blast
  have same: "agg_strong (snd (set_received_qc_sig s a)) = agg_strong a" "agg_weak (snd (set_received_qc_sig s a)) = agg_weak a" for s a
    by (auto simp: set_received_qc_sig_def)
  obtain s where s: "pending_policy_sig q = Some s" using received.hyps(3) b(1) by (auto simp: set_received_qc_def Let_def split: prod.splits option.splits)
  have "active_agg agg' = snd (set_received_qc_sig (active_policy_sig q) (active_agg agg))" "pending_agg agg' = Some (snd (set_received_qc_sig s b))"
    using received.hyps(3) b(1) s by (auto simp: set_received_qc_def Let_def split: prod.splits)
  then show ?case using b(2) same by (simp add: dual_alike_def)
qed

section \<open>The check of dual finalizers\<close>

lemma verify_dual_loop_eq:
  assumes "\<And>i j. i \<in> set js \<Longrightarrow> find_finalizer (public_key (finalizers active ! i)) (finalizers p) = Some j \<Longrightarrow>
      qc_vote_same_at q i j = Some (same i)"
  shows "verify_dual_loop q active p js =
    (if \<forall>i\<in>set js. public_key (finalizers active ! i) \<in> public_key ` set (finalizers p) \<longrightarrow> same i then Inr () else Inl invalid_qc_claim)"
  using assms
proof (induction js)
  case (Cons i js)
  then have IH: "verify_dual_loop q active p js =
      (if \<forall>i\<in>set js. public_key (finalizers active ! i) \<in> public_key ` set (finalizers p) \<longrightarrow> same i then Inr () else Inl invalid_qc_claim)" by simp
  show ?case
  proof (cases "find_finalizer (public_key (finalizers active ! i)) (finalizers p)")
    case None
    then show ?thesis using IH find_finalizer_None[of "public_key (finalizers active ! i)" "finalizers p"] by simp
  next
    case (Some j)
    then have "public_key (finalizers active ! i) \<in> public_key ` set (finalizers p)"
      using find_finalizer_None[of "public_key (finalizers active ! i)" "finalizers p"] by auto
    then show ?thesis using IH Some Cons.prems[of i j] by (cases "same i") simp_all
  qed
qed simp

text \<open>The certificate of one policy that is assembled from the votes.\<close>

lemma assembled_sig:
  assumes "agg_inv lib signs sd wd p a" and "policy_ok p" and "bls_correct lib signs" and "is_quorum_met_sig a" and "received_qc_sig a = None"
  obtains q where "get_best_qc_sig lib a = Inr (Some q)" "sig_valid lib p sd wd q" "strong_votes q = Some (bitset (agg_strong_votes a))"
    "weak_votes q = (if aggregating_state a = strong_achieved then None else Some (bitset (agg_weak_votes a)))"
proof -
  obtain q where q: "extract_qc_sig_from_aggregating lib a = Inr q" "sig_valid lib p sd wd q" using extract_valid[OF assms(1-4)] by blast
  have "get_best_qc_sig lib a = Inr (Some q)" using q(1) assms(4,5) by (simp add: get_best_qc_sig_def)
  moreover have "strong_votes q = Some (bitset (agg_strong_votes a))"
    "weak_votes q = (if aggregating_state a = strong_achieved then None else Some (bitset (agg_weak_votes a)))"
    using q(1) assms(4) by (auto simp: extract_qc_sig_from_aggregating_def split: if_splits)
  ultimately show thesis using that q(2) by blast
qed

lemma vote_at_voters: "i < length bs \<Longrightarrow> vote_at (Some bs) i = Some (i \<in> voters bs)"
  by (simp add: vote_at_def voters_def)

lemma vote_at_None: "vote_at None i = Some False"
  by (simp add: vote_at_def)

text \<open>A finalizer of both policies has voted weak.\<close>

definition dual_weak_vote :: "finalizer_policy \<Rightarrow> finalizer_policy \<Rightarrow> aggregating_qc_sig_t \<Rightarrow> bool" where
  "dual_weak_vote active p a \<longleftrightarrow> (\<exists>i\<in>agg_weak a. public_key (finalizers active ! i) \<in> public_key ` set (finalizers p))"

lemma dual_certificate:
  assumes bls: "bls_correct lib signs" and pol: "policy_ok active" "policy_ok p" and reach: "agg_reachable lib active (Some p) sd wd agg"
    and b: "pending_agg agg = Some b" and none: "received_qc_sig (active_agg agg) = None" "received_qc_sig b = None"
    and met: "is_quorum_met_sig (active_agg agg)" "is_quorum_met_sig b"
  defines "sa \<equiv> aggregating_state (active_agg agg) = strong_achieved" and "sb \<equiv> aggregating_state b = strong_achieved"
  shows "\<exists>q. get_best_qc lib agg bn = Inr (Some q) \<and> qc_block_num q = bn \<and> (qc_is_strong q \<longleftrightarrow> sa \<and> sb) \<and>
    verify_qc lib active (Some p) q sd wd = (if (sa \<longleftrightarrow> sb) \<or> \<not> dual_weak_vote active p (active_agg agg) then Inr () else Inl invalid_qc_claim)"
proof -
  let ?a = "active_agg agg"
  have inv: "agg_inv lib signs sd wd active ?a" "agg_inv lib signs sd wd p b"
    using agg_reachable_inv[OF reach bls pol(1)] pol(2) b by (auto simp: agg_qc_inv_def)
  have ok: "agg_ok active ?a" "agg_ok p b" using inv by (simp_all add: agg_inv_def)
  have dual: "dual_alike active p ?a b" using agg_reachable_dual[OF reach bls pol] b by auto
  obtain qa where qa: "get_best_qc_sig lib ?a = Inr (Some qa)" "sig_valid lib active sd wd qa" "strong_votes qa = Some (bitset (agg_strong_votes ?a))"
    "weak_votes qa = (if sa then None else Some (bitset (agg_weak_votes ?a)))"
    using assembled_sig[OF inv(1) pol(1) bls met(1) none(1)] unfolding sa_def by metis
  obtain qb where qb: "get_best_qc_sig lib b = Inr (Some qb)" "sig_valid lib p sd wd qb" "strong_votes qb = Some (bitset (agg_strong_votes b))"
    "weak_votes qb = (if sb then None else Some (bitset (agg_weak_votes b)))"
    using assembled_sig[OF inv(2) pol(2) bls met(2) none(2)] unfolding sb_def by metis
  let ?q = "\<lparr>qc_block_num = bn, active_policy_sig = qa, pending_policy_sig = Some qb\<rparr>"
  have len: "length (bitset (agg_strong_votes ?a)) = length (finalizers active)" "length (bitset (agg_weak_votes ?a)) = length (finalizers active)"
    "length (bitset (agg_strong_votes b)) = length (finalizers p)" "length (bitset (agg_weak_votes b)) = length (finalizers p)"
    using ok by (simp_all add: agg_ok_def votes_ok_def)
  have same: "qc_vote_same_at ?q i j = Some ((sa \<longleftrightarrow> sb) \<or> i \<notin> agg_weak ?a)"
    if "i \<in> set [0..<length (finalizers active)]" "find_finalizer (public_key (finalizers active ! i)) (finalizers p) = Some j" for i j
  proof -
    have i: "i < length (finalizers active)" and j: "j < length (finalizers p)" using that find_finalizer_Some(1)[OF that(2)] by simp_all
    have "find_finalizer (public_key (finalizers active ! i)) (finalizers active) = Some i"
      using pol(1) i by (intro find_finalizer_distinct) (simp_all add: policy_ok_def)
    then have "(i \<in> agg_strong ?a \<longleftrightarrow> j \<in> agg_strong b) \<and> (i \<in> agg_weak ?a \<longleftrightarrow> j \<in> agg_weak b)"
      using dual that(2) unfolding dual_alike_def by blast
    then show ?thesis using i j len by (auto simp: qc_vote_same_at_def qc_sig_vote_same_at_def qa qb vote_at_voters vote_at_None)
  qed
  have loop: "verify_dual_loop ?q active p [0..<length (finalizers active)] =
      (if \<forall>i\<in>set [0..<length (finalizers active)]. public_key (finalizers active ! i) \<in> public_key ` set (finalizers p) \<longrightarrow>
         (sa \<longleftrightarrow> sb) \<or> i \<notin> agg_weak ?a then Inr () else Inl invalid_qc_claim)"
    by (rule verify_dual_loop_eq) (rule same)
  have "verify_dual_finalizers_votes ?q active p =
      (if (sa \<longleftrightarrow> sb) \<or> \<not> dual_weak_vote active p ?a then Inr () else Inl invalid_qc_claim)"
    using agg_ok_sets(2)[OF ok(1)] unfolding verify_dual_finalizers_votes_def loop dual_weak_vote_def by auto
  then have "verify_qc lib active (Some p) ?q sd wd = (if (sa \<longleftrightarrow> sb) \<or> \<not> dual_weak_vote active p ?a then Inr () else Inl invalid_qc_claim)"
    using qa(2) qb(2) by (auto simp: verify_qc_def sig_valid_def)
  moreover have "get_best_qc lib agg bn = Inr (Some ?q)" using qa(1) qb(1) b by (simp add: get_best_qc_def)
  moreover have "qc_is_strong ?q \<longleftrightarrow> sa \<and> sb" by (simp add: qc_is_strong_def qc_sig_is_strong_def qa(4) qb(4))
  ultimately show ?thesis by (metis qc_t.select_convs(1))
qed

section \<open>Sequences of votes\<close>

fun aggregate_all :: "bls_lib \<Rightarrow> digest_type \<Rightarrow> u8 list \<Rightarrow> vote_message list \<Rightarrow> aggregating_qc_t \<Rightarrow> aggregating_qc_t option" where
  "aggregate_all lib sd wd [] agg = Some agg"
| "aggregate_all lib sd wd (v # vs) agg = do {
     (_, agg') \<leftarrow> aggregate_vote lib v (vote_digest sd wd v) agg;
     aggregate_all lib sd wd vs agg'
   }"

lemma aggregate_all_reachable:
  "aggregate_all lib sd wd vs agg = Some agg' \<Longrightarrow> agg_reachable lib active pending sd wd agg \<Longrightarrow> agg_reachable lib active pending sd wd agg'"
  by (induction vs arbitrary: agg) (auto simp: bind_eq_Some_conv intro: agg_reachable.vote)

section \<open>Properties\<close>

text \<open>
  C24. When a block has a pending finalizer policy, the certificate that \<^verbatim>\<open>get_best_qc\<close> assembles from votes that reach the
  thresholds of both policies passes \<^verbatim>\<open>verify_qc\<close> exactly when both parts are strong, or both weak, or no finalizer of both policies
  has voted weak. Otherwise every node rejects it, although all votes are valid and no finalizer voted twice: a
  strong part lists the strong votes only, so the weak vote of a dual finalizer is in one part and missing in the other.
\<close>

theorem dual_certificate_accepted_iff:
  assumes "bls_correct lib signs" and "policy_ok active" and "policy_ok p" and "agg_reachable lib active (Some p) sd wd agg"
    and "pending_agg agg = Some b" and "received_qc_sig (active_agg agg) = None" and "received_qc_sig b = None" and "is_quorum_met agg"
  shows "\<exists>q. get_best_qc lib agg bn = Inr (Some q) \<and>
    verify_qc lib active (Some p) q sd wd =
      (if (aggregating_state (active_agg agg) = strong_achieved \<longleftrightarrow> aggregating_state b = strong_achieved) \<or>
          \<not> (\<exists>i\<in>agg_weak (active_agg agg). public_key (finalizers active ! i) \<in> public_key ` set (finalizers p))
       then Inr () else Inl invalid_qc_claim)"
proof -
  have met: "is_quorum_met_sig (active_agg agg)" "is_quorum_met_sig b" using assms(5,8) by (simp_all add: is_quorum_met_def)
  show ?thesis using dual_certificate[OF assms(1-7) met, of bn] unfolding dual_weak_vote_def by blast
qed

definition ex_active :: finalizer_policy where
  "ex_active = \<lparr>generation = 1, threshold = 2, finalizers = map (\<lambda>k. ex_finalizer k 1) [1, 2, 3]\<rparr>"

definition ex_pending :: finalizer_policy where
  "ex_pending = \<lparr>generation = 2, threshold = 2, finalizers = map (\<lambda>k. ex_finalizer k 1) [1, 4, 5]\<rparr>"

theorem dual_certificate_accepted_iff_witness:
  "\<exists>agg q. agg_reachable ex_lib ex_active (Some ex_pending) sha256_zero [] agg \<and> get_best_qc ex_lib agg 10 = Inr (Some q) \<and>
     verify_qc ex_lib ex_active (Some ex_pending) q sha256_zero [] = Inl invalid_qc_claim"
proof -
  let ?a0 = "aggregating_qc_init ex_lib ex_active (Some ex_pending)"
  obtain agg b where run: "aggregate_all ex_lib sha256_zero [] [ex_vote 2 True, ex_vote 3 True, ex_vote 1 False, ex_vote 4 True] ?a0 = Some agg"
    and b: "pending_agg agg = Some b" and none: "received_qc_sig (active_agg agg) = None" "received_qc_sig b = None"
    and met: "is_quorum_met agg" and st: "aggregating_state (active_agg agg) = strong_achieved" "aggregating_state b \<noteq> strong_achieved"
    and weak: "bitset (agg_weak_votes (active_agg agg)) = [True, False, False]"
    by (simp add: agg_eval ex_active_def ex_pending_def is_quorum_met_def is_quorum_met_sig_def vote_digest_def)
  have ok: "policy_ok ex_active" "policy_ok ex_pending"
    by (simp_all add: policy_ok_def ex_active_def ex_pending_def ex_finalizer_def max_finalizers_def)
  have reach: "agg_reachable ex_lib ex_active (Some ex_pending) sha256_zero [] agg" by (rule aggregate_all_reachable[OF run agg_reachable.init])
  have "0 \<in> agg_weak (active_agg agg)" by (simp add: weak voters_def)
  moreover have "public_key (finalizers ex_active ! 0) \<in> public_key ` set (finalizers ex_pending)" by (simp add: ex_active_def ex_pending_def)
  ultimately have dual: "\<exists>i\<in>agg_weak (active_agg agg). public_key (finalizers ex_active ! i) \<in> public_key ` set (finalizers ex_pending)"
    by blast
  have refused: "\<not> ((aggregating_state (active_agg agg) = strong_achieved \<longleftrightarrow> aggregating_state b = strong_achieved) \<or>
      \<not> (\<exists>i\<in>agg_weak (active_agg agg). public_key (finalizers ex_active ! i) \<in> public_key ` set (finalizers ex_pending)))"
    using dual st by blast
  from dual_certificate_accepted_iff[OF ex_bls_correct ok reach b none met, of 10, unfolded if_not_P[OF refused]]
    reach show ?thesis by blast
qed

end
