(* ===== verification/Savanna_Liveness.thy ===== *)
theory Savanna_Liveness
  imports Savanna_Safety Dual_Qc
begin

text \<open>
  Progress of the finality gadget. A finalizer whose last vote and lock are on a branch votes on every later block of it
  (\<^verbatim>\<open>finalizer::decide_vote\<close>); strong votes of finalizers that reach the threshold give a strong certificate
  (\<^verbatim>\<open>aggregating_qc_t\<close>); and two blocks that claim their predecessors make a block final (\<^verbatim>\<open>finality_core::next\<close>).
\<close>

section \<open>Voting along one branch\<close>

lemma branch_time_less:
  assumes "branch_ok hl g h" and "prefix p h" and "p \<noteq> []" and "p \<noteq> h"
  shows "bhs_timestamp (last p) < bhs_timestamp (last h)"
proof -
  obtain ys where h: "h = p @ ys" "ys \<noteq> []" using assms(2,4) by (auto simp: prefix_def)
  have "sorted_wrt (\<lambda>x y. bhs_timestamp x < bhs_timestamp y) h" using assms(1) header_chain_times by (auto simp: branch_ok_def)
  then show ?thesis using h assms(3) by (simp add: sorted_wrt_append)
qed

lemma branch_final_claim: "branch_ok hl g h \<Longrightarrow> final_num h \<le> claim_num h"
  using core_front[OF chain_core_reads(1)] branch_ok_core[of hl g h] unfolding final_num_def claim_num_def by (meson order.trans)

text \<open>A reference to an ancestor is known to the finality core, or the claimed block is later.\<close>

lemma known_or_behind:
  assumes "branch_ok hl g h" and "prefix p h" and "p \<noteq> []" and "p \<noteq> h" and "refers p r"
  shows "knows h r \<or> timestamp r < bhs_timestamp (last (claimed h))"
proof -
  have core: "chain_core hl h" "h \<noteq> []" using branch_ok_core[OF assms(1)] by auto
  have hd: "hd h = g" using assms(1) by (simp add: branch_ok_def)
  let ?i = "length p - 1"
  obtain ys where h: "h = p @ ys" "ys \<noteq> []" using assms(2,4) by (auto simp: prefix_def)
  have i: "?i < length h - 1" using h assms(3) by (cases p; cases ys) auto
  have last: "h ! ?i = last p" using h(1) assms(3) by (simp add: nth_append last_conv_nth)
  have num: "unat (num_from_id (bhs_block_id (last p))) = unat (bhs_block_num g) + ?i"
    using chain_core_reads(3,4)[OF core, of ?i] i last hd by simp
  show ?thesis
  proof (cases "final_num h \<le> num_from_id (bhs_block_id (last p))")
    case True
    then show ?thesis using i last assms(5) by (auto simp: knows_def refers_def intro!: exI[of _ ?i])
  next
    case False
    then have "unat (bhs_block_num g) + ?i < unat (claim_num h)"
      using branch_final_claim[OF assms(1)] num by (simp add: word_le_nat_alt)
    then have len: "length p < length (claimed h)" using i assms(3) hd by (cases p) (auto simp: claimed_def)
    then have "prefix p (claimed h)" "p \<noteq> claimed h"
      using prefix_same_cases[OF assms(2) claimed_prefix] prefix_length_le[of "claimed h" p] by auto
    then show ?thesis
      using branch_time_less[OF branch_ok_prefix[OF assms(1) claimed_prefix claimed_ne[OF core(2)]] _ assms(3)] assms(5) by (simp add: refers_def)
  qed
qed

text \<open>
  The finalizer follows a branch: its last vote, if any, is on the branch, and its lock is on the branch or older than the
  claimed block. It may have voted on other branches before. It can join a branch at a block whose claimed block is
  later than its lock, when it has not yet voted for that time.
\<close>

definition follows :: "branch \<Rightarrow> finalizer_safety_information \<Rightarrow> bool" where
  "follows h i \<longleftrightarrow>
     (block_ref_empty (last_vote i) \<and> timestamp (last_vote i) = 0 \<or> (\<exists>p. prefix p h \<and> p \<noteq> [] \<and> refers p (last_vote i))) \<and>
     ((\<exists>p. prefix p h \<and> p \<noteq> [] \<and> refers p (lock i)) \<or> timestamp (lock i) < bhs_timestamp (last (claimed h))) \<and>
     \<not> block_ref_empty (lock i)"

definition can_join :: "branch \<Rightarrow> finalizer_safety_information \<Rightarrow> bool" where
  "can_join h i \<longleftrightarrow> \<not> block_ref_empty (lock i) \<and> timestamp (lock i) < bhs_timestamp (last (claimed h)) \<and>
     (block_ref_empty (last_vote i) \<or> timestamp (last_vote i) < bhs_timestamp (last h))"

text \<open>The time from which the claimed block has to be for a strong vote.\<close>

definition conflict_time :: "branch \<Rightarrow> finalizer_safety_information \<Rightarrow> block_timestamp_type" where
  "conflict_time h i = (if follows h i then other_branch_latest_time i else max (other_branch_latest_time i) (timestamp (last_vote i)))"

lemma claimed_time_mono:
  assumes "branch_ok hl g h" and "prefix p h" and "p \<noteq> []"
  shows "bhs_timestamp (last (claimed p)) \<le> bhs_timestamp (last (claimed h))"
proof (cases "claimed p = claimed h")
  case False
  have ne: "h \<noteq> []" using assms(2,3) by auto
  have "branch_ok hl g (claimed h)" by (rule branch_ok_prefix[OF assms(1) claimed_prefix claimed_ne[OF ne]])
  from branch_time_less[OF this claimed_mono[OF assms] claimed_ne[OF assms(3)] False] show ?thesis by simp
qed simp

lemma follows_votes:
  assumes "branch_ok hl g (h @ [s])" and "h \<noteq> []" and "follows h i"
  shows "may_vote (h @ [s]) i \<and> (timestamp (last_vote i) \<le> bhs_timestamp (last (claimed (h @ [s]))) \<or> knows (h @ [s]) (last_vote i))"
proof -
  let ?h = "h @ [s]"
  have anc: "prefix p ?h" "p \<noteq> ?h" if "prefix p h" for p using that prefix_length_le[OF that] by auto
  have lk: "knows ?h (lock i) \<or> timestamp (lock i) < bhs_timestamp (last (claimed ?h))"
    using assms(3) known_or_behind[OF assms(1)] anc claimed_time_mono[OF assms(1) _ assms(2)]
    unfolding follows_def by (meson order.strict_trans2 prefixI)
  have "(block_ref_empty (last_vote i) \<or> timestamp (last_vote i) < bhs_timestamp s) \<and>
      (timestamp (last_vote i) \<le> bhs_timestamp (last (claimed ?h)) \<or> knows ?h (last_vote i))"
  proof (cases "\<exists>p. prefix p h \<and> p \<noteq> [] \<and> refers p (last_vote i)")
    case True
    then obtain p where p: "prefix p h" "p \<noteq> []" "refers p (last_vote i)" by blast
    have "bhs_timestamp (last p) < bhs_timestamp s" using branch_time_less[OF assms(1) anc(1)[OF p(1)] p(2) anc(2)[OF p(1)]] by simp
    then show ?thesis using known_or_behind[OF assms(1) anc(1)[OF p(1)] p(2) anc(2)[OF p(1)] p(3)] p(3) by (auto simp: refers_def)
  next
    case False
    then show ?thesis using assms(3) by (auto simp: follows_def)
  qed
  then show ?thesis using assms(3) lk by (auto simp: follows_def may_vote_def)
qed

lemma claimed_lock:
  assumes "branch_ok hl g h" and "h \<noteq> []" and "\<not> sha256_empty (bhs_block_id g)" and "bhs_make_block_ref hl (last (claimed h)) = Some lk"
  shows "(\<exists>p. prefix p h \<and> p \<noteq> [] \<and> refers p lk) \<and> \<not> block_ref_empty lk"
proof -
  have ne: "claimed h \<noteq> []" by (rule claimed_ne[OF assms(2)])
  have ok: "branch_ok hl g (claimed h)" by (rule branch_ok_prefix[OF assms(1) claimed_prefix ne])
  have "\<not> sha256_empty (bhs_block_id (last (claimed h)))"
  proof (cases "1 < length (claimed h)")
    case False
    then have "claimed h = [g]" using ne ok by (cases "claimed h") (auto simp: branch_ok_def)
    then show ?thesis using assms(3) by simp
  qed (rule long_id_not_empty[OF ok])
  moreover have "refers (claimed h) lk" using make_block_ref_reads(1,4)[OF assms(4)] by (simp add: refers_def)
  ultimately show ?thesis using ne by (intro conjI exI[of _ "claimed h"]) (auto simp: refers_def block_ref_empty_def)
qed

lemma follows_kept:
  assumes "branch_ok hl g (h @ [s])" and "h \<noteq> []" and "follows h i \<or> can_join (h @ [s]) i" and "bhs bs = s"
    and "\<not> sha256_empty (bhs_block_id g)"
  shows "\<exists>res j. decide_vote bs i = Some (res, j) \<and> (decision res = strong_vote \<or> decision res = weak_vote) \<and> follows (h @ [s]) j \<and>
    (conflict_time h i \<le> bhs_timestamp (last (claimed (h @ [s]))) \<longrightarrow> decision res = strong_vote) \<and>
    other_branch_latest_time j \<le> conflict_time h i"
proof -
  let ?h = "h @ [s]" and ?t = "bhs_timestamp (last (claimed (h @ [s])))"
  have long: "1 < length ?h" using assms(2) by (cases h) auto
  have may: "may_vote ?h i" using assms(3) follows_votes[OF assms(1,2)] by (auto simp: can_join_def may_vote_def)
  have near: "timestamp (last_vote i) \<le> ?t \<or> knows ?h (last_vote i)" if "follows h i" using follows_votes[OF assms(1,2) that] by simp
  obtain lk other where upd: "vote_update bs i = Some (if strong_on ?h i then strong_vote else weak_vote,
      \<lparr>last_vote = bs_make_block_ref bs, lock = lk, other_branch_latest_time = other\<rparr>)"
    and lk: "if strong_on ?h i \<and> timestamp (lock i) < ?t then bhs_make_block_ref hl (last (claimed ?h)) = Some lk else lk = lock i"
    and other: "other = (if strong_on ?h i then 0 else if knows ?h (last_vote i) then other_branch_latest_time i else timestamp (last_vote i))"
    using vote_update_rule[OF assms(1) long, of bs i] assms(4) by auto
  let ?j = "\<lparr>last_vote = bs_make_block_ref bs, lock = lk, other_branch_latest_time = other\<rparr>"
  have checks: "\<exists>l sf. vote_checks (core s) (lock i) = Some (l, sf) \<and> (l \<or> sf)"
    using branch_claim_reads(1)[OF assms(1) long] branch_extends_knows[OF assms(1)] may by (auto simp: vote_checks_def may_vote_def)
  have mono: "block_ref_empty (last_vote i) \<or> timestamp (last_vote i) < bhs_timestamp s" using may by (auto simp: may_vote_def)
  have dec: "\<exists>res. decide_vote bs i = Some (res, ?j) \<and> decision res = (if strong_on ?h i then strong_vote else weak_vote)"
    using checks mono upd assms(4) by (auto simp: decide_vote_def)
  have "refers ?h (bs_make_block_ref bs)" using assms(4) by (simp add: refers_def bs_make_block_ref_def)
  moreover have "((\<exists>p. prefix p ?h \<and> p \<noteq> [] \<and> refers p lk) \<or> timestamp lk < ?t) \<and> \<not> block_ref_empty lk"
  proof (cases "strong_on ?h i \<and> timestamp (lock i) < ?t")
    case True
    then show ?thesis using claimed_lock[OF assms(1) _ assms(5)] lk by simp
  next
    case False
    then have "lk = lock i" using lk by (simp split: if_splits)
    then show ?thesis using may assms(3) claimed_time_mono[OF assms(1) _ assms(2)] unfolding follows_def can_join_def may_vote_def
      by (meson order.strict_trans2 prefixI prefix_snoc)
  qed
  ultimately have fol: "follows ?h ?j" by (auto simp: follows_def intro!: exI[of _ ?h])
  have "other \<le> conflict_time h i" using other near by (auto simp: conflict_time_def strong_on_def)
  moreover have "strong_on ?h i" if "conflict_time h i \<le> ?t" using that near by (auto simp: conflict_time_def strong_on_def split: if_splits)
  ultimately show ?thesis using dec fol by auto
qed

text \<open>A finalizer votes on the block states of a list, in order.\<close>

fun vote_all :: "block_state list \<Rightarrow> finalizer_safety_information \<Rightarrow> (vote_decision list \<times> finalizer_safety_information) option" where
  "vote_all [] i = Some ([], i)"
| "vote_all (b # bs) i = do { (r, i') \<leftarrow> decide_vote b i; (ds, j) \<leftarrow> vote_all bs i'; Some (decision r # ds, j) }"

text \<open>The decisions on a list of blocks: every block gets a vote, a strong one if the claimed block is not before the given time.\<close>

definition decisions_from :: "block_timestamp_type \<Rightarrow> branch \<Rightarrow> block_state list \<Rightarrow> vote_decision list \<Rightarrow> bool" where
  "decisions_from t h bs ds \<longleftrightarrow> length ds = length bs \<and>
     (\<forall>k<length bs. (ds ! k = strong_vote \<or> ds ! k = weak_vote) \<and>
        (t \<le> bhs_timestamp (last (claimed (h @ map bhs (take (Suc k) bs)))) \<longrightarrow> ds ! k = strong_vote))"

lemma decisions_from_Cons:
  assumes "decisions_from t' (h @ [bhs b]) bs ds" and "t' \<le> t" and "d = strong_vote \<or> d = weak_vote"
    and "t \<le> bhs_timestamp (last (claimed (h @ [bhs b]))) \<Longrightarrow> d = strong_vote"
  shows "decisions_from t h (b # bs) (d # ds)"
  using assms by (fastforce simp: decisions_from_def nth_Cons split: nat.splits)

lemma follows_run:
  assumes "branch_ok hl g (h @ map bhs bs)" and "h \<noteq> []" and "\<not> sha256_empty (bhs_block_id g)"
    and "follows h i \<or> bs \<noteq> [] \<and> can_join (h @ [bhs (hd bs)]) i"
  shows "\<exists>ds j. vote_all bs i = Some (ds, j) \<and> decisions_from (conflict_time h i) h bs ds \<and> follows (h @ map bhs bs) j"
  using assms
proof (induction bs arbitrary: h i)
  case (Cons b bs)
  have "branch_ok hl g (h @ [bhs b])" by (rule branch_ok_prefix[OF Cons.prems(1)]) auto
  from follows_kept[OF this Cons.prems(2) _ refl Cons.prems(3), of i] Cons.prems(4)
  obtain res j where j: "decide_vote b i = Some (res, j)" "decision res = strong_vote \<or> decision res = weak_vote" "follows (h @ [bhs b]) j"
    "conflict_time h i \<le> bhs_timestamp (last (claimed (h @ [bhs b]))) \<Longrightarrow> decision res = strong_vote"
    "other_branch_latest_time j \<le> conflict_time h i" by auto
  from Cons.IH[of "h @ [bhs b]" j] Cons.prems(1,3) j(3)
  obtain ds k where k: "vote_all bs j = Some (ds, k)" "decisions_from (conflict_time (h @ [bhs b]) j) (h @ [bhs b]) bs ds"
    "follows ((h @ [bhs b]) @ map bhs bs) k" by auto
  have "conflict_time (h @ [bhs b]) j \<le> conflict_time h i" using j(3,5) by (simp add: conflict_time_def)
  from decisions_from_Cons[OF k(2) this j(2,4)] show ?case using j(1) k(1,3) by simp
qed (simp add: decisions_from_def)

section \<open>Strong votes make a strong certificate\<close>

text \<open>No weak vote and no certificate has been received.\<close>

definition only_strong :: "aggregating_qc_sig_t \<Rightarrow> bool" where
  "only_strong a \<longleftrightarrow> agg_weak a = {} \<and> weak_sum a = 0 \<and> received_qc_sig a = None \<and>
     (aggregating_state a = unrestricted \<or> aggregating_state a = strong_achieved)"

lemma add_vote_only_strong:
  assumes "only_strong a" and "add_vote lib True i sg w a = Some (r, a')"
  shows "only_strong a'"
proof -
  have a: "agg_weak a = {}" "weak_sum a = 0" "received_qc_sig a = None"
    "aggregating_state a = unrestricted \<or> aggregating_state a = strong_achieved" using assms(1) by (simp_all add: only_strong_def)
  obtain s where s: "check_duplicate a i = Some s" using assms(2) by (auto simp: add_vote_def bind_eq_Some_conv)
  show ?thesis
  proof (cases "s = success")
    case True
    with assms(2) s have "add_strong_vote lib i sg w a = Some (r, a')" by (simp add: add_vote_def)
    then obtain v st where "a' = (a\<lparr>agg_strong_votes := v, strong_sum := strong_sum a + w\<rparr>)\<lparr>aggregating_state := st\<rparr>"
      "strong_transition (a\<lparr>agg_strong_votes := v, strong_sum := strong_sum a + w\<rparr>) = Some st"
      by (auto simp: add_strong_vote_def Let_def bind_eq_Some_conv)
    then show ?thesis using a by (auto simp: only_strong_def strong_transition_def split: if_splits)
  next
    case False
    with assms(2) s have "a' = a" by (simp add: add_vote_def)
    with assms(1) show ?thesis by simp
  qed
qed

text \<open>The finalizers of a policy that a list of votes holds a validly signed vote of.\<close>

definition signer :: "bls_lib \<Rightarrow> digest_type \<Rightarrow> finalizer_policy \<Rightarrow> vote_message \<Rightarrow> nat option" where
  "signer lib sd p v = (if bls_verify lib (finalizer_key v) (sha256_data sd) (vote_sig v) then find_finalizer (finalizer_key v) (finalizers p) else None)"

definition signers :: "bls_lib \<Rightarrow> digest_type \<Rightarrow> finalizer_policy \<Rightarrow> vote_message list \<Rightarrow> nat set" where
  "signers lib sd p vs = set (List.map_filter (signer lib sd p) vs)"

lemma signers_simps: "signers lib sd p [] = {}"
  "signers lib sd p (v # vs) = set_option (signer lib sd p v) \<union> signers lib sd p vs"
  by (auto simp: signers_def map_filter_simps split: option.splits)

lemma add_policy_strong_vote:
  assumes "agg_ok p a" and "policy_ok p" and "only_strong a" and "vote_strong v"
    and "verified \<Longrightarrow> bls_verify lib (finalizer_key v) (sha256_data sd) (vote_sig v)"
  shows "\<exists>r auth ver a'. add_policy_vote lib v (sha256_data sd) p verified a = Some (r, auth, ver, a') \<and> only_strong a' \<and>
    agg_strong a' = set_option (signer lib sd p v) \<union> agg_strong a \<and>
    (ver \<longrightarrow> bls_verify lib (finalizer_key v) (sha256_data sd) (vote_sig v)) \<and>
    (r = success \<or> r = unknown_public_key \<or> \<not> bls_verify lib (finalizer_key v) (sha256_data sd) (vote_sig v) \<or>
       (\<exists>i\<in>agg_strong a. find_finalizer (finalizer_key v) (finalizers p) = Some i))"
proof (cases "find_finalizer (finalizer_key v) (finalizers p)")
  case None
  then show ?thesis using assms(3,5) by (simp add: add_policy_vote_def signer_def)
next
  case (Some i)
  have i: "i < length (finalizers p)" by (rule find_finalizer_Some[OF Some])
  have total: "total_weight (finalizers p) < 2 ^ 64" using assms(2) by (simp add: policy_ok_def)
  have weak: "agg_weak a = {}" using assms(3) by (simp add: only_strong_def)
  note has_vote = has_voted_sig_iff[OF assms(1) i]
  show ?thesis
  proof (cases "i \<in> agg_strong a \<or> \<not> bls_verify lib (finalizer_key v) (sha256_data sd) (vote_sig v)")
    case True
    then show ?thesis using Some has_vote weak assms(3,5) by (auto simp: add_policy_vote_def Let_def signer_def)
  next
    case False
    then obtain a' where a': "add_vote lib True i (vote_sig v) (weight (finalizers p ! i)) a = Some (success, a')"
      "agg_strong a' = insert i (agg_strong a)"
      using add_vote_ok[OF assms(1) total i, of lib True "vote_sig v"] weak by auto
    then show ?thesis using Some False has_vote weak assms(4) add_vote_only_strong[OF assms(3) a'(1)]
      by (auto simp: add_policy_vote_def Let_def signer_def)
  qed
qed

text \<open>Both aggregations of a block hold the strong votes of the given finalizers, and nothing else.\<close>

definition holds_strong :: "aggregating_qc_t \<Rightarrow> nat set \<Rightarrow> nat set \<Rightarrow> bool" where
  "holds_strong agg s t \<longleftrightarrow> only_strong (active_agg agg) \<and> agg_strong (active_agg agg) = s \<and>
     pred_option (\<lambda>b. only_strong b \<and> agg_strong b = t) (pending_agg agg)"

abbreviation pending_signers :: "bls_lib \<Rightarrow> digest_type \<Rightarrow> finalizer_policy option \<Rightarrow> vote_message list \<Rightarrow> nat set" where
  "pending_signers lib sd pending vs \<equiv> (case pending of None \<Rightarrow> {} | Some p \<Rightarrow> signers lib sd p vs)"

lemma strong_vote_counted:
  assumes bls: "bls_correct lib signs" and pol: "policy_ok active" "pred_option policy_ok pending"
    and reach: "agg_reachable lib active pending sd wd agg" and st: "holds_strong agg s t" and v: "vote_strong v"
  shows "\<exists>r agg'. aggregate_vote lib v (sha256_data sd) agg = Some (r, agg') \<and>
    holds_strong agg' (set_option (signer lib sd active v) \<union> s) (pending_signers lib sd pending [v] \<union> t)"
proof -
  let ?ok = "bls_verify lib (finalizer_key v) (sha256_data sd) (vote_sig v)"
  have inv: "agg_qc_inv lib signs active pending sd wd agg" using agg_reachable_inv[OF reach bls pol] .
  then have f: "active_finalizer_policy agg = active" "pending_finalizer_policy agg = pending" and ok: "agg_ok active (active_agg agg)"
    by (simp_all add: agg_qc_inv_def agg_inv_def)
  have os: "only_strong (active_agg agg)" "agg_strong (active_agg agg) = s" using st by (simp_all add: holds_strong_def)
  obtain r auth ver a' where a: "add_policy_vote lib v (sha256_data sd) active False (active_agg agg) = Some (r, auth, ver, a')"
    "only_strong a'" "agg_strong a' = set_option (signer lib sd active v) \<union> s" "ver \<Longrightarrow> ?ok"
    "r = success \<or> r = unknown_public_key \<or> \<not> ?ok \<or> (\<exists>i\<in>s. find_finalizer (finalizer_key v) (finalizers active) = Some i)"
    using add_policy_strong_vote[OF ok pol(1) os(1) v, of False lib sd] os(2) by blast
  show ?thesis
  proof (cases pending)
    case None
    then have "pending_agg agg = None" using inv by (simp add: agg_qc_inv_def)
    then show ?thesis using a(1-3) f None by (auto simp: aggregate_vote_def Let_def holds_strong_def)
  next
    case (Some p)
    obtain b where b: "pending_agg agg = Some b" "dual_alike active p (active_agg agg) b"
      using agg_reachable_dual[OF reach[unfolded Some] bls pol(1)] pol(2) Some by auto
    have okb: "agg_ok p b" using inv b(1) Some by (auto simp: agg_qc_inv_def agg_inv_def)
    have okp: "policy_ok p" using pol(2) Some by simp
    have bs: "only_strong b" "agg_strong b = t" using st b(1) by (simp_all add: holds_strong_def)
    have one: "pending_signers lib sd pending [v] = set_option (signer lib sd p v)" using Some by (simp add: signers_simps)
    show ?thesis
    proof (cases "r = success \<or> r = unknown_public_key")
      case True
      obtain r' auth' ver' b' where "add_policy_vote lib v (sha256_data sd) p ver b = Some (r', auth', ver', b')"
        "only_strong b'" "agg_strong b' = set_option (signer lib sd p v) \<union> t"
        using add_policy_strong_vote[OF okb okp bs(1) v a(4)] bs(2) by blast
      then show ?thesis using True a(1-3) f Some b(1) one by (auto simp: aggregate_vote_def Let_def holds_strong_def)
    next
      case False
      have "set_option (signer lib sd p v) \<subseteq> t"
        using False a(5) b(2) os(2) bs(2) unfolding dual_alike_def signer_def by (fastforce split: if_splits)
      then have "pending_signers lib sd pending [v] \<union> t = t" using one by blast
      then show ?thesis using False a(1-3) f Some b(1) bs by (auto simp: aggregate_vote_def Let_def holds_strong_def)
    qed
  qed
qed

lemma strong_votes_counted:
  assumes "bls_correct lib signs" and "policy_ok active" and "pred_option policy_ok pending"
    and "agg_reachable lib active pending sd wd agg" and "holds_strong agg s t" and "list_all vote_strong vs"
  shows "\<exists>agg'. aggregate_all lib sd wd vs agg = Some agg' \<and> agg_reachable lib active pending sd wd agg' \<and>
    holds_strong agg' (signers lib sd active vs \<union> s) (pending_signers lib sd pending vs \<union> t)"
  using assms(4-6)
proof (induction vs arbitrary: agg s t)
  case Nil
  then show ?case by (simp add: signers_simps split: option.split)
next
  case (Cons v vs)
  have v: "vote_strong v" "list_all vote_strong vs" using Cons.prems(3) by simp_all
  obtain r agg1 where a1: "aggregate_vote lib v (sha256_data sd) agg = Some (r, agg1)"
    "holds_strong agg1 (set_option (signer lib sd active v) \<union> s) (pending_signers lib sd pending [v] \<union> t)"
    using strong_vote_counted[OF assms(1-3) Cons.prems(1,2) v(1)] by blast
  have d: "vote_digest sd wd v = sha256_data sd" using v(1) by (simp add: vote_digest_def)
  have "agg_reachable lib active pending sd wd agg1" using agg_reachable.vote[OF Cons.prems(1)] a1(1) d by metis
  from Cons.IH[OF this a1(2) v(2)] obtain agg' where agg': "aggregate_all lib sd wd vs agg1 = Some agg'" "agg_reachable lib active pending sd wd agg'"
    "holds_strong agg' (signers lib sd active vs \<union> (set_option (signer lib sd active v) \<union> s)) (pending_signers lib sd pending vs \<union> (pending_signers lib sd pending [v] \<union> t))"
    by blast
  moreover have "signers lib sd active vs \<union> (set_option (signer lib sd active v) \<union> s) = signers lib sd active (v # vs) \<union> s"
    "pending_signers lib sd pending vs \<union> (pending_signers lib sd pending [v] \<union> t) = pending_signers lib sd pending (v # vs) \<union> t"
    by (auto simp: signers_simps split: option.splits)
  ultimately show ?case using a1(1) d by simp
qed

lemma only_strong_quorum:
  assumes "agg_ok p a" and "only_strong a" and "unat (threshold p) \<le> weight_of p (agg_strong a)"
  shows "is_quorum_met_sig a" "aggregating_state a = strong_achieved" "received_qc_sig a = None"
  using assms quorum_met_iff[OF assms(1)] by (auto simp: only_strong_def agg_ok_def)

lemma strong_quorum_certificate:
  assumes bls: "bls_correct lib signs" and pol: "policy_ok active" "pred_option policy_ok pending"
    and reach: "agg_reachable lib active pending sd wd agg" and st: "holds_strong agg s t"
    and quorum: "unat (threshold active) \<le> weight_of active s" "pred_option (\<lambda>p. unat (threshold p) \<le> weight_of p t) pending"
  shows "\<exists>q. get_best_qc lib agg bn = Inr (Some q) \<and> qc_block_num q = bn \<and> qc_is_strong q \<and> verify_qc lib active pending q sd wd = Inr ()"
proof -
  let ?a = "active_agg agg"
  have inv: "agg_qc_inv lib signs active pending sd wd agg" using agg_reachable_inv[OF reach bls pol] .
  then have ainv: "agg_inv lib signs sd wd active ?a" by (simp add: agg_qc_inv_def)
  have ok: "agg_ok active ?a" using ainv by (simp add: agg_inv_def)
  have os: "only_strong ?a" "unat (threshold active) \<le> weight_of active (agg_strong ?a)" using st quorum(1) by (simp_all add: holds_strong_def)
  note active = only_strong_quorum[OF ok os]
  show ?thesis
  proof (cases pending)
    case None
    then have none: "pending_agg agg = None" using inv by (simp add: agg_qc_inv_def)
    obtain q where q: "extract_qc_sig_from_aggregating lib ?a = Inr q" "sig_valid lib active sd wd q" "qc_sig_is_strong q"
      using extract_valid[OF ainv pol(1) bls active(1)] active(2) by blast
    then show ?thesis using None none active
      by (simp add: get_best_qc_def get_best_qc_sig_def qc_is_strong_def verify_qc_def sig_valid_def)
  next
    case (Some p)
    then obtain b where b: "pending_agg agg = Some b" "agg_ok p b" using inv by (auto simp: agg_qc_inv_def agg_inv_def)
    have bs: "only_strong b" "unat (threshold p) \<le> weight_of p (agg_strong b)" using st quorum(2) b(1) Some by (simp_all add: holds_strong_def)
    note pend = only_strong_quorum[OF b(2) bs]
    have p: "policy_ok p" using pol(2) Some by simp
    from dual_certificate[OF bls pol(1) p reach[unfolded Some] b(1) active(3) pend(3) active(1) pend(1), of bn]
    show ?thesis using active(2) pend(2) Some by simp
  qed
qed

section \<open>A claimed strong certificate makes a block final\<close>

lemma claim_makes_final:
  assumes "branch_ok hl g (h @ a # ys @ [b])" and "latest_qc_claim (core b) = Some \<lparr>block_num = bhs_block_num a, is_strong_qc = True\<rparr>"
  shows "final_branch (h @ a # ys @ [b]) = claimed (h @ [a])"
proof -
  let ?hb = "(h @ a # ys) @ [b]"
  have ok: "branch_ok hl g ?hb" using assms(1) by simp
  have core: "chain_core hl ?hb" "?hb \<noteq> []" using branch_ok_core[OF ok] by auto
  have hd: "hd ?hb = g" using ok by (simp add: branch_ok_def)
  have "links (core b) \<noteq> []" using core_links_ne[OF chain_core_reads(1)[OF core]] by simp
  then have claim: "claim_num ?hb = bhs_block_num a" "claim_strong ?hb"
    using assms(2) by (simp_all add: latest_qc_claim_eq claim_num_def claim_strong_def)
  have "unat (bhs_block_num a) = unat (bhs_block_num g) + length h"
    using chain_core_reads(3)[OF core, of "length h"] hd by (simp add: nth_append)
  then have "claimed ?hb = h @ [a]" using claim(1) hd by (simp add: claimed_def)
  then show ?thesis using branch_final_rule[OF ok] claim(2) by simp
qed

section \<open>Properties\<close>

text \<open>
  C4. A finalizer never gets stuck on a growing branch. It follows the branch if its last vote, if any, is on it and its lock is on it
  or older than the block it claims; it can join a branch at a block which claims a block later than its lock, if
  its last vote is before that block. In both cases it votes on every following block of the branch, however many there
  are, and follows the branch afterwards. The votes are strong on every block that claims a block not before the latest
  vote on another branch which the finalizer remembers, and, for a finalizer that joins, not before its last vote; on the other
  blocks they may be weak.
\<close>

theorem branch_voting_live:
  assumes "branch_ok hl g (h @ map bhs bs)" and "h \<noteq> []" and "\<not> sha256_empty (bhs_block_id g)" and "bs \<noteq> []"
    and "follows h i \<or> can_join (h @ [bhs (hd bs)]) i"
  shows "\<exists>ds j. vote_all bs i = Some (ds, j) \<and> length ds = length bs \<and> follows (h @ map bhs bs) j \<and>
    (\<forall>k<length bs. (ds ! k = strong_vote \<or> ds ! k = weak_vote) \<and>
       (conflict_time h i \<le> bhs_timestamp (last (claimed (h @ map bhs (take (Suc k) bs)))) \<longrightarrow> ds ! k = strong_vote))"
  using follows_run[OF assms(1-3)] assms(4,5) unfolding decisions_from_def by blast

theorem branch_voting_live_witness:
  "\<exists>ds j. vote_all [ex_bs ex_s2 None, ex_bs ex_s3 None, ex_bs ex_s4 None] (ex_fsi 1 empty_block_ref) = Some (ds, j) \<and>
     ds ! 0 = strong_vote \<and> follows [ex_s1, ex_s2, ex_s3, ex_s4] j"
proof -
  let ?i = "ex_fsi 1 empty_block_ref"
  have ok: "branch_ok ex_hl ex_s1 ([ex_s1] @ map bhs [ex_bs ex_s2 None, ex_bs ex_s3 None, ex_bs ex_s4 None])"
    using ex_tree_ok by (simp add: tree_ok_def ex_tree_def ex_branch_def)
  have id: "\<not> sha256_empty (bhs_block_id ex_s1)" by (simp add: ex_ids ex_id_not_empty)
  have "refers [ex_s1] (lock ?i)"
    by (simp add: refers_def ex_fsi_def ex_bref_def ex_ids bhs_timestamp_def ex_s1_def ex_state_def ex_header_def)
  then have fol: "follows [ex_s1] ?i"
    unfolding follows_def using ex_id_not_empty[of 1]
    by (auto simp: ex_fsi_def empty_block_ref_def block_ref_empty_def ex_bref_def sha256_empty_iff)
  then have "conflict_time [ex_s1] ?i = 0" by (simp add: conflict_time_def ex_fsi_def)
  with branch_voting_live[OF ok _ id _ disjI1[OF fol]] show ?thesis by fastforce
qed

text \<open>
  C5. Finality is reached. Let a list of strong votes, in any order, with repetitions, votes of unknown keys and badly signed ones, contain
  validly signed votes of finalizers that reach the threshold of the active policy of a block and, if it has a pending
  policy, of that one. Then the aggregation started for the block takes all of them and gives a strong certificate that
  verifies; and in every later block of a branch through that block which claims this certificate, the block that the
  certified block claims is final.
\<close>

theorem strong_quorum_finalizes:
  assumes "bls_correct lib signs" and "policy_ok (active_policy a)" and "pred_option policy_ok (map_option snd (pending_policy a))"
    and "list_all vote_strong vs"
    and "unat (threshold (active_policy a)) \<le> weight_of (active_policy a) (signers lib sd (active_policy a) vs)"
    and "pred_option (\<lambda>p. unat (threshold p) \<le> weight_of p (signers lib sd p vs)) (map_option snd (pending_policy a))"
  shows "\<exists>agg q. aggregate_all lib sd wd vs (aggregating_qc_init lib (active_policy a) (map_option snd (pending_policy a))) = Some agg \<and>
    get_best_qc lib agg (bhs_block_num a) = Inr (Some q) \<and> to_qc_claim q = \<lparr>block_num = bhs_block_num a, is_strong_qc = True\<rparr> \<and>
    verify_qc lib (active_policy a) (map_option snd (pending_policy a)) q sd wd = Inr () \<and>
    (\<forall>hl g h ys b. branch_ok hl g (h @ a # ys @ [b]) \<and> latest_qc_claim (core b) = Some (to_qc_claim q) \<longrightarrow>
       final_branch (h @ a # ys @ [b]) = claimed (h @ [a]))"
proof -
  let ?p = "active_policy a" and ?n = "map_option snd (pending_policy a)"
  let ?a0 = "aggregating_qc_init lib ?p ?n"
  have start: "holds_strong ?a0 {} {}"
    by (cases "pending_policy a") (simp_all add: holds_strong_def only_strong_def aggregating_qc_init_def aggregating_qc_sig_of_policy_def
        aggregating_qc_sig_init_def votes_init_def)
  obtain agg where agg: "aggregate_all lib sd wd vs ?a0 = Some agg" "agg_reachable lib ?p ?n sd wd agg"
    "holds_strong agg (signers lib sd ?p vs) (pending_signers lib sd ?n vs)"
    using strong_votes_counted[OF assms(1-3) agg_reachable.init start assms(4), of sd wd] by auto
  have pend: "pred_option (\<lambda>p. unat (threshold p) \<le> weight_of p (pending_signers lib sd ?n vs)) ?n"
    using assms(6) by (cases "pending_policy a") simp_all
  obtain q where q: "get_best_qc lib agg (bhs_block_num a) = Inr (Some q)" "qc_block_num q = bhs_block_num a" "qc_is_strong q"
    "verify_qc lib ?p ?n q sd wd = Inr ()"
    using strong_quorum_certificate[OF assms(1-3) agg(2,3) assms(5) pend] by blast
  have c: "to_qc_claim q = \<lparr>block_num = bhs_block_num a, is_strong_qc = True\<rparr>" using q(2,3) by (simp add: to_qc_claim_def)
  then have "final_branch (h @ a # ys @ [b]) = claimed (h @ [a])"
    if "branch_ok hl g (h @ a # ys @ [b])" "latest_qc_claim (core b) = Some (to_qc_claim q)" for hl g h ys b
    using claim_makes_final[OF that(1)] that(2) by simp
  then show ?thesis using q(1,4) agg(1) c by blast
qed

theorem strong_quorum_finalizes_witness:
  "(\<exists>agg q. aggregate_all ex_lib sha256_zero [] [ex_vote 3 True, ex_vote 9 True, ex_vote 1 True] (aggregating_qc_init ex_lib (ex_pol 1) (Some (ex_pol 2))) = Some agg \<and>
     get_best_qc ex_lib agg 4 = Inr (Some q) \<and> verify_qc ex_lib (ex_pol 1) (Some (ex_pol 2)) q sha256_zero [] = Inr ()) \<and>
   final_branch ex_branch = claimed [ex_s1, ex_s2, ex_s3]"
proof
  let ?vs = "[ex_vote 3 True, ex_vote 9 True, ex_vote 1 True]"
  have pol: "policy_ok (ex_pol n)" for n by (simp add: policy_ok_def ex_pol_def ex_finalizer_def max_finalizers_def)
  have pols: "active_policy ex_s3 = ex_pol 1" "map_option snd (pending_policy ex_s3) = None" "bhs_block_num ex_s3 = 3"
    "active_policy ex_s4 = ex_pol 1" "map_option snd (pending_policy ex_s4) = Some (ex_pol 2)" "bhs_block_num ex_s4 = 4"
    by (simp_all add: ex_s3_def ex_s4_def ex_state_def ex_header_def bhs_block_num_def num_from_id_calculate_id)
  have votes: "list_all vote_strong ?vs" by (simp add: ex_vote_def)
  have w: "unat (threshold (ex_pol n)) \<le> weight_of (ex_pol n) (signers ex_lib sha256_zero (ex_pol n) ?vs)" for n
    by (simp add: ex_pol_def weight_of_def ex_finalizer_def signers_simps signer_def ex_vote_def find_finalizer_def ex_lib_def upt_rec)
  show "\<exists>agg q. aggregate_all ex_lib sha256_zero [] ?vs (aggregating_qc_init ex_lib (ex_pol 1) (Some (ex_pol 2))) = Some agg \<and>
     get_best_qc ex_lib agg 4 = Inr (Some q) \<and> verify_qc ex_lib (ex_pol 1) (Some (ex_pol 2)) q sha256_zero [] = Inr ()"
    using strong_quorum_finalizes[OF ex_bls_correct _ _ votes, of ex_s4 sha256_zero "[]", unfolded pols] pol w by auto
  obtain q where q: "to_qc_claim q = \<lparr>block_num = 3, is_strong_qc = True\<rparr>"
    "\<forall>hl g h ys b. branch_ok hl g (h @ ex_s3 # ys @ [b]) \<and> latest_qc_claim (core b) = Some (to_qc_claim q) \<longrightarrow>
       final_branch (h @ ex_s3 # ys @ [b]) = claimed (h @ [ex_s3])"
    using strong_quorum_finalizes[OF ex_bls_correct _ _ votes, of ex_s3 sha256_zero "[]", unfolded pols] pol w by auto
  have "branch_ok ex_hl ex_s1 ([ex_s1, ex_s2] @ ex_s3 # [] @ [ex_s4])" using ex_tree_ok by (simp add: tree_ok_def ex_tree_def ex_branch_def)
  moreover have "latest_qc_claim (core ex_s4) = Some (to_qc_claim q)" by (simp add: q(1) latest_qc_claim_def ex_s4_def ex_state_def ex_link_def)
  ultimately have "final_branch ([ex_s1, ex_s2] @ ex_s3 # [] @ [ex_s4]) = claimed ([ex_s1, ex_s2] @ [ex_s3])" using q(2) by blast
  then show "final_branch ex_branch = claimed [ex_s1, ex_s2, ex_s3]" by (simp add: ex_branch_def)
qed

end
