(* ===== verification/Fork_Database.thy ===== *)
theory Fork_Database
  imports Block_Chain "HOL-Library.Option_ord" "HOL-Library.Product_Lexorder" "HOL-Library.Multiset"
begin

text \<open>
  The fork database of Savanna blocks (fork_database.hpp, fork_database.cpp, class \<^verbatim>\<open>fork_database_impl<block_state_ptr>\<close>). The
  multi-index container is the list of its blocks in the order of the index \<^verbatim>\<open>by_best_branch\<close>; the index \<^verbatim>\<open>by_block_id\<close> is a
  search for the identifier. The loops that follow \<^verbatim>\<open>previous()\<close> are partial functions: that they end is a theorem about the
  databases the operations build. A method that dereferences a root that is not set is undefined.
\<close>

section \<open>Blocks and the index\<close>

abbreviation bs_id :: "block_state \<Rightarrow> block_id_type" where "bs_id b \<equiv> bhs_block_id (bhs b)"
abbreviation bs_previous :: "block_state \<Rightarrow> block_id_type" where "bs_previous b \<equiv> previous (header (bhs b))"
abbreviation bs_block_num :: "block_state \<Rightarrow> block_num_type" where "bs_block_num b \<equiv> bhs_block_num (bhs b)"

text \<open>The key of \<^verbatim>\<open>by_best_branch\<close>, compared lexicographically; better blocks come first.\<close>

definition best_key :: "block_state \<Rightarrow> block_timestamp_type option \<times> block_timestamp_type \<times> block_id_type" where
  "best_key b = (latest_qc_block_timestamp (core (bhs b)), bhs_timestamp (bhs b), bs_id b)"

record fork_database =
  fd_root :: "block_state option"
  pending_savanna_lib_id :: block_id_type
  fd_index :: "block_state list"

definition index_find :: "block_state list \<Rightarrow> block_id_type \<Rightarrow> block_state option" where
  "index_find idx i = find (\<lambda>b. bs_id b = i) idx"

fun index_place :: "block_state \<Rightarrow> block_state list \<Rightarrow> block_state list" where
  "index_place n [] = [n]"
| "index_place n (b # bs) = (if best_key b < best_key n then n # b # bs else b # index_place n bs)"

text \<open>\<^verbatim>\<open>insert\<close> says whether the block was new.\<close>

definition index_insert :: "block_state \<Rightarrow> block_state list \<Rightarrow> bool \<times> block_state list" where
  "index_insert n idx = (if index_find idx (bs_id n) = None then (True, index_place n idx) else (False, idx))"

definition index_erase :: "block_id_type \<Rightarrow> block_state list \<Rightarrow> block_state list" where
  "index_erase i idx = filter (\<lambda>b. bs_id b \<noteq> i) idx"

text \<open>The range of \<^verbatim>\<open>by_prev\<close> with a given key.\<close>

definition index_children :: "block_state list \<Rightarrow> block_id_type \<Rightarrow> block_state list" where
  "index_children idx i = filter (\<lambda>b. bs_previous b = i) idx"

section \<open>Reading\<close>

definition fd_root_of :: "fork_database \<Rightarrow> block_state res" where
  "fd_root_of db = (case fd_root db of None \<Rightarrow> Inl undefined_behaviour | Some r \<Rightarrow> Inr r)"

definition get_block :: "fork_database \<Rightarrow> block_id_type \<Rightarrow> block_state option" where
  "get_block db i = index_find (fd_index db) i"

definition get_block_or_root :: "fork_database \<Rightarrow> block_id_type \<Rightarrow> block_state option res" where
  "get_block_or_root db i = bind_res (fd_root_of db) (\<lambda>r. Inr (if bs_id r = i then Some r else get_block db i))"

definition block_exists :: "fork_database \<Rightarrow> block_id_type \<Rightarrow> bool" where
  "block_exists db i = (index_find (fd_index db) i \<noteq> None)"

definition fd_head :: "fork_database \<Rightarrow> bool \<Rightarrow> block_state option" where
  "fd_head db include_root = (case fd_index db of [] \<Rightarrow> (if include_root then fd_root db else None) | b # _ \<Rightarrow> Some b)"

text \<open>\<^verbatim>\<open>for (auto i = index.find(h); i != index.end(); i = index.find((*i)->previous()))\<close>, collecting the blocks.\<close>

partial_function (option) branch_loop :: "block_state list \<Rightarrow> block_id_type \<Rightarrow> block_state list option" where
  "branch_loop idx h = (case index_find idx h of
     None \<Rightarrow> Some []
   | Some b \<Rightarrow> do { r \<leftarrow> branch_loop idx (bs_previous b); Some (b # r) })"

definition fetch_branch :: "fork_database \<Rightarrow> block_id_type \<Rightarrow> block_num_type \<Rightarrow> block_state list res" where
  "fetch_branch db h trim_after_block_num =
     bind_res (returning (map_option Inr (branch_loop (fd_index db) h))) (\<lambda>r.
     Inr (filter (\<lambda>b. bs_block_num b \<le> trim_after_block_num) r))"

definition fetch_branch_upto :: "fork_database \<Rightarrow> block_id_type \<Rightarrow> block_id_type \<Rightarrow> block_state list res" where
  "fetch_branch_upto db h b =
     bind_res (returning (map_option Inr (branch_loop (fd_index db) h))) (\<lambda>r. Inr (dropWhile (\<lambda>x. bs_id x \<noteq> b) r))"

definition fetch_block_branch :: "fork_database \<Rightarrow> block_id_type \<Rightarrow> block_num_type \<Rightarrow> signed_block list res" where
  "fetch_block_branch db h trim_after_block_num = bind_res (fetch_branch db h trim_after_block_num) (\<lambda>r. Inr (map bs_block r))"

definition fetch_full_branch :: "fork_database \<Rightarrow> block_id_type \<Rightarrow> block_header_state option list res" where
  "fetch_full_branch db h =
     bind_res (returning (map_option Inr (branch_loop (fd_index db) h))) (\<lambda>r.
     Inr (map (\<lambda>b. Some (bhs b)) r @ [map_option bhs (fd_root db)]))"

definition fetch_branch_from_head :: "fork_database \<Rightarrow> signed_block list res" where
  "fetch_branch_from_head db = (case fd_head db False of None \<Rightarrow> Inr [] | Some b \<Rightarrow> fetch_block_branch db (bs_id b) (- 1))"

partial_function (option) search_loop :: "block_state list \<Rightarrow> block_num_type \<Rightarrow> block_id_type \<Rightarrow> block_state option option" where
  "search_loop idx n h = (case index_find idx h of
     None \<Rightarrow> Some None
   | Some b \<Rightarrow> if bs_block_num b = n then Some (Some b) else search_loop idx n (bs_previous b))"

definition search_on_branch :: "fork_database \<Rightarrow> block_id_type \<Rightarrow> block_num_type \<Rightarrow> bool \<Rightarrow> block_state option res" where
  "search_on_branch db h n include_root = (case fd_root db of
     None \<Rightarrow> Inr None
   | Some r \<Rightarrow>
       if include_root \<and> bs_id r = h \<and> bs_block_num r = n then Inr (Some r)
       else if n \<le> bs_block_num r then Inr None
       else returning (map_option Inr (search_loop (fd_index db) n h)))"

definition search_on_head_branch :: "fork_database \<Rightarrow> block_num_type \<Rightarrow> bool \<Rightarrow> block_state option res" where
  "search_on_head_branch db n include_root = (case fd_head db include_root of
     None \<Rightarrow> Inr None | Some b \<Rightarrow> search_on_branch db (bs_id b) n include_root)"

text \<open>\<^verbatim>\<open>validated_block_exists\<close>: \<open>Inl\<close> is a return inside the loop, \<open>Inr\<close> its end with \<^verbatim>\<open>id_present\<close>.\<close>

partial_function (option) validated_loop :: "block_state list \<Rightarrow> block_id_type \<Rightarrow> bool \<Rightarrow> block_id_type \<Rightarrow> (bool + bool) option" where
  "validated_loop idx claimed_id id_present i = (case index_find idx i of
     None \<Rightarrow> Some (Inr id_present)
   | Some b \<Rightarrow> if validated b then Some (Inl True) else if bs_id b = claimed_id then Some (Inl False)
              else validated_loop idx claimed_id True (bs_previous b))"

definition validated_block_exists :: "fork_database \<Rightarrow> block_id_type \<Rightarrow> block_id_type \<Rightarrow> bool res" where
  "validated_block_exists db i claimed_id =
     bind_res (returning (map_option Inr (validated_loop (fd_index db) claimed_id False i))) (\<lambda>e. case e of
       Inl v \<Rightarrow> Inr v
     | Inr id_present \<Rightarrow>
         bind_res (fd_root_of db) (\<lambda>r.
         bind_res (asserted (assert_opt (\<not> id_present \<or> num_from_id claimed_id \<le> num_from_id (bs_id r)))) (\<lambda>_.
         Inr (id_present \<or> i = bs_id r))))"

text \<open>
  \<^verbatim>\<open>fetch_branch_from\<close>: the two loops that bring both blocks to one height, and the loop that walks both branches until the
  previous blocks agree. Each gives the blocks pushed and the block reached.
\<close>

definition get_block_from :: "fork_database \<Rightarrow> block_state \<Rightarrow> block_id_type \<Rightarrow> block_state option" where
  "get_block_from db r i = (if i = bs_id r then Some r else get_block db i)"

partial_function (option) level_loop ::
    "fork_database \<Rightarrow> block_state \<Rightarrow> block_num_type \<Rightarrow> block_state \<Rightarrow> (block_state list \<times> block_state) res option" where
  "level_loop db r n b =
     (if bs_block_num b > n then
        case get_block_from db r (bs_previous b) of
          None \<Rightarrow> Some (Inl fork_db_block_not_found)
        | Some p \<Rightarrow> do { x \<leftarrow> level_loop db r n p; Some (bind_res x (\<lambda>(bs, t). Inr (b # bs, t))) }
      else Some (Inr ([], b)))"

partial_function (option) common_loop ::
    "fork_database \<Rightarrow> block_state \<Rightarrow> block_state \<Rightarrow> (block_state list \<times> block_state list) res option" where
  "common_loop db a b =
     (if bs_previous a \<noteq> bs_previous b then
        case (get_block db (bs_previous a), get_block db (bs_previous b)) of
          (Some a', Some b') \<Rightarrow> do { x \<leftarrow> common_loop db a' b'; Some (bind_res x (\<lambda>(as, bs). Inr (a # as, b # bs))) }
        | _ \<Rightarrow> Some (Inl fork_db_block_not_found)
      else Some (Inr ([a], [b])))"

definition fetch_branch_from :: "fork_database \<Rightarrow> block_id_type \<Rightarrow> block_id_type \<Rightarrow> (block_state list \<times> block_state list) res" where
  "fetch_branch_from db first second =
     bind_res (fd_root_of db) (\<lambda>r.
     case (get_block_from db r first, get_block_from db r second) of
       (Some f, Some s) \<Rightarrow>
         bind_res (returning (level_loop db r (bs_block_num s) f)) (\<lambda>(fs, f').
         bind_res (returning (level_loop db r (bs_block_num f') s)) (\<lambda>(ss, s').
         if bs_id f' = bs_id s' then Inr (fs, ss)
         else bind_res (returning (common_loop db f' s')) (\<lambda>(fs', ss'). Inr (fs @ fs', ss @ ss'))))
     | _ \<Rightarrow> Inl fork_db_block_not_found)"

section \<open>Writing\<close>

definition reset_root :: "block_state \<Rightarrow> fork_database \<Rightarrow> fork_database" where
  "reset_root r db = db\<lparr>fd_root := Some (r\<lparr>validated := True\<rparr>), fd_index := []\<rparr>"

definition set_pending_savanna_lib_id :: "block_id_type \<Rightarrow> fork_database \<Rightarrow> bool \<times> fork_database" where
  "set_pending_savanna_lib_id i db =
     (if num_from_id i > num_from_id (pending_savanna_lib_id db) then (True, db\<lparr>pending_savanna_lib_id := i\<rparr>) else (False, db))"

text \<open>The queue of \<^verbatim>\<open>remove\<close>: every entry is followed by the blocks built on it.\<close>

partial_function (option) remove_queue :: "block_state list \<Rightarrow> block_id_type list \<Rightarrow> block_id_type list option" where
  "remove_queue idx q = (case q of
     [] \<Rightarrow> Some []
   | i # q' \<Rightarrow> do { r \<leftarrow> remove_queue idx (q' @ map bs_id (index_children idx i)); Some (i # r) })"

definition fd_remove :: "block_id_type \<Rightarrow> fork_database \<Rightarrow> fork_database res" where
  "fd_remove i db =
     bind_res (returning (map_option Inr (remove_queue (fd_index db) [i]))) (\<lambda>q.
     Inr (db\<lparr>fd_index := fold index_erase q (fd_index db)\<rparr>))"

text \<open>The first loop of \<^verbatim>\<open>advance_root\<close> collects the identifiers of the ancestors up to the old root.\<close>

partial_function (option) ancestor_ids_loop :: "fork_database \<Rightarrow> block_state \<Rightarrow> block_state \<Rightarrow> block_id_type list res option" where
  "ancestor_ids_loop db r b = (case get_block db (bs_previous b) of
     None \<Rightarrow> Some (if bs_previous b = bs_id r then Inr [bs_previous b] else Inl fork_database_exception)
   | Some p \<Rightarrow> do { x \<leftarrow> ancestor_ids_loop db r p; Some (bind_res x (\<lambda>is. Inr (bs_previous b # is))) })"

fun remove_all :: "block_id_type list \<Rightarrow> fork_database \<Rightarrow> fork_database res" where
  "remove_all [] db = Inr db"
| "remove_all (i # is) db = bind_res (fd_remove i db) (remove_all is)"

definition advance_root :: "block_id_type \<Rightarrow> fork_database \<Rightarrow> fork_database res" where
  "advance_root i db = (case fd_root db of
     None \<Rightarrow> Inl fork_database_exception
   | Some r \<Rightarrow> (case get_block db i of
       None \<Rightarrow> Inl fork_database_exception
     | Some new_root \<Rightarrow>
         bind_res (eos_assert (validated new_root) fork_database_exception) (\<lambda>_.
         bind_res (returning (ancestor_ids_loop db r new_root)) (\<lambda>blocks_to_remove.
         bind_res (remove_all blocks_to_remove (db\<lparr>fd_index := index_erase i (fd_index db)\<rparr>)) (\<lambda>db'.
         Inr (db'\<lparr>fd_root := Some new_root\<rparr>))))))"

text \<open>
  The strong claim in a block moves the pending final block, before the block itself is looked at. The database keeps that
  change also when adding the block then fails.
\<close>

definition note_claim :: "block_state \<Rightarrow> fork_database \<Rightarrow> fork_database res" where
  "note_claim n db =
     (let qc_claim = extract_qc_claim n in
      if is_strong_qc qc_claim then
        bind_res (search_on_branch db (bs_previous n) (block_num qc_claim) False) (\<lambda>found. case found of
          None \<Rightarrow> Inr db
        | Some claimed \<Rightarrow>
            bind_res (asserted (latest_qc_claim (core (bhs claimed)))) (\<lambda>c.
            bind_res (asserted (get_block_reference (core (bhs claimed)) (block_num c))) (\<lambda>ref.
            Inr (snd (set_pending_savanna_lib_id (block_id ref) db)))))
      else Inr db)"

definition add_block ::
    "(block_timestamp_type \<Rightarrow> digest_type set \<Rightarrow> digest_type list \<Rightarrow> unit res) option \<Rightarrow> block_state \<Rightarrow> bool \<Rightarrow> fork_database \<Rightarrow>
     unit res \<times> fork_database" where
  "add_block validator n ignore_duplicate db = (case fd_root db of
     None \<Rightarrow> (Inl fork_database_exception, db)
   | Some r \<Rightarrow> (case note_claim n db of
       Inl e \<Rightarrow> (Inl e, db)
     | Inr db' \<Rightarrow> (case get_block_from db' r (bs_previous n) of
         None \<Rightarrow> (Inl unlinkable_block_exception, db')
       | Some prev_bh \<Rightarrow> (case (case validator of None \<Rightarrow> Inr ()
             | Some v \<Rightarrow> (case find_pfa (header_exts (bhs n)) of None \<Rightarrow> Inr ()
                 | Some fs \<Rightarrow> v (bhs_timestamp (bhs n)) (activated_protocol_features (bhs prev_bh)) fs)) of
           Inl e \<Rightarrow> (Inl fork_database_exception, db')
         | Inr _ \<Rightarrow> (let (inserted, idx) = index_insert n (fd_index db') in
             (eos_assert (ignore_duplicate \<or> inserted) fork_database_exception, db'\<lparr>fd_index := idx\<rparr>))))))"

text \<open>
  The blocks are shared: \<^verbatim>\<open>set_valid\<close> on a block state, called by the controller once the block is executed, is seen through the
  index and through the root.
\<close>

definition set_valid :: "bool \<Rightarrow> block_state \<Rightarrow> block_state" where
  "set_valid v b = b\<lparr>validated := v\<rparr>"

definition mark_valid :: "block_id_type \<Rightarrow> bool \<Rightarrow> fork_database \<Rightarrow> fork_database" where
  "mark_valid i v db =
     (let seen = (\<lambda>b. if bs_id b = i then set_valid v b else b) in
      db\<lparr>fd_root := map_option seen (fd_root db), fd_index := map seen (fd_index db)\<rparr>)"

text \<open>
  A packed block state, as the value of its reflected members with every other member at the value a default-constructed object
  has: the flags of the recorded votes, the extracted header extensions, the action root and the base digest are
  not in the file, and a shared pointer is written as what it points to. Unpacking rebuilds the flags and the extensions
  (\<^verbatim>\<open>reflector_init\<close>; the extensions of a header that does not validate raise) and allocates the proposer policies anew, from
  the address \<open>fresh\<close> on.
\<close>

definition pack_votes :: "votes_t \<Rightarrow> votes_t" where
  "pack_votes v = v\<lparr>processed := []\<rparr>"

definition pack_agg_sig :: "aggregating_qc_sig_t \<Rightarrow> aggregating_qc_sig_t" where
  "pack_agg_sig a = a\<lparr>agg_weak_votes := pack_votes (agg_weak_votes a), agg_strong_votes := pack_votes (agg_strong_votes a)\<rparr>"

definition unpack_agg_sig :: "aggregating_qc_sig_t \<Rightarrow> aggregating_qc_sig_t" where
  "unpack_agg_sig a = a\<lparr>agg_weak_votes := reflector_init (agg_weak_votes a), agg_strong_votes := reflector_init (agg_strong_votes a)\<rparr>"

definition pack_agg :: "aggregating_qc_t \<Rightarrow> aggregating_qc_t" where
  "pack_agg g = g\<lparr>active_agg := pack_agg_sig (active_agg g), pending_agg := map_option pack_agg_sig (pending_agg g)\<rparr>"

definition unpack_agg :: "aggregating_qc_t \<Rightarrow> aggregating_qc_t" where
  "unpack_agg g = g\<lparr>active_agg := unpack_agg_sig (active_agg g), pending_agg := map_option unpack_agg_sig (pending_agg g)\<rparr>"

definition place_policies :: "nat \<Rightarrow> nat \<Rightarrow> nat \<Rightarrow> block_header_state \<Rightarrow> block_header_state" where
  "place_policies i j k s =
     s\<lparr>active_proposer_policy := Ptr i (deref (active_proposer_policy s)),
       latest_proposed_proposer_policy := map_option (\<lambda>p. Ptr j (deref p)) (latest_proposed_proposer_policy s),
       latest_pending_proposer_policy := map_option (\<lambda>p. Ptr k (deref p)) (latest_pending_proposer_policy s)\<rparr>"

definition pack_block_state :: "block_state \<Rightarrow> block_state" where
  "pack_block_state b =
     b\<lparr>bhs := (place_policies 0 0 0 (bhs b))\<lparr>header_exts := []\<rparr>, aggregating_qc := pack_agg (aggregating_qc b),
       bs_action_mroot := sha256_zero, bs_base_digest := None\<rparr>"

definition unpack_block_state :: "ext_codec \<Rightarrow> nat \<Rightarrow> block_state \<Rightarrow> block_state res" where
  "unpack_block_state cod fresh b =
     bind_res (validate_and_extract_header_extensions cod (header (bhs b))) (\<lambda>exts.
     Inr (b\<lparr>bhs := (place_policies fresh (fresh + 1) (fresh + 2) (bhs b))\<lparr>header_exts := exts\<rparr>,
            aggregating_qc := unpack_agg (aggregating_qc b)\<rparr>))"

text \<open>
  \<^verbatim>\<open>close_impl\<close> and \<^verbatim>\<open>open_impl\<close> between the database and what is packed into the file, in its order: the pending
  identifier, the root, and the blocks with the worst first. A failure while reading leaves what was added before it.
\<close>

type_synonym fork_db_content = "block_id_type \<times> block_state \<times> block_state list"

definition close_impl :: "fork_database \<Rightarrow> (fork_db_content \<times> fork_database) res" where
  "close_impl db =
     bind_res (asserted (assert_opt (fd_root db \<noteq> None))) (\<lambda>_.
     bind_res (fd_root_of db) (\<lambda>r.
     Inr ((pending_savanna_lib_id db, pack_block_state r, map pack_block_state (rev (fd_index db))), db\<lparr>fd_index := []\<rparr>)))"

type_synonym feature_validator = "block_timestamp_type \<Rightarrow> digest_type set \<Rightarrow> digest_type list \<Rightarrow> unit res"

fun add_all :: "ext_codec \<Rightarrow> nat \<Rightarrow> feature_validator \<Rightarrow> block_state list \<Rightarrow> fork_database \<Rightarrow> unit res \<times> fork_database" where
  "add_all cod fresh v [] db = (Inr (), db)"
| "add_all cod fresh v (b # bs) db = (case unpack_block_state cod fresh b of
     Inl e \<Rightarrow> (Inl e, db)
   | Inr b' \<Rightarrow> (case add_block (Some v) b' False db of
       (Inl e, db') \<Rightarrow> (Inl e, db')
     | (Inr _, db') \<Rightarrow> add_all cod (fresh + 3) v bs db'))"

definition open_impl :: "ext_codec \<Rightarrow> nat \<Rightarrow> feature_validator \<Rightarrow> fork_db_content \<Rightarrow> fork_database \<Rightarrow> unit res \<times> fork_database" where
  "open_impl cod fresh v c db = (case c of (pending, r, bs) \<Rightarrow>
     let db1 = db\<lparr>pending_savanna_lib_id := pending\<rparr> in
     (case unpack_block_state cod fresh r of
        Inl e \<Rightarrow> (Inl e, db1)
      | Inr r' \<Rightarrow> add_all cod (fresh + 3) v bs (reset_root r' db1)))"

section \<open>Runs\<close>

text \<open>The calls that change a database; a block that is added has the number its predecessor gives it.\<close>

definition linked :: "block_state \<Rightarrow> bool" where
  "linked b \<longleftrightarrow> unat (num_from_id (bs_id b)) = Suc (unat (num_from_id (bs_previous b)))"

inductive fdb_step :: "fork_database \<Rightarrow> fork_database \<Rightarrow> bool" where
  step_reset: "bs_block_num r = num_from_id (bs_id r) \<Longrightarrow> fdb_step db (reset_root r db)"
| step_add: "linked n \<Longrightarrow> fdb_step db (snd (add_block v n ignore_duplicate db))"
| step_remove: "fd_remove i db = Inr db' \<Longrightarrow> fdb_step db db'"
| step_advance: "advance_root i db = Inr db' \<Longrightarrow> fdb_step db db'"
| step_pending: "fdb_step db (snd (set_pending_savanna_lib_id i db))"
| step_valid: "fdb_step db (mark_valid i v db)"
| step_close: "close_impl db = Inr (c, db') \<Longrightarrow> fdb_step db db'"

abbreviation empty_fork_db :: "block_id_type \<Rightarrow> fork_database" where
  "empty_fork_db i \<equiv> \<lparr>fd_root = None, pending_savanna_lib_id = i, fd_index = []\<rparr>"

inductive fdb_run :: "fork_database \<Rightarrow> bool" where
  run_new: "fdb_run (empty_fork_db i)"
| run_step: "fdb_run db \<Longrightarrow> fdb_step db db' \<Longrightarrow> fdb_run db'"

section \<open>Well-formed databases\<close>

definition fdb_ok :: "fork_database \<Rightarrow> block_state \<Rightarrow> bool" where
  "fdb_ok db r \<longleftrightarrow> fd_root db = Some r \<and> bs_block_num r = num_from_id (bs_id r) \<and> distinct (map bs_id (fd_index db)) \<and>
     bs_id r \<notin> bs_id ` set (fd_index db) \<and>
     (\<forall>b\<in>set (fd_index db). linked b \<and> (bs_previous b = bs_id r \<or> bs_previous b \<in> bs_id ` set (fd_index db))) \<and>
     sorted_wrt (\<lambda>a b. best_key b < best_key a) (fd_index db)"

lemma index_find_iff: "distinct (map bs_id idx) \<Longrightarrow> index_find idx i = Some b \<longleftrightarrow> b \<in> set idx \<and> bs_id b = i"
proof (induction idx)
  case (Cons a idx)
  then show ?case by (auto simp: index_find_def image_iff)
qed (simp add: index_find_def)

lemma index_find_None_iff: "index_find idx i = None \<longleftrightarrow> i \<notin> bs_id ` set idx"
  by (auto simp: index_find_def find_None_iff)

lemma linked_num:
  assumes "linked b"
  shows "bs_block_num b = num_from_id (bs_id b)"
proof -
  have "Suc (unat (num_from_id (bs_previous b))) < 2 ^ LENGTH(32)" using assms unat_bound[of "num_from_id (bs_id b)"] by (simp add: linked_def)
  from unat_Suc_no_wrap[OF this] show ?thesis using assms by (simp add: linked_def bhs_block_num_def word_unat_eq_iff)
qed

lemma fdb_okD:
  assumes "fdb_ok db r"
  shows "fd_root db = Some r" and "bs_block_num r = num_from_id (bs_id r)" and "distinct (map bs_id (fd_index db))"
    and "bs_id r \<notin> bs_id ` set (fd_index db)" and "b \<in> set (fd_index db) \<Longrightarrow> linked b"
    and "b \<in> set (fd_index db) \<Longrightarrow> bs_previous b = bs_id r \<or> bs_previous b \<in> bs_id ` set (fd_index db)"
    and "sorted_wrt (\<lambda>a b. best_key b < best_key a) (fd_index db)"
  using assms by (auto simp: fdb_ok_def)

text \<open>Every loop over the predecessors ends: the numbers in the identifiers decrease.\<close>

lemma branch_loop_total:
  assumes "\<forall>b\<in>set idx. linked b"
  shows "\<exists>bs. branch_loop idx h = Some bs"
proof (induction "unat (num_from_id h)" arbitrary: h rule: less_induct)
  case less
  show ?case
  proof (cases "index_find idx h")
    case None
    then show ?thesis by (subst branch_loop.simps) simp
  next
    case (Some b)
    then have "linked b" "bs_id b = h" using assms by (auto simp: index_find_def find_Some_iff)
    then have "unat (num_from_id (bs_previous b)) < unat (num_from_id h)" by (auto simp: linked_def)
    then obtain bs where "branch_loop idx (bs_previous b) = Some bs" using less by blast
    with Some show ?thesis by (subst branch_loop.simps) simp
  qed
qed

definition path :: "block_state list \<Rightarrow> block_id_type \<Rightarrow> block_state list" where
  "path idx h = the (branch_loop idx h)"

lemma path_unfold:
  assumes "\<forall>b\<in>set idx. linked b"
  shows "branch_loop idx h = Some (path idx h)"
    and "path idx h = (case index_find idx h of None \<Rightarrow> [] | Some b \<Rightarrow> b # path idx (bs_previous b))"
proof -
  show p: "branch_loop idx h = Some (path idx h)" for h using branch_loop_total[OF assms, of h] by (auto simp: path_def)
  show "path idx h = (case index_find idx h of None \<Rightarrow> [] | Some b \<Rightarrow> b # path idx (bs_previous b))"
  proof (cases "index_find idx h")
    case None
    then show ?thesis unfolding path_def by (subst branch_loop.simps) simp
  next
    case (Some b)
    have "branch_loop idx h = Some (b # path idx (bs_previous b))"
      using Some p[of "bs_previous b"] by (subst branch_loop.simps) simp
    with Some show ?thesis by (simp add: path_def)
  qed
qed

lemma path_induct [consumes 1, case_names stop step]:
  assumes "\<forall>b\<in>set idx. linked b"
    and "\<And>h. index_find idx h = None \<Longrightarrow> P h"
    and "\<And>h b. index_find idx h = Some b \<Longrightarrow> b \<in> set idx \<Longrightarrow> bs_id b = h \<Longrightarrow> P (bs_previous b) \<Longrightarrow> P h"
  shows "P h"
proof (induction "unat (num_from_id h)" arbitrary: h rule: less_induct)
  case less
  show ?case
  proof (cases "index_find idx h")
    case (Some b)
    then have b: "b \<in> set idx" "bs_id b = h" by (auto simp: index_find_def find_Some_iff)
    then have "linked b" using assms(1) by blast
    then have "unat (num_from_id (bs_previous b)) < unat (num_from_id h)" using b(2) by (auto simp: linked_def)
    from assms(3)[OF Some b less[OF this]] show ?thesis .
  qed (rule assms(2))
qed

text \<open>The branch of a block: its blocks down to the first one after the root, with consecutive numbers.\<close>

lemma path_spec:
  assumes "fdb_ok db r" and "h \<in> insert (bs_id r) (bs_id ` set (fd_index db))"
  shows "set (path (fd_index db) h) \<subseteq> set (fd_index db)"
    and "map bs_id (path (fd_index db) h) @ [bs_id r] = h # map bs_previous (path (fd_index db) h)"
    and "unat (num_from_id h) = unat (num_from_id (bs_id r)) + length (path (fd_index db) h)"
proof -
  note ok = fdb_okD[OF assms(1)]
  have l: "\<forall>b\<in>set (fd_index db). linked b" using ok(5) by blast
  note pu = path_unfold(2)[OF l]
  have "h \<in> insert (bs_id r) (bs_id ` set (fd_index db)) \<longrightarrow> set (path (fd_index db) h) \<subseteq> set (fd_index db) \<and>
      map bs_id (path (fd_index db) h) @ [bs_id r] = h # map bs_previous (path (fd_index db) h) \<and>
      unat (num_from_id h) = unat (num_from_id (bs_id r)) + length (path (fd_index db) h)"
    using l
  proof (induction h rule: path_induct)
    case (stop h)
    then have "path (fd_index db) h = []" using pu[of h] by simp
    moreover have "h \<notin> bs_id ` set (fd_index db)" using stop unfolding index_find_None_iff .
    ultimately show ?case by auto
  next
    case (step h b)
    have prev: "bs_previous b \<in> insert (bs_id r) (bs_id ` set (fd_index db))" using ok(6)[OF step(2)] by auto
    have "path (fd_index db) h = b # path (fd_index db) (bs_previous b)" using step(1) pu[of h] by simp
    then show ?case using step(2-4) prev ok(5)[OF step(2)] by (auto simp: linked_def)
  qed
  then show "set (path (fd_index db) h) \<subseteq> set (fd_index db)"
    "map bs_id (path (fd_index db) h) @ [bs_id r] = h # map bs_previous (path (fd_index db) h)"
    "unat (num_from_id h) = unat (num_from_id (bs_id r)) + length (path (fd_index db) h)"
    using assms(2) by auto
qed

section \<open>Ancestors\<close>

definition idx_ok :: "block_state list \<Rightarrow> bool" where
  "idx_ok idx \<longleftrightarrow> distinct (map bs_id idx) \<and> (\<forall>b\<in>set idx. linked b)"

lemma fdb_ok_idx: "fdb_ok db r \<Longrightarrow> idx_ok (fd_index db)"
  by (simp add: fdb_ok_def idx_ok_def)

lemma idx_ok_filter: "idx_ok idx \<Longrightarrow> idx_ok (filter P idx)"
  by (auto simp: idx_ok_def distinct_map_filter)

lemma idx_okD:
  assumes "idx_ok idx"
  shows "\<forall>b\<in>set idx. linked b" and "a \<in> set idx \<Longrightarrow> b \<in> set idx \<Longrightarrow> bs_id a = bs_id b \<Longrightarrow> a = b"
    and "b \<in> set idx \<Longrightarrow> index_find idx (bs_id b) = Some b"
  using assms index_find_iff[of idx] by (auto simp: idx_ok_def dest: inj_onD simp: distinct_map)

lemma path_ids:
  assumes "idx_ok idx"
  shows "set (path idx h) \<subseteq> set idx \<and> (\<exists>z. z \<notin> bs_id ` set idx \<and> map bs_id (path idx h) @ [z] = h # map bs_previous (path idx h))"
  using idx_okD(1)[OF assms]
proof (induction h rule: path_induct)
  case (stop h)
  then have "path idx h = []" using path_unfold(2)[OF idx_okD(1)[OF assms], of h] by simp
  moreover have "h \<notin> bs_id ` set idx" using stop unfolding index_find_None_iff .
  ultimately show ?case by auto
next
  case (step h b)
  have "path idx h = b # path idx (bs_previous b)" using step(1) path_unfold(2)[OF idx_okD(1)[OF assms], of h] by simp
  then show ?case using step(2-4) by auto
qed

text \<open>The identifiers of the proper ancestors of a block, down to the first that is not in the index.\<close>

definition anc_ids :: "block_state list \<Rightarrow> block_state \<Rightarrow> block_id_type set" where
  "anc_ids idx b = bs_previous ` set (path idx (bs_id b))"

lemma anc_ids_step:
  assumes "idx_ok idx" and "b \<in> set idx"
  shows "anc_ids idx b = insert (bs_previous b) (case index_find idx (bs_previous b) of None \<Rightarrow> {} | Some p \<Rightarrow> anc_ids idx p)"
proof -
  note pu = path_unfold(2)[OF idx_okD(1)[OF assms(1)]]
  have b: "path idx (bs_id b) = b # path idx (bs_previous b)" using pu[of "bs_id b"] idx_okD(3)[OF assms] by simp
  show ?thesis
  proof (cases "index_find idx (bs_previous b)")
    case None
    then show ?thesis using b pu[of "bs_previous b"] by (simp add: anc_ids_def)
  next
    case (Some p)
    then have "bs_id p = bs_previous b" by (auto simp: index_find_def find_Some_iff)
    with Some b show ?thesis by (simp add: anc_ids_def)
  qed
qed

lemma anc_ids_child:
  assumes "idx_ok idx" and "b \<in> set idx"
  shows "i \<in> anc_ids idx b \<longleftrightarrow> (\<exists>c\<in>set (index_children idx i). c = b \<or> bs_id c \<in> anc_ids idx b)"
proof -
  obtain z where z: "z \<notin> bs_id ` set idx" "map bs_id (path idx (bs_id b)) @ [z] = bs_id b # map bs_previous (path idx (bs_id b))"
    and sub: "set (path idx (bs_id b)) \<subseteq> set idx" using path_ids[OF assms(1), of "bs_id b"] by blast
  from arg_cong[OF z(2), of set] have ids: "insert z (bs_id ` set (path idx (bs_id b))) = insert (bs_id b) (anc_ids idx b)"
    by (simp add: anc_ids_def)
  have b: "b \<in> set (path idx (bs_id b))"
    using path_unfold(2)[OF idx_okD(1)[OF assms(1)], of "bs_id b"] idx_okD(3)[OF assms] by simp
  show ?thesis
  proof
    assume "i \<in> anc_ids idx b"
    then obtain c where c: "c \<in> set (path idx (bs_id b))" "i = bs_previous c" by (auto simp: anc_ids_def)
    then have "c \<in> set idx" "bs_id c \<in> insert (bs_id b) (anc_ids idx b)" using sub ids by auto
    then show "\<exists>c\<in>set (index_children idx i). c = b \<or> bs_id c \<in> anc_ids idx b"
      using c(2) idx_okD(2)[OF assms(1) _ assms(2)] by (auto simp: index_children_def)
  next
    assume "\<exists>c\<in>set (index_children idx i). c = b \<or> bs_id c \<in> anc_ids idx b"
    then obtain c where c: "c \<in> set idx" "bs_previous c = i" "c = b \<or> bs_id c \<in> anc_ids idx b" by (auto simp: index_children_def)
    then have "bs_id c \<in> bs_id ` set (path idx (bs_id b))" using ids z(1) b by auto
    then obtain c' where "c' \<in> set (path idx (bs_id b))" "bs_id c' = bs_id c" by auto
    then have "c \<in> set (path idx (bs_id b))" using idx_okD(2)[OF assms(1) _ c(1)] sub by blast
    then show "i \<in> anc_ids idx b" using c(2) by (auto simp: anc_ids_def)
  qed
qed

lemma anc_ids_num:
  assumes "idx_ok idx" and "b \<in> set idx" and "i \<in> anc_ids idx b"
  shows "unat (num_from_id i) < unat (num_from_id (bs_id b))"
proof -
  have "b \<in> set idx \<longrightarrow> (\<forall>i\<in>anc_ids idx b. unat (num_from_id i) < unat (num_from_id (bs_id b)))" if "bs_id b = h" for h b
    using idx_okD(1)[OF assms(1)] that
  proof (induction h arbitrary: b rule: path_induct)
    case (stop h)
    then show ?case by (auto simp: index_find_None_iff)
  next
    case (step h b')
    have l: "b \<in> set idx \<Longrightarrow> linked b" using idx_okD(1)[OF assms(1)] by blast
    have "b \<in> set idx \<Longrightarrow> b' = b" using step idx_okD(2)[OF assms(1)] by blast
    then show ?case
      using step(4) l anc_ids_step[OF assms(1), of b]
      by (auto simp: linked_def index_find_def find_Some_iff split: option.splits) (metis Suc_lessD less_Suc_eq nth_mem)+
  qed
  then show ?thesis using assms by blast
qed

section \<open>Removing\<close>

definition queue_rank :: "block_id_type \<Rightarrow> nat" where
  "queue_rank i = 2 ^ 32 - unat (num_from_id i)"

lemma queue_decreases:
  assumes "idx_ok idx"
  shows "(mset (map queue_rank (q @ map bs_id (index_children idx i))), mset (map queue_rank (i # q))) \<in> mult less_than"
proof -
  have "queue_rank (bs_id c) < queue_rank i" if "c \<in> set (index_children idx i)" for c
  proof -
    have "linked c" "bs_previous c = i" using that idx_okD(1)[OF assms] by (auto simp: index_children_def)
    then show ?thesis using unat_bound[of "num_from_id (bs_id c)"] by (simp add: queue_rank_def linked_def)
  qed
  then have "\<forall>k. k \<in># mset (map queue_rank (map bs_id (index_children idx i))) \<longrightarrow> (k, queue_rank i) \<in> less_than" by auto
  then have "(mset (map queue_rank q) + mset (map queue_rank (map bs_id (index_children idx i))),
      add_mset (queue_rank i) (mset (map queue_rank q))) \<in> mult1 less_than"
    unfolding mult1_def by blast
  then show ?thesis by (simp add: mult_def r_into_trancl')
qed

lemma remove_queue_spec:
  assumes "idx_ok idx"
  shows "\<exists>res. remove_queue idx q = Some res \<and>
    set res = set q \<union> bs_id ` {b\<in>set idx. anc_ids idx b \<inter> set q \<noteq> {}}"
proof (induction "mset (map queue_rank q)" arbitrary: q rule: wf_induct_rule[OF wf_mult[OF wf_less_than]])
  case (1 q)
  show ?case
  proof (cases q)
    case Nil
    then show ?thesis by (subst remove_queue.simps) simp
  next
    case (Cons i q')
    define q2 where "q2 = q' @ map bs_id (index_children idx i)"
    obtain res where res: "remove_queue idx q2 = Some res" "set res = set q2 \<union> bs_id ` {b\<in>set idx. anc_ids idx b \<inter> set q2 \<noteq> {}}"
      using 1[of q2] queue_decreases[OF assms, of q' i] by (auto simp: q2_def Cons)
    have "remove_queue idx q = Some (i # res)" using res(1) by (subst remove_queue.simps) (simp add: Cons q2_def)
    moreover have "set (i # res) = set q \<union> bs_id ` {b\<in>set idx. anc_ids idx b \<inter> set q \<noteq> {}}"
    proof -
      have "b \<in> set (index_children idx i) \<or> anc_ids idx b \<inter> set q2 \<noteq> {} \<longleftrightarrow> anc_ids idx b \<inter> set q \<noteq> {}"
        if "b \<in> set idx" for b
        using anc_ids_child[OF assms that, of i] that by (auto simp: Cons q2_def)
      moreover have "set (index_children idx i) \<subseteq> set idx" by (auto simp: index_children_def)
      ultimately have "bs_id ` {b\<in>set idx. anc_ids idx b \<inter> set q \<noteq> {}} =
          bs_id ` set (index_children idx i) \<union> bs_id ` {b\<in>set idx. anc_ids idx b \<inter> set q2 \<noteq> {}}" by blast
      then show ?thesis by (auto simp: res(2) q2_def Cons)
    qed
    ultimately show ?thesis by blast
  qed
qed

lemma fold_index_erase: "fold index_erase is idx = filter (\<lambda>b. bs_id b \<notin> set is) idx"
  by (induction "is" arbitrary: idx) (auto simp: index_erase_def intro: filter_cong)

text \<open>Exactly the block and the blocks built on it are removed.\<close>

lemma fd_remove_spec:
  assumes "idx_ok (fd_index db)"
  shows "fd_remove i db = Inr (db\<lparr>fd_index := filter (\<lambda>b. bs_id b \<noteq> i \<and> i \<notin> anc_ids (fd_index db) b) (fd_index db)\<rparr>)"
proof -
  obtain res where res: "remove_queue (fd_index db) [i] = Some res"
      "set res = insert i (bs_id ` {b\<in>set (fd_index db). i \<in> anc_ids (fd_index db) b})"
    using remove_queue_spec[OF assms, of "[i]"] by auto
  have "bs_id b \<notin> set res \<longleftrightarrow> bs_id b \<noteq> i \<and> i \<notin> anc_ids (fd_index db) b" if "b \<in> set (fd_index db)" for b
    using that idx_okD(2)[OF assms] by (auto simp: res(2))
  then have "filter (\<lambda>b. bs_id b \<notin> set res) (fd_index db) = filter (\<lambda>b. bs_id b \<noteq> i \<and> i \<notin> anc_ids (fd_index db) b) (fd_index db)"
    by (rule filter_cong[OF refl])
  then show ?thesis by (simp add: fd_remove_def res(1) fold_index_erase)
qed

lemma path_filter:
  assumes "idx_ok idx" and "\<And>b p. b \<in> set idx \<Longrightarrow> P b \<Longrightarrow> index_find idx (bs_previous b) = Some p \<Longrightarrow> P p"
    and "b \<in> set idx" and "P b"
  shows "anc_ids (filter P idx) b = anc_ids idx b"
proof -
  note okf = idx_ok_filter[OF assms(1), of P]
  have "\<forall>b\<in>set idx. bs_id b = h \<longrightarrow> P b \<longrightarrow> anc_ids (filter P idx) b = anc_ids idx b" for h
    using idx_okD(1)[OF assms(1)]
  proof (induction h rule: path_induct)
    case (stop h)
    then show ?case by (auto simp: index_find_None_iff)
  next
    case (step h b)
    have "anc_ids (filter P idx) b = anc_ids idx b" if "P b"
    proof (cases "index_find idx (bs_previous b)")
      case None
      then have "index_find (filter P idx) (bs_previous b) = None" by (auto simp: index_find_None_iff)
      with None show ?thesis using anc_ids_step[OF assms(1) step(2)] anc_ids_step[OF okf, of b] step(2) that by simp
    next
      case (Some p)
      then have p: "p \<in> set idx" "bs_id p = bs_previous b" "P p"
        using assms(2)[OF step(2) that Some] by (auto simp: index_find_def find_Some_iff)
      then have "index_find (filter P idx) (bs_previous b) = Some p" using idx_okD(3)[OF okf, of p] by simp
      with Some show ?thesis
        using step(4) p anc_ids_step[OF assms(1) step(2)] anc_ids_step[OF okf, of b] step(2) that by simp
    qed
    then show ?case using step(2,3) idx_okD(2)[OF assms(1)] by blast
  qed
  then show ?thesis using assms(3,4) by blast
qed

lemma anc_ids_parent:
  assumes "idx_ok idx" and "b \<in> set idx" and "index_find idx (bs_previous b) = Some p"
  shows "p \<in> set idx" and "bs_id p = bs_previous b" and "anc_ids idx b = insert (bs_id p) (anc_ids idx p)"
proof -
  show p: "p \<in> set idx" "bs_id p = bs_previous b" using assms(3) by (auto simp: index_find_def find_Some_iff)
  show "anc_ids idx b = insert (bs_id p) (anc_ids idx p)" using anc_ids_step[OF assms(1,2)] assms(3) p(2) by simp
qed

lemma remove_all_spec:
  "idx_ok (fd_index db) \<Longrightarrow> remove_all is db =
     Inr (db\<lparr>fd_index := filter (\<lambda>b. bs_id b \<notin> set is \<and> anc_ids (fd_index db) b \<inter> set is = {}) (fd_index db)\<rparr>)"
proof (induction "is" arbitrary: db)
  case (Cons i "is")
  let ?idx = "fd_index db"
  define P where "P = (\<lambda>b. bs_id b \<noteq> i \<and> i \<notin> anc_ids ?idx b)"
  define db' where "db' = db\<lparr>fd_index := filter P ?idx\<rparr>"
  have rem: "fd_remove i db = Inr db'" using fd_remove_spec[OF Cons.prems] by (simp add: db'_def P_def)
  have ok': "idx_ok (fd_index db')" using idx_ok_filter[OF Cons.prems] by (simp add: db'_def)
  have closed: "P p" if "b \<in> set ?idx" "P b" "index_find ?idx (bs_previous b) = Some p" for b p
    using that anc_ids_parent[OF Cons.prems that(1,3)] by (auto simp: P_def)
  have anc: "anc_ids (filter P ?idx) b = anc_ids ?idx b" if "b \<in> set ?idx" "P b" for b
    by (rule path_filter[where P = P, OF Cons.prems closed that])
  have "filter (\<lambda>b. bs_id b \<notin> set is \<and> anc_ids (filter P ?idx) b \<inter> set is = {}) (filter P ?idx) =
      filter (\<lambda>b. bs_id b \<notin> set (i # is) \<and> anc_ids ?idx b \<inter> set (i # is) = {}) ?idx"
    unfolding filter_filter
  proof (rule filter_cong[OF refl])
    fix b assume b: "b \<in> set ?idx"
    show "(P b \<and> bs_id b \<notin> set is \<and> anc_ids (filter P ?idx) b \<inter> set is = {}) =
        (bs_id b \<notin> set (i # is) \<and> anc_ids ?idx b \<inter> set (i # is) = {})"
      using anc[OF b] by (cases "P b") (auto simp: P_def)
  qed
  then show ?case using Cons.IH[OF ok'] by (simp add: rem db'_def)
qed (simp add: fork_database.defs)

lemma ancestor_ids_loop_spec:
  assumes "fdb_ok db r" and "b \<in> set (fd_index db)"
  shows "\<exists>is. ancestor_ids_loop db r b = Some (Inr is) \<and> set is = anc_ids (fd_index db) b"
proof -
  note ok = fdb_okD[OF assms(1)] and iok = fdb_ok_idx[OF assms(1)]
  have "\<forall>b\<in>set (fd_index db). bs_id b = h \<longrightarrow> (\<exists>is. ancestor_ids_loop db r b = Some (Inr is) \<and> set is = anc_ids (fd_index db) b)" for h
    using idx_okD(1)[OF iok]
  proof (induction h rule: path_induct)
    case (stop h)
    then show ?case by (auto simp: index_find_None_iff)
  next
    case (step h b)
    have "\<exists>is. ancestor_ids_loop db r b = Some (Inr is) \<and> set is = anc_ids (fd_index db) b"
    proof (cases "index_find (fd_index db) (bs_previous b)")
      case None
      then have "bs_previous b = bs_id r" using ok(6)[OF step(2)] unfolding index_find_None_iff by blast
      then show ?thesis using None anc_ids_step[OF iok step(2)] by (subst ancestor_ids_loop.simps) (simp add: get_block_def)
    next
      case (Some p)
      note p = anc_ids_parent[OF iok step(2) Some]
      with step(4) obtain is' where "ancestor_ids_loop db r p = Some (Inr is')" "set is' = anc_ids (fd_index db) p" by blast
      then show ?thesis using Some p by (subst ancestor_ids_loop.simps) (simp add: get_block_def)
    qed
    then show ?case using step(2,3) idx_okD(2)[OF iok] by blast
  qed
  then show ?thesis using assms(2) by blast
qed

lemma index_erase_idx: "idx_ok idx \<Longrightarrow> idx_ok (index_erase i idx)"
  unfolding index_erase_def by (rule idx_ok_filter)

text \<open>With the block \<open>i\<close> erased, the blocks above it see only blocks above it, and all others still reach the root.\<close>

lemma anc_ids_erased:
  assumes "fdb_ok db r" and "b \<in> set (fd_index db)" and "bs_id b \<noteq> i" and "i \<in> bs_id ` set (fd_index db)"
  shows "i \<in> anc_ids (fd_index db) b \<Longrightarrow> \<forall>j\<in>anc_ids (index_erase i (fd_index db)) b. unat (num_from_id i) \<le> unat (num_from_id j)"
    and "i \<notin> anc_ids (fd_index db) b \<Longrightarrow> bs_id r \<in> anc_ids (index_erase i (fd_index db)) b"
proof -
  let ?idx = "fd_index db" and ?e = "index_erase i (fd_index db)"
  note ok = fdb_okD[OF assms(1)] and iok = fdb_ok_idx[OF assms(1)]
  note eok = index_erase_idx[OF iok, of i]
  have mem: "b \<in> set ?e \<longleftrightarrow> b \<in> set ?idx \<and> bs_id b \<noteq> i" for b by (auto simp: index_erase_def)
  have "\<forall>b\<in>set ?idx. bs_id b = h \<longrightarrow> bs_id b \<noteq> i \<longrightarrow>
      (i \<in> anc_ids ?idx b \<longrightarrow> (\<forall>j\<in>anc_ids ?e b. unat (num_from_id i) \<le> unat (num_from_id j))) \<and>
      (i \<notin> anc_ids ?idx b \<longrightarrow> bs_id r \<in> anc_ids ?e b)" for h
    using idx_okD(1)[OF iok]
  proof (induction h rule: path_induct)
    case (stop h)
    then show ?case by (auto simp: index_find_None_iff)
  next
    case (step h b)
    have "(i \<in> anc_ids ?idx b \<longrightarrow> (\<forall>j\<in>anc_ids ?e b. unat (num_from_id i) \<le> unat (num_from_id j))) \<and>
      (i \<notin> anc_ids ?idx b \<longrightarrow> bs_id r \<in> anc_ids ?e b)" if bi: "bs_id b \<noteq> i"
    proof (cases "index_find ?idx (bs_previous b)")
      case None
      then have "index_find ?e (bs_previous b) = None" by (auto simp: index_find_None_iff index_erase_def)
      moreover have "bs_previous b = bs_id r" "bs_previous b \<noteq> i"
        using None ok(6)[OF step(2)] assms(4) ok(4) unfolding index_find_None_iff by auto
      ultimately show ?thesis using None anc_ids_step[OF iok step(2)] anc_ids_step[OF eok, of b] mem step(2) bi by auto
    next
      case (Some p)
      note p = anc_ids_parent[OF iok step(2) Some]
      show ?thesis
      proof (cases "bs_id p = i")
        case True
        then have "index_find ?e (bs_previous b) = None" using p(2) by (auto simp: index_find_None_iff index_erase_def)
        then show ?thesis using True p anc_ids_step[OF eok, of b] mem step(2) bi by auto
      next
        case False
        then have "index_find ?e (bs_previous b) = Some p" using idx_okD(3)[OF eok, of p] p mem by simp
        then have e: "anc_ids ?e b = insert (bs_id p) (anc_ids ?e p)" using anc_ids_parent(3)[OF eok, of b p] mem step(2) bi by blast
        have "unat (num_from_id i) \<le> unat (num_from_id (bs_id p))" if "i \<in> anc_ids ?idx p"
          using anc_ids_num[OF iok p(1) that] by simp
        then show ?thesis using step(4) p False e by auto
      qed
    qed
    then show ?case using step(2,3) idx_okD(2)[OF iok] by blast
  qed
  then show "i \<in> anc_ids (fd_index db) b \<Longrightarrow> \<forall>j\<in>anc_ids (index_erase i (fd_index db)) b. unat (num_from_id i) \<le> unat (num_from_id j)"
    and "i \<notin> anc_ids (fd_index db) b \<Longrightarrow> bs_id r \<in> anc_ids (index_erase i (fd_index db)) b"
    using assms(2,3) by blast+
qed

lemma root_below:
  assumes "fdb_ok db r" and "b \<in> set (fd_index db)"
  shows "unat (num_from_id (bs_id r)) < unat (num_from_id (bs_id b))" and "bs_id r \<in> anc_ids (fd_index db) b"
proof -
  note ok = fdb_okD[OF assms(1)] and iok = fdb_ok_idx[OF assms(1)]
  let ?p = "path (fd_index db) (bs_id b)"
  note spec = path_spec[OF assms(1), of "bs_id b"]
  have mem: "bs_id b \<in> insert (bs_id r) (bs_id ` set (fd_index db))" using assms(2) by blast
  have hd: "?p = b # path (fd_index db) (bs_previous b)"
    using path_unfold(2)[OF idx_okD(1)[OF iok], of "bs_id b"] idx_okD(3)[OF iok assms(2)] by simp
  then show "unat (num_from_id (bs_id r)) < unat (num_from_id (bs_id b))" using spec(3)[OF mem] by simp
  have "bs_id r = last (bs_id b # map bs_previous ?p)" using spec(2)[OF mem] by (metis last_snoc)
  also have "\<dots> \<in> anc_ids (fd_index db) b" using hd last_in_set[of "map bs_previous ?p"] by (simp add: anc_ids_def)
  finally show "bs_id r \<in> anc_ids (fd_index db) b" .
qed

definition above :: "block_state list \<Rightarrow> block_id_type \<Rightarrow> block_state list" where
  "above idx i = filter (\<lambda>b. i \<in> anc_ids idx b) idx"

lemma advance_root_spec:
  assumes "fdb_ok db r" and "get_block db i = Some n" and "validated n"
  shows "advance_root i db = Inr (db\<lparr>fd_root := Some n, fd_index := above (fd_index db) i\<rparr>)"
proof -
  let ?idx = "fd_index db" and ?e = "index_erase i (fd_index db)"
  note ok = fdb_okD[OF assms(1)] and iok = fdb_ok_idx[OF assms(1)]
  note eok = index_erase_idx[OF iok, of i]
  have n: "n \<in> set ?idx" "bs_id n = i" using assms(2) ok(3) by (auto simp: get_block_def index_find_iff)
  obtain js where anc_is: "ancestor_ids_loop db r n = Some (Inr js)" "set js = anc_ids ?idx n"
    using ancestor_ids_loop_spec[OF assms(1) n(1)] by blast
  have low: "unat (num_from_id j) < unat (num_from_id i)" if "j \<in> set js" for j
    using anc_ids_num[OF iok n(1)] that anc_is(2) n(2) by simp
  have root: "bs_id r \<in> set js" using root_below(2)[OF assms(1) n(1)] anc_is(2) by simp
  have "filter (\<lambda>b. bs_id b \<notin> set js \<and> anc_ids ?e b \<inter> set js = {}) ?e = above ?idx i"
    unfolding above_def
  proof -
    have "(bs_id b \<notin> set js \<and> anc_ids ?e b \<inter> set js = {} \<and> bs_id b \<noteq> i) = (i \<in> anc_ids ?idx b)" if b: "b \<in> set ?idx" for b
    proof (cases "bs_id b = i")
      case True
      then show ?thesis using anc_ids_num[OF iok b, of i] by auto
    next
      case False
      have i: "i \<in> bs_id ` set ?idx" using n by blast
      show ?thesis
      proof (cases "i \<in> anc_ids ?idx b")
        case True
        have "anc_ids ?e b \<inter> set js = {}" using anc_ids_erased(1)[OF assms(1) b False i True] low by fastforce
        moreover have "bs_id b \<notin> set js" using anc_ids_num[OF iok b True] low by force
        ultimately show ?thesis using True False by simp
      next
        case nin: False
        then show ?thesis using anc_ids_erased(2)[OF assms(1) b False i] root by blast
      qed
    qed
    then show "filter (\<lambda>b. bs_id b \<notin> set js \<and> anc_ids ?e b \<inter> set js = {}) ?e = filter (\<lambda>b. i \<in> anc_ids ?idx b) ?idx"
      unfolding index_erase_def[of i ?idx] filter_filter by (intro filter_cong[OF refl]) (auto simp: index_erase_def)
  qed
  then show ?thesis
    using assms(2,3) ok(1) anc_is(1) remove_all_spec[of "db\<lparr>fd_index := ?e\<rparr>" js] eok by (simp add: advance_root_def eos_assert_def)
qed

lemma above_mem: "idx_ok idx \<Longrightarrow> b \<in> set (above idx i) \<longleftrightarrow> b \<in> set idx \<and> i \<in> anc_ids idx b"
  by (auto simp: above_def)

lemma advance_root_ok:
  assumes "fdb_ok db r" and "get_block db i = Some n"
  shows "fdb_ok (db\<lparr>fd_root := Some n, fd_index := above (fd_index db) i\<rparr>) n"
proof -
  let ?idx = "fd_index db" and ?a = "above (fd_index db) i"
  note ok = fdb_okD[OF assms(1)] and iok = fdb_ok_idx[OF assms(1)]
  have n: "n \<in> set ?idx" "bs_id n = i" using assms(2) ok(3) by (auto simp: get_block_def index_find_iff)
  note mem = above_mem[OF iok]
  have "bs_previous b = i \<or> bs_previous b \<in> bs_id ` set ?a" if b: "b \<in> set ?a" for b
  proof (cases "index_find ?idx (bs_previous b)")
    case None
    then show ?thesis using anc_ids_step[OF iok, of b] b mem by auto
  next
    case (Some p)
    then show ?thesis using anc_ids_parent[OF iok _ Some] b mem[of b i] mem[of p i] by force
  qed
  moreover have "i \<notin> bs_id ` set ?a" using anc_ids_num[OF iok] mem by fastforce
  moreover have "bs_block_num n = num_from_id (bs_id n)" using linked_num ok(5) n by blast
  moreover have "distinct (map bs_id ?a)" "sorted_wrt (\<lambda>a b. best_key b < best_key a) ?a"
    using ok(3,7) by (auto simp: above_def distinct_map_filter sorted_wrt_filter)
  moreover have "linked b" if "b \<in> set ?a" for b using that mem ok(5) by blast
  ultimately show ?thesis using n(2) unfolding fdb_ok_def by simp
qed

section \<open>The common ancestor of two branches\<close>

definition known :: "fork_database \<Rightarrow> block_state \<Rightarrow> block_state \<Rightarrow> bool" where
  "known db r b \<longleftrightarrow> b = r \<or> b \<in> set (fd_index db)"

abbreviation num :: "block_state \<Rightarrow> nat" where "num b \<equiv> unat (num_from_id (bs_id b))"

lemma known_props:
  assumes "fdb_ok db r" and "known db r b"
  shows "bs_block_num b = num_from_id (bs_id b)" and "num r \<le> num b" and "num b = num r \<Longrightarrow> b = r"
    and "known db r c \<Longrightarrow> bs_id b = bs_id c \<Longrightarrow> b = c"
proof -
  note ok = fdb_okD[OF assms(1)]
  show "bs_block_num b = num_from_id (bs_id b)" using assms(2) ok(2) linked_num ok(5) by (auto simp: known_def)
  show "num r \<le> num b" "num b = num r \<Longrightarrow> b = r" using assms(2) root_below(1)[OF assms(1)] by (force simp: known_def)+
  show "known db r c \<Longrightarrow> bs_id b = bs_id c \<Longrightarrow> b = c"
    using assms(2) ok(4) idx_okD(2)[OF fdb_ok_idx[OF assms(1)]] by (auto simp: known_def image_iff)
qed

lemma known_block_num: "fdb_ok db r \<Longrightarrow> known db r b \<Longrightarrow> unat (bs_block_num b) = num b"
  using known_props(1) by simp

lemma known_prev:
  assumes "fdb_ok db r" and "b \<in> set (fd_index db)"
  obtains p where "get_block_from db r (bs_previous b) = Some p" and "known db r p" and "num b = Suc (num p)"
    and "bs_id p = bs_previous b" and "path (fd_index db) (bs_id b) = b # path (fd_index db) (bs_id p)"
proof -
  note ok = fdb_okD[OF assms(1)] and iok = fdb_ok_idx[OF assms(1)]
  have b: "path (fd_index db) (bs_id b) = b # path (fd_index db) (bs_previous b)"
    using path_unfold(2)[OF idx_okD(1)[OF iok], of "bs_id b"] idx_okD(3)[OF iok assms(2)] by simp
  have "\<exists>p. get_block_from db r (bs_previous b) = Some p \<and> known db r p \<and> bs_id p = bs_previous b"
    using ok(6)[OF assms(2)] idx_okD(3)[OF iok] by (auto simp: get_block_from_def get_block_def known_def)
  then obtain p where p: "get_block_from db r (bs_previous b) = Some p" "known db r p" "bs_id p = bs_previous b" by blast
  then have "num b = Suc (num p)" using ok(5)[OF assms(2)] by (simp add: linked_def)
  from that[OF p(1,2) this p(3)] b p(3) show thesis by simp
qed

lemma path_root: "fdb_ok db r \<Longrightarrow> path (fd_index db) (bs_id r) = []"
  using path_unfold(2)[OF idx_okD(1)[OF fdb_ok_idx], of db r "bs_id r"] iffD2[OF index_find_None_iff fdb_okD(4)[of db r]] by simp

lemma level_loop_spec:
  assumes "fdb_ok db r" and "known db r b" and "num r \<le> unat n"
  shows "\<exists>bs t. level_loop db r n b = Some (Inr (bs, t)) \<and> known db r t \<and>
    path (fd_index db) (bs_id b) = bs @ path (fd_index db) (bs_id t) \<and> num t = min (num b) (unat n) \<and> (bs = [] \<longleftrightarrow> num b \<le> unat n)"
  using assms(2)
proof (induction "num b" arbitrary: b rule: less_induct)
  case less
  note bn = known_block_num[OF assms(1) less.prems]
  show ?case
  proof (cases "unat n < num b")
    case True
    then have "b \<noteq> r" using assms(3) by auto
    then have mem: "b \<in> set (fd_index db)" using less.prems by (simp add: known_def)
    from known_prev[OF assms(1) this] obtain p where p: "get_block_from db r (bs_previous b) = Some p" "known db r p"
      "num b = Suc (num p)" "path (fd_index db) (bs_id b) = b # path (fd_index db) (bs_id p)" by blast
    from less.hyps[OF _ p(2)] p(3) obtain bs t where t: "level_loop db r n p = Some (Inr (bs, t))" "known db r t"
      "path (fd_index db) (bs_id p) = bs @ path (fd_index db) (bs_id t)" "num t = min (num p) (unat n)" by auto
    have "level_loop db r n b = Some (Inr (b # bs, t))"
      using True bn p(1) t(1) by (subst level_loop.simps) (simp add: word_less_nat_alt)
    then show ?thesis using t p(3,4) True by auto
  next
    case False
    then have "level_loop db r n b = Some (Inr ([], b))" using bn by (subst level_loop.simps) (simp add: word_less_nat_alt)
    then show ?thesis using less.prems False by auto
  qed
qed

lemma common_loop_spec:
  assumes "fdb_ok db r" and "a \<in> set (fd_index db)" and "b \<in> set (fd_index db)" and "num a = num b" and "bs_id a \<noteq> bs_id b"
  shows "\<exists>as bs c. common_loop db a b = Some (Inr (as, bs)) \<and> path (fd_index db) (bs_id a) = as @ c \<and>
    path (fd_index db) (bs_id b) = bs @ c \<and> as \<noteq> [] \<and> bs \<noteq> [] \<and> bs_id (last as) \<noteq> bs_id (last bs)"
  using assms(2-5)
proof (induction "num a" arbitrary: a b rule: less_induct)
  case less
  from known_prev[OF assms(1) less.prems(1)] obtain p where p: "get_block_from db r (bs_previous a) = Some p" "known db r p"
    "num a = Suc (num p)" "bs_id p = bs_previous a" "path (fd_index db) (bs_id a) = a # path (fd_index db) (bs_id p)" by blast
  from known_prev[OF assms(1) less.prems(2)] obtain q where q: "get_block_from db r (bs_previous b) = Some q" "known db r q"
    "num b = Suc (num q)" "bs_id q = bs_previous b" "path (fd_index db) (bs_id b) = b # path (fd_index db) (bs_id q)" by blast
  show ?case
  proof (cases "bs_previous a = bs_previous b")
    case True
    then have "common_loop db a b = Some (Inr ([a], [b]))" by (subst common_loop.simps) simp
    then show ?thesis using p(4,5) q(4,5) True less.prems(4) by fastforce
  next
    case False
    have pq: "num p = num q" using p(3) q(3) less.prems(3) by simp
    have "p \<noteq> r" "q \<noteq> r" using False p(4) q(4) pq known_props(3)[OF assms(1) p(2)] known_props(3)[OF assms(1) q(2)] by auto
    then have mem: "p \<in> set (fd_index db)" "q \<in> set (fd_index db)" using p(2) q(2) by (auto simp: known_def)
    have gb: "get_block db (bs_previous a) = Some p" "get_block db (bs_previous b) = Some q"
      using idx_okD(3)[OF fdb_ok_idx[OF assms(1)] mem(1)] idx_okD(3)[OF fdb_ok_idx[OF assms(1)] mem(2)] p(4) q(4)
      by (simp_all add: get_block_def)
    from less.hyps[OF _ mem pq] p(3,4) q(4) False obtain as bs c where
      c: "common_loop db p q = Some (Inr (as, bs))" "path (fd_index db) (bs_id p) = as @ c"
        "path (fd_index db) (bs_id q) = bs @ c" "as \<noteq> []" "bs \<noteq> []" "bs_id (last as) \<noteq> bs_id (last bs)" by auto
    have "common_loop db a b = Some (Inr (a # as, b # bs))" using False gb c(1) by (subst common_loop.simps) simp
    then show ?thesis using c p(5) q(5) by (intro exI[of _ "a # as"] exI[of _ "b # bs"] exI[of _ c]) simp
  qed
qed

lemma get_block_from_known:
  assumes "fdb_ok db r"
  shows "get_block_from db r i = Some b \<longleftrightarrow> known db r b \<and> bs_id b = i"
proof -
  note ok = fdb_okD[OF assms]
  show ?thesis using index_find_iff[OF ok(3), of i b] ok(4) unfolding get_block_from_def get_block_def known_def by (auto simp: image_iff)
qed

lemma fetch_branch_from_spec:
  assumes "fdb_ok db r" and "known db r f" and "known db r s"
  shows "\<exists>fs ss c. fetch_branch_from db (bs_id f) (bs_id s) = Inr (fs, ss) \<and> path (fd_index db) (bs_id f) = fs @ c \<and>
    path (fd_index db) (bs_id s) = ss @ c \<and> (fs = [] \<or> ss = [] \<or> bs_id (last fs) \<noteq> bs_id (last ss))"
proof -
  let ?path = "\<lambda>b. path (fd_index db) (bs_id b)"
  note root = fdb_okD(1)[OF assms(1)] and bn = known_block_num[OF assms(1)]
  have gb: "get_block_from db r (bs_id f) = Some f" "get_block_from db r (bs_id s) = Some s"
    using get_block_from_known[OF assms(1)] assms(2,3) by blast+
  have "num r \<le> unat (bs_block_num s)" using known_props(2)[OF assms(1,3)] bn[OF assms(3)] by simp
  from level_loop_spec[OF assms(1,2) this] obtain fs f' where f': "level_loop db r (bs_block_num s) f = Some (Inr (fs, f'))"
    "known db r f'" "?path f = fs @ ?path f'" "num f' = min (num f) (num s)" "fs = [] \<longleftrightarrow> num f \<le> num s"
    using bn[OF assms(3)] by auto
  have "num r \<le> unat (bs_block_num f')" using known_props(2)[OF assms(1) f'(2)] bn[OF f'(2)] by simp
  from level_loop_spec[OF assms(1,3) this] obtain ss s' where s': "level_loop db r (bs_block_num f') s = Some (Inr (ss, s'))"
    "known db r s'" "?path s = ss @ ?path s'" "num s' = min (num s) (num f')" "ss = [] \<longleftrightarrow> num s \<le> num f'"
    using bn[OF f'(2)] by auto
  have eq: "num f' = num s'" and e: "fs = [] \<or> ss = []" using f'(4,5) s'(4,5) by auto
  have run: "fetch_branch_from db (bs_id f) (bs_id s) =
      (if bs_id f' = bs_id s' then Inr (fs, ss) else bind_res (returning (common_loop db f' s')) (\<lambda>(fs', ss'). Inr (fs @ fs', ss @ ss')))"
    using root gb f'(1) s'(1) by (simp add: fetch_branch_from_def fd_root_of_def)
  show ?thesis
  proof (cases "bs_id f' = bs_id s'")
    case True
    then show ?thesis using run f'(3) s'(3) e by auto
  next
    case False
    then have "f' \<noteq> r" "s' \<noteq> r" using eq known_props(3)[OF assms(1) f'(2)] known_props(3)[OF assms(1) s'(2)] by auto
    then have "f' \<in> set (fd_index db)" "s' \<in> set (fd_index db)" using f'(2) s'(2) by (auto simp: known_def)
    from common_loop_spec[OF assms(1) this eq False] obtain as bs c where c: "common_loop db f' s' = Some (Inr (as, bs))"
      "?path f' = as @ c" "?path s' = bs @ c" "as \<noteq> []" "bs \<noteq> []" "bs_id (last as) \<noteq> bs_id (last bs)" by blast
    then show ?thesis using run False f'(3) s'(3)
      by (intro exI[of _ "fs @ as"] exI[of _ "ss @ bs"] exI[of _ c]) simp
  qed
qed

section \<open>The operations keep the database well formed\<close>

lemma index_place_set: "set (index_place n idx) = insert n (set idx)"
  by (induction idx) auto

lemma index_place_distinct:
  "distinct (map bs_id idx) \<Longrightarrow> bs_id n \<notin> bs_id ` set idx \<Longrightarrow> distinct (map bs_id (index_place n idx))"
  by (induction idx) (auto simp: index_place_set)

lemma index_place_sorted:
  "sorted_wrt (\<lambda>a b. best_key b < best_key a) idx \<Longrightarrow> bs_id n \<notin> bs_id ` set idx \<Longrightarrow>
   sorted_wrt (\<lambda>a b. best_key b < best_key a) (index_place n idx)"
proof (induction idx)
  case (Cons b idx)
  have "best_key b \<noteq> best_key n" using Cons.prems(2) by (auto simp: best_key_def)
  then show ?case using Cons by (auto simp: index_place_set)
qed simp

lemma fdb_ok_pending: "fdb_ok (db\<lparr>pending_savanna_lib_id := i\<rparr>) r \<longleftrightarrow> fdb_ok db r"
  by (simp add: fdb_ok_def)

lemma set_pending_ok: "fdb_ok (snd (set_pending_savanna_lib_id i db)) r \<longleftrightarrow> fdb_ok db r"
  by (simp add: set_pending_savanna_lib_id_def fdb_ok_pending)

lemma note_claim_frame:
  assumes "note_claim n db = Inr db'"
  shows "fd_root db' = fd_root db \<and> fd_index db' = fd_index db"
  using assms unfolding note_claim_def
  by (auto simp: Let_def bind_res_def set_pending_savanna_lib_id_def split: if_splits sum.splits option.splits)

lemma fdb_ok_frame: "fd_root db' = fd_root db \<and> fd_index db' = fd_index db \<Longrightarrow> fdb_ok db' r \<longleftrightarrow> fdb_ok db r"
  by (simp add: fdb_ok_def)

lemma insert_ok:
  assumes "fdb_ok db r" and "linked n" and "get_block_from db r (bs_previous n) = Some p"
  shows "fdb_ok (db\<lparr>fd_index := snd (index_insert n (fd_index db))\<rparr>) r"
proof (cases "index_find (fd_index db) (bs_id n) = None")
  case True
  note ok = fdb_okD[OF assms(1)]
  from True have new: "bs_id n \<notin> bs_id ` set (fd_index db)" by (simp add: index_find_None_iff)
  have p: "known db r p" "bs_id p = bs_previous n" using assms(3) get_block_from_known[OF assms(1)] by auto
  then have "num r < num n" using known_props(2)[OF assms(1) p(1)] assms(2) by (simp add: linked_def)
  then have "bs_id r \<noteq> bs_id n" by auto
  moreover have "bs_previous n = bs_id r \<or> bs_previous n \<in> bs_id ` set (fd_index db)"
    using p unfolding known_def by (metis image_eqI)
  ultimately show ?thesis
    using True ok assms(2) index_place_distinct[OF ok(3) new] index_place_sorted[OF ok(7) new]
    unfolding fdb_ok_def by (auto simp: index_insert_def index_place_set)
next
  case False
  then show ?thesis using assms(1) by (auto simp: index_insert_def)
qed

lemma add_block_ok:
  assumes "fdb_ok db r" and "linked n"
  shows "fdb_ok (snd (add_block v n d db)) r"
proof (cases "note_claim n db")
  case (Inr db')
  from note_claim_frame[OF this] have ok': "fdb_ok db' r" using assms(1) fdb_ok_frame by blast
  note root = fdb_okD(1)[OF assms(1)]
  show ?thesis
  proof (cases "get_block_from db' r (bs_previous n)")
    case (Some p)
    from insert_ok[OF ok' assms(2) Some] show ?thesis
      using Inr Some root ok' by (auto simp: add_block_def split: sum.splits prod.splits)
  qed (use Inr root ok' in \<open>simp add: add_block_def\<close>)
qed (use assms(1) fdb_okD(1)[OF assms(1)] in \<open>simp add: add_block_def\<close>)

lemma fd_remove_ok:
  assumes "fdb_ok db r" and "fd_remove i db = Inr db'"
  shows "fdb_ok db' r"
proof -
  note ok = fdb_okD[OF assms(1)] and iok = fdb_ok_idx[OF assms(1)]
  let ?idx = "fd_index db" and ?P = "\<lambda>b. bs_id b \<noteq> i \<and> i \<notin> anc_ids (fd_index db) b"
  have db': "db' = db\<lparr>fd_index := filter ?P ?idx\<rparr>" using fd_remove_spec[OF iok, of i] assms(2) by simp
  have "bs_previous b = bs_id r \<or> bs_previous b \<in> bs_id ` set (filter ?P ?idx)" if b: "b \<in> set ?idx" "?P b" for b
  proof (cases "index_find ?idx (bs_previous b)")
    case None
    then show ?thesis using ok(6)[OF b(1)] unfolding index_find_None_iff by blast
  next
    case (Some p)
    note p = anc_ids_parent[OF iok b(1) Some]
    then have "p \<in> set (filter ?P ?idx)" using b(2) by auto
    from imageI[OF this, of bs_id] show ?thesis unfolding p(2) ..
  qed
  moreover have "distinct (map bs_id (filter ?P ?idx))" "sorted_wrt (\<lambda>a b. best_key b < best_key a) (filter ?P ?idx)"
    using ok(3,7) by (auto simp: distinct_map_filter sorted_wrt_filter)
  ultimately show ?thesis using ok db' unfolding fdb_ok_def by auto
qed

lemma reset_root_ok: "bs_block_num r = num_from_id (bs_id r) \<Longrightarrow> fdb_ok (reset_root r db) (r\<lparr>validated := True\<rparr>)"
  by (simp add: fdb_ok_def reset_root_def)

lemma mark_valid_ok:
  assumes "fdb_ok db r"
  shows "fdb_ok (mark_valid i v db) (if bs_id r = i then set_valid v r else r)"
proof -
  define seen where "seen = (\<lambda>b. if bs_id b = i then set_valid v b else b)"
  have seen: "bs_id (seen b) = bs_id b" "bs_previous (seen b) = bs_previous b" "linked (seen b) = linked b"
    "best_key (seen b) = best_key b" "bs_block_num (seen b) = bs_block_num b" for b
    by (simp_all add: seen_def set_valid_def linked_def best_key_def)
  have "fdb_ok (db\<lparr>fd_root := map_option seen (fd_root db), fd_index := map seen (fd_index db)\<rparr>) (seen r)"
    using assms by (simp add: fdb_ok_def seen sorted_wrt_map image_image comp_def)
  then show ?thesis by (simp add: mark_valid_def seen_def Let_def)
qed

text \<open>A database with no root is empty: nothing can be added to it.\<close>

definition fdb_inv :: "fork_database \<Rightarrow> bool" where
  "fdb_inv db \<longleftrightarrow> (case fd_root db of None \<Rightarrow> fd_index db = [] | Some r \<Rightarrow> fdb_ok db r)"

lemma fdb_inv_Some: "fdb_inv db \<Longrightarrow> fd_root db = Some r \<Longrightarrow> fdb_ok db r"
  by (simp add: fdb_inv_def)

lemma fdb_okI: "fdb_ok db r \<Longrightarrow> fdb_inv db"
  using fdb_okD(1) by (simp add: fdb_inv_def)

lemma fdb_step_inv:
  assumes "fdb_step db db'" and "fdb_inv db"
  shows "fdb_inv db'"
  using assms
proof cases
  case (step_reset r)
  then show ?thesis using reset_root_ok fdb_okI by blast
next
  case (step_add n v d)
  show ?thesis
  proof (cases "fd_root db")
    case None
    then have "db' = db" using step_add(1) by (simp add: add_block_def)
    then show ?thesis using assms(2) by simp
  next
    case (Some r)
    show ?thesis using fdb_okI[OF add_block_ok[OF fdb_inv_Some[OF assms(2) Some] step_add(2)]] step_add(1) by simp
  qed
next
  case (step_remove i)
  then show ?thesis
  proof (cases "fd_root db")
    case None
    then have "idx_ok (fd_index db)" "fd_index db = []" using assms(2) by (auto simp: fdb_inv_def idx_ok_def)
    then show ?thesis using fd_remove_spec[of db i] step_remove None by (auto simp: fdb_inv_def)
  next
    case (Some r)
    then show ?thesis using fd_remove_ok[OF fdb_inv_Some[OF assms(2)]] step_remove fdb_okI by blast
  qed
next
  case (step_advance i)
  then obtain r n where rn: "fd_root db = Some r" "get_block db i = Some n" "validated n"
    by (auto simp: advance_root_def eos_assert_def bind_res_def split: option.splits if_splits)
  then show ?thesis
    using advance_root_spec[OF fdb_inv_Some[OF assms(2)]] advance_root_ok[OF fdb_inv_Some[OF assms(2)]] step_advance fdb_okI
    by (metis sum.inject(2))
next
  case (step_pending i)
  then show ?thesis using assms(2) by (auto simp: fdb_inv_def set_pending_savanna_lib_id_def fdb_ok_pending split: option.splits)
next
  case (step_valid i v)
  show ?thesis
  proof (cases "fd_root db")
    case None
    then show ?thesis using assms(2) step_valid by (simp add: fdb_inv_def mark_valid_def Let_def)
  next
    case (Some r)
    show ?thesis using fdb_okI[OF mark_valid_ok[OF fdb_inv_Some[OF assms(2) Some]]] step_valid by simp
  qed
next
  case (step_close c)
  then show ?thesis using assms(2)
    by (auto simp: close_impl_def fdb_inv_def fdb_ok_def fd_root_of_def assert_opt_def bind_res_def split: option.splits sum.splits)
qed

lemma fdb_run_inv: "fdb_run db \<Longrightarrow> fdb_inv db"
  by (induction rule: fdb_run.induct) (auto simp: fdb_inv_def[of "empty_fork_db _"] intro: fdb_step_inv)

section \<open>What the reading operations return\<close>

abbreviation whole_branch :: "fork_database \<Rightarrow> block_id_type \<Rightarrow> block_state list res" where
  "whole_branch db h \<equiv> fetch_branch db h (- 1)"

lemma run_idx_ok:
  assumes "fdb_run db"
  shows "idx_ok (fd_index db)"
  using fdb_run_inv[OF assms] fdb_ok_idx by (cases "fd_root db") (auto simp: fdb_inv_def idx_ok_def)

lemma fetch_branch_path:
  assumes "idx_ok (fd_index db)"
  shows "fetch_branch db h n = Inr (filter (\<lambda>b. bs_block_num b \<le> n) (path (fd_index db) h))"
    and "whole_branch db h = Inr (path (fd_index db) h)"
  using path_unfold(1)[OF idx_okD(1)[OF assms], of h] word_order.extremum
  by (simp_all add: fetch_branch_def)

lemma search_loop_spec:
  assumes "idx_ok idx"
  shows "search_loop idx n h = Some (find (\<lambda>b. bs_block_num b = n) (path idx h))"
  using idx_okD(1)[OF assms]
proof (induction h rule: path_induct)
  case (stop h)
  then show ?case using path_unfold(2)[OF idx_okD(1)[OF assms], of h] by (subst search_loop.simps) simp
next
  case (step h b)
  then show ?case using path_unfold(2)[OF idx_okD(1)[OF assms], of h] by (subst search_loop.simps) simp
qed

lemma search_on_branch_spec:
  assumes "idx_ok (fd_index db)" and "fd_root db = Some r"
  shows "search_on_branch db h n include_root =
    Inr (if include_root \<and> bs_id r = h \<and> bs_block_num r = n then Some r else if n \<le> bs_block_num r then None
         else find (\<lambda>b. bs_block_num b = n) (path (fd_index db) h))"
  using assms(2) search_loop_spec[OF assms(1)] by (simp add: search_on_branch_def)

text \<open>The blocks up to the claimed one; all of the branch when the claimed block is not in it.\<close>

fun upto_id :: "block_id_type \<Rightarrow> block_state list \<Rightarrow> block_state list" where
  "upto_id c [] = []"
| "upto_id c (b # bs) = (if bs_id b = c then [b] else b # upto_id c bs)"

lemma validated_loop_spec:
  assumes "idx_ok idx"
  shows "validated_loop idx c p h = Some (
    if \<exists>b\<in>set (upto_id c (path idx h)). validated b then Inl True
    else if c \<in> bs_id ` set (path idx h) then Inl False else Inr (p \<or> path idx h \<noteq> []))"
  using idx_okD(1)[OF assms]
proof (induction h arbitrary: p rule: path_induct)
  case (stop h)
  then show ?case using path_unfold(2)[OF idx_okD(1)[OF assms], of h] by (subst validated_loop.simps) simp
next
  case (step h b)
  then show ?case using path_unfold(2)[OF idx_okD(1)[OF assms], of h] by (subst validated_loop.simps) auto
qed

lemma validated_block_exists_total:
  assumes "idx_ok (fd_index db)" and "fd_root db = Some r"
  shows "validated_block_exists db i c \<noteq> Inl no_termination"
  using assms validated_loop_spec[OF assms(1), of c False i]
  by (auto simp: validated_block_exists_def fd_root_of_def asserted_def assert_opt_def split: option.splits)

text \<open>On a branch the numbers fall by one, so the blocks up to the claimed one are those that are not older.\<close>

lemma upto_id_num:
  assumes "fdb_ok db r" and "c \<in> bs_id ` set (path (fd_index db) h)"
  shows "set (upto_id c (path (fd_index db) h)) = {b\<in>set (path (fd_index db) h). num_from_id c \<le> num_from_id (bs_id b)}"
proof -
  note iok = fdb_ok_idx[OF assms(1)]
  have "c \<in> bs_id ` set (path (fd_index db) h) \<longrightarrow>
      set (upto_id c (path (fd_index db) h)) = {b\<in>set (path (fd_index db) h). num_from_id c \<le> num_from_id (bs_id b)}"
    using idx_okD(1)[OF iok]
  proof (induction h rule: path_induct)
    case (stop h)
    then show ?case using path_unfold(2)[OF idx_okD(1)[OF iok], of h] by simp
  next
    case (step h b)
    let ?t = "path (fd_index db) (bs_previous b)"
    have u: "path (fd_index db) h = b # ?t" using step(1) path_unfold(2)[OF idx_okD(1)[OF iok], of h] by simp
    have down: "num x < num b" if "x \<in> set ?t" for x
    proof -
      obtain z where "map bs_id (path (fd_index db) (bs_id b)) @ [z] = bs_id b # map bs_previous (path (fd_index db) (bs_id b))"
        using path_ids[OF iok, of "bs_id b"] by blast
      then have "map bs_id ?t @ [z] = map bs_previous (path (fd_index db) (bs_id b))" using u step(3) by simp
      from arg_cong[OF this, of set] have "bs_id x \<in> anc_ids (fd_index db) b" using that by (auto simp: anc_ids_def)
      from anc_ids_num[OF iok step(2) this] show ?thesis .
    qed
    show ?case
    proof (cases "bs_id b = c")
      case True
      have "\<not> num_from_id c \<le> num_from_id (bs_id x)" if "x \<in> set ?t" for x
        using down[OF that] True by (simp add: word_le_nat_alt)
      then show ?thesis using u True by auto
    next
      case False
      have "num_from_id c \<le> num_from_id (bs_id b)" if "c \<in> bs_id ` set ?t"
        using that down by (force simp: word_le_nat_alt)
      then show ?thesis using u False step(4) by auto
    qed
  qed
  with assms(2) show ?thesis by blast
qed

lemma remove_all_frame: "remove_all js db = Inr db' \<Longrightarrow> pending_savanna_lib_id db' = pending_savanna_lib_id db"
  by (induction js arbitrary: db) (auto simp: fd_remove_def bind_res_def split: sum.splits)

lemma note_claim_pending:
  "note_claim n db = Inr db' \<Longrightarrow> num_from_id (pending_savanna_lib_id db) \<le> num_from_id (pending_savanna_lib_id db')"
  unfolding note_claim_def
  by (auto simp: Let_def bind_res_def set_pending_savanna_lib_id_def split: if_splits sum.splits option.splits)

lemma add_block_pending: "num_from_id (pending_savanna_lib_id db) \<le> num_from_id (pending_savanna_lib_id (snd (add_block v n d db)))"
  using note_claim_pending[of n db] by (auto simp: add_block_def split: option.splits sum.splits prod.splits)

lemma fdb_step_pending:
  "fdb_step db db' \<Longrightarrow> num_from_id (pending_savanna_lib_id db) \<le> num_from_id (pending_savanna_lib_id db')"
  by (cases rule: fdb_step.cases)
    (auto simp: reset_root_def add_block_pending fd_remove_def advance_root_def set_pending_savanna_lib_id_def mark_valid_def Let_def bind_res_def
      close_impl_def dest!: remove_all_frame split: sum.splits option.splits)

lemma head_best:
  assumes "fdb_ok db r" and "fd_head db False = Some h"
  shows "h \<in> set (fd_index db) \<and> (\<forall>b\<in>set (fd_index db). best_key b \<le> best_key h)"
  using assms(2) fdb_okD(7)[OF assms(1)] by (auto simp: fd_head_def intro: order.strict_implies_order split: list.splits)

lemma known_iff: "get_block_from db r i = Some b \<Longrightarrow> fd_root db = Some r \<Longrightarrow> get_block_or_root db i = Inr (Some b)"
  by (auto simp: get_block_from_def get_block_or_root_def fd_root_of_def split: if_splits)

lemma get_block_or_root_from: "fd_root db = Some r \<Longrightarrow> get_block_or_root db i = Inr (get_block_from db r i)"
  by (auto simp: get_block_from_def get_block_or_root_def fd_root_of_def)

section \<open>Closing and opening\<close>

lemma path_sub:
  assumes "idx_ok idx" and "idx_ok idx'" and "set idx' \<subseteq> set idx"
    and "\<And>b. b \<in> set idx' \<Longrightarrow> bs_previous b \<in> bs_id ` set idx \<Longrightarrow> bs_previous b \<in> bs_id ` set idx'"
    and "h \<in> bs_id ` set idx \<longrightarrow> h \<in> bs_id ` set idx'"
  shows "path idx' h = path idx h"
  using idx_okD(1)[OF assms(2)] assms(5)
proof (induction h rule: path_induct)
  case (stop h)
  then have "index_find idx h = None" by (auto simp: index_find_None_iff)
  then show ?case using stop(1) path_unfold(2)[OF idx_okD(1)[OF assms(1)], of h] path_unfold(2)[OF idx_okD(1)[OF assms(2)], of h] by simp
next
  case (step h b)
  have "index_find idx h = Some b" using idx_okD(3)[OF assms(1), of b] step(2,3) assms(3) by blast
  then show ?case using step assms(4)[OF step(2)] path_unfold(2)[OF idx_okD(1)[OF assms(1)], of h]
      path_unfold(2)[OF idx_okD(1)[OF assms(2)], of h] by simp
qed

text \<open>Later blocks are better: what the conditions on the time of a block and on its claim give for a block and its predecessor.\<close>

definition keys_rise :: "fork_database \<Rightarrow> bool" where
  "keys_rise db \<longleftrightarrow> (\<forall>b\<in>set (fd_index db). \<forall>p\<in>set (fd_index db). bs_previous b = bs_id p \<longrightarrow> best_key p < best_key b)"

lemma index_place_front: "\<forall>b\<in>set idx. best_key b < best_key n \<Longrightarrow> index_place n idx = n # idx"
  by (cases idx) auto

lemma note_claim_alike:
  assumes "idx_ok (fd_index db)" and "idx_ok (fd_index db')" and "fd_root db = Some r" and "fd_root db' = Some r'"
    and "bs_block_num r' = bs_block_num r" and "path (fd_index db') (bs_previous n) = path (fd_index db) (bs_previous n)"
    and "note_claim n db = Inr x"
  shows "\<exists>p. note_claim n db' = Inr (db'\<lparr>pending_savanna_lib_id := p\<rparr>) \<and> num_from_id (pending_savanna_lib_id db') \<le> num_from_id p"
proof -
  have "search_on_branch db' (bs_previous n) m False = search_on_branch db (bs_previous n) m False" for m
    using search_on_branch_spec[OF assms(1,3)] search_on_branch_spec[OF assms(2,4)] assms(5,6) by simp
  then have "\<exists>y. note_claim n db' = Inr y" using assms(7) unfolding note_claim_def Let_def
    by (auto simp: bind_res_def split: if_splits sum.splits option.splits)
  then obtain y where y: "note_claim n db' = Inr y" by blast
  have "y = db'\<lparr>pending_savanna_lib_id := pending_savanna_lib_id y\<rparr>" using note_claim_frame[OF y] by (cases y, cases db') simp
  with y note_claim_pending[OF y] show ?thesis by metis
qed

text \<open>Adding blocks that are already unpacked.\<close>

fun add_blocks :: "feature_validator \<Rightarrow> block_state list \<Rightarrow> fork_database \<Rightarrow> unit res \<times> fork_database" where
  "add_blocks v [] db = (Inr (), db)"
| "add_blocks v (b # bs) db = (case add_block (Some v) b False db of
     (Inl e, db') \<Rightarrow> (Inl e, db')
   | (Inr _, db') \<Rightarrow> add_blocks v bs db')"

lemma add_blocks_rebuilds:
  assumes "fdb_ok db r" and "keys_rise db" and "\<forall>b\<in>set (fd_index db). \<exists>x. note_claim b db = Inr x"
    and "\<forall>ts cur new. v ts cur new = Inr ()" and "fd_index db = front @ rest"
    and "fd_root db0 = Some r0" and "bs_id r0 = bs_id r" and "bs_block_num r0 = bs_block_num r" and "fd_index db0 = rest"
  shows "\<exists>p. add_blocks v (rev front) db0 = (Inr (), db0\<lparr>fd_index := fd_index db, pending_savanna_lib_id := p\<rparr>) \<and>
    num_from_id (pending_savanna_lib_id db0) \<le> num_from_id p"
  using assms(5-9)
proof (induction front arbitrary: rest db0 rule: rev_induct)
  case Nil
  then have "db0 = db0\<lparr>fd_index := fd_index db, pending_savanna_lib_id := pending_savanna_lib_id db0\<rparr>" by simp
  then show ?case by (metis add_blocks.simps(1) order.refl rev.simps(1))
next
  case (snoc n front)
  note ok = fdb_okD[OF assms(1)] and iok = fdb_ok_idx[OF assms(1)]
  have idx: "fd_index db = front @ n # rest" using snoc.prems(1) by simp
  have iok0: "idx_ok rest" using iok unfolding idx idx_ok_def by auto
  have n: "n \<in> set (fd_index db)" by (simp add: idx)
  have later: "best_key x < best_key n \<Longrightarrow> x \<in> set (fd_index db) \<Longrightarrow> x \<in> set rest" for x
    using ok(7) unfolding idx by (auto simp: sorted_wrt_append)
  have closed: "bs_previous x \<in> bs_id ` set rest" if "x = n \<or> x \<in> set rest" "bs_previous x \<in> bs_id ` set (fd_index db)" for x
  proof -
    from that(2) obtain q where q: "q \<in> set (fd_index db)" "bs_previous x = bs_id q" by blast
    have "best_key q < best_key x" using assms(2) q that(1) n by (auto simp: keys_rise_def idx)
    moreover have "best_key x \<le> best_key n" using that(1) ok(7) unfolding idx by (auto simp: sorted_wrt_append intro: order.strict_implies_order)
    ultimately have "q \<in> set rest" using later q(1) by fastforce
    then show ?thesis using q(2) by simp
  qed
  have sub: "set rest \<subseteq> set (fd_index db)" by (auto simp: idx)
  have path: "path (fd_index db0) (bs_previous n) = path (fd_index db) (bs_previous n)"
    unfolding snoc.prems(5) by (rule path_sub[OF iok iok0 sub]) (use closed in blast)+
  have iok0': "idx_ok (fd_index db0)" using iok0 snoc.prems(5) by simp
  obtain x where x: "note_claim n db = Inr x" using assms(3) n by blast
  from note_claim_alike[OF iok iok0' ok(1) snoc.prems(2,4) path x] obtain p where
    p: "note_claim n db0 = Inr (db0\<lparr>pending_savanna_lib_id := p\<rparr>)" "num_from_id (pending_savanna_lib_id db0) \<le> num_from_id p" by blast
  have "bs_previous n = bs_id r \<or> bs_previous n \<in> bs_id ` set rest" using ok(6)[OF n] closed[of n] by blast
  then have "\<exists>q. get_block_from (db0\<lparr>pending_savanna_lib_id := p\<rparr>) r0 (bs_previous n) = Some q"
    using snoc.prems(3,5) idx_okD(3)[OF iok0] by (auto simp: get_block_from_def get_block_def)
  moreover have "index_find rest (bs_id n) = None" using ok(3) by (simp add: idx index_find_None_iff)
  moreover have "index_place n rest = n # rest" using ok(7) by (intro index_place_front) (auto simp: idx sorted_wrt_append)
  ultimately have add: "add_block (Some v) n False db0 = (Inr (), db0\<lparr>fd_index := n # rest, pending_savanna_lib_id := p\<rparr>)"
    using snoc.prems(2,5) p(1) assms(4) by (auto simp: add_block_def index_insert_def eos_assert_def split: option.splits)
  from snoc.IH[of "n # rest" "db0\<lparr>fd_index := n # rest, pending_savanna_lib_id := p\<rparr>"] snoc.prems(2-4) idx
  obtain p' where "add_blocks v (rev front) (db0\<lparr>fd_index := n # rest, pending_savanna_lib_id := p\<rparr>) =
      (Inr (), db0\<lparr>fd_index := fd_index db, pending_savanna_lib_id := p'\<rparr>)" "num_from_id p \<le> num_from_id p'" by auto
  then show ?case using add p(2) by (intro exI[of _ p']) auto
qed

text \<open>A block state read back from the file, with its proposer policies at the addresses from \<open>k\<close> on.\<close>

definition reload :: "nat \<Rightarrow> block_state \<Rightarrow> block_state" where
  "reload k b =
     b\<lparr>bhs := place_policies k (k + 1) (k + 2) (bhs b), aggregating_qc := unpack_agg (aggregating_qc b),
       bs_action_mroot := sha256_zero, bs_base_digest := None\<rparr>"

definition exts_valid :: "ext_codec \<Rightarrow> block_state \<Rightarrow> bool" where
  "exts_valid cod b \<longleftrightarrow> validate_and_extract_header_extensions cod (header (bhs b)) = Inr (header_exts (bhs b))"

lemma unpack_pack_agg: "unpack_agg (pack_agg g) = unpack_agg g"
proof -
  have "unpack_agg_sig (pack_agg_sig a) = unpack_agg_sig a" for a
    by (simp add: unpack_agg_sig_def pack_agg_sig_def pack_votes_def reflector_init_def)
  then show ?thesis by (simp add: unpack_agg_def pack_agg_def option.map_comp comp_def)
qed

lemma unpack_pack: "exts_valid cod b \<Longrightarrow> unpack_block_state cod k (pack_block_state b) = Inr (reload k b)"
  by (simp add: unpack_block_state_def pack_block_state_def reload_def exts_valid_def place_policies_def unpack_pack_agg
      option.map_comp comp_def)

lemma reload_reads:
  "bs_id (reload k b) = bs_id b" "bs_previous (reload k b) = bs_previous b" "bs_block_num (reload k b) = bs_block_num b"
  "best_key (reload k b) = best_key b" "linked (reload k b) = linked b" "extract_qc_claim (reload k b) = extract_qc_claim b"
  "core (bhs (reload k b)) = core (bhs b)"
  by (simp_all add: reload_def place_policies_def best_key_def linked_def extract_qc_claim_def bhs_block_num_def bhs_timestamp_def)

fun reload_all :: "nat \<Rightarrow> block_state list \<Rightarrow> block_state list" where
  "reload_all k [] = []"
| "reload_all k (b # bs) = reload k b # reload_all (k + 3) bs"

lemma add_all_unpacks:
  "\<forall>b\<in>set bs. exts_valid cod b \<Longrightarrow> add_all cod k v (map pack_block_state bs) db = add_blocks v (reload_all k bs) db"
  by (induction bs arbitrary: k db) (auto simp: unpack_pack split: prod.splits sum.splits)

definition reloaded :: "block_state \<Rightarrow> block_state \<Rightarrow> bool" where
  "reloaded b b' \<longleftrightarrow> (\<exists>k. b' = reload k b)"

lemma reload_all_reloaded: "list_all2 reloaded bs (reload_all k bs)"
  by (induction bs arbitrary: k) (auto simp: reloaded_def)

lemma reloaded_map: "list_all2 reloaded xs ys \<Longrightarrow> (\<And>k b. f (reload k b) = f b) \<Longrightarrow> map f ys = map f xs"
  by (induction rule: list_all2_induct) (auto simp: reloaded_def)

lemma reloaded_ball:
  assumes "list_all2 reloaded xs ys" and "\<And>k b. f (reload k b) = f b"
  shows "(\<forall>y\<in>set ys. P (f y)) \<longleftrightarrow> (\<forall>x\<in>set xs. P (f x))"
proof -
  have "map f ys = map f xs" by (rule reloaded_map[OF assms])
  then have "f ` set ys = f ` set xs" by (metis list.set_map)
  then have "(\<forall>z\<in>f ` set ys. P z) \<longleftrightarrow> (\<forall>z\<in>f ` set xs. P z)" by simp
  then show ?thesis by simp
qed

lemma reloaded_find:
  "list_all2 reloaded xs ys \<Longrightarrow> (\<And>k b. P (reload k b) = P b) \<Longrightarrow> rel_option reloaded (find P xs) (find P ys)"
  by (induction rule: list_all2_induct) (auto simp: reloaded_def)

lemma reloaded_db_ok:
  assumes "fdb_ok db r" and "list_all2 reloaded (fd_index db) idx'"
  shows "fdb_ok (db\<lparr>fd_index := idx', fd_root := Some (reload k r)\<rparr>) (reload k r)"
proof -
  have ids: "map bs_id idx' = map bs_id (fd_index db)" by (rule reloaded_map[OF assms(2)]) (rule reload_reads)
  then have img: "bs_id ` set idx' = bs_id ` set (fd_index db)" by (metis list.set_map)
  have "map best_key idx' = map best_key (fd_index db)" by (rule reloaded_map[OF assms(2)]) (rule reload_reads)
  then have "sorted_wrt (\<lambda>x y. y < x) (map best_key idx') = sorted_wrt (\<lambda>x y. y < x) (map best_key (fd_index db))" by simp
  then have sorted: "sorted_wrt (\<lambda>a b. best_key b < best_key a) idx' = sorted_wrt (\<lambda>a b. best_key b < best_key a) (fd_index db)"
    by (simp add: sorted_wrt_map)
  have "(\<forall>b\<in>set idx'. (\<lambda>(l, p). l \<and> (p = bs_id r \<or> p \<in> bs_id ` set (fd_index db))) (linked b, bs_previous b)) =
      (\<forall>b\<in>set (fd_index db). (\<lambda>(l, p). l \<and> (p = bs_id r \<or> p \<in> bs_id ` set (fd_index db))) (linked b, bs_previous b))"
    by (rule reloaded_ball[OF assms(2)]) (simp add: reload_reads)
  then show ?thesis using assms(1) ids img sorted by (simp add: fdb_ok_def reload_reads)
qed

lemma reloaded_path:
  assumes "idx_ok idx" and "list_all2 reloaded idx idx'" and "idx_ok idx'"
  shows "list_all2 reloaded (path idx h) (path idx' h)"
  using idx_okD(1)[OF assms(1)]
proof (induction h rule: path_induct)
  case (stop h)
  note f = reloaded_find[OF assms(2), of "\<lambda>b. bs_id b = h", unfolded reload_reads, folded index_find_def]
  show ?case using stop f path_unfold(2)[OF idx_okD(1)[OF assms(1)], of h] path_unfold(2)[OF idx_okD(1)[OF assms(3)], of h] by simp
next
  case (step h b)
  note f = reloaded_find[OF assms(2), of "\<lambda>b. bs_id b = h", unfolded reload_reads, folded index_find_def]
  from f step(1) obtain b' where b': "index_find idx' h = Some b'" "reloaded b b'" by (auto simp: option_rel_Some1)
  then have "bs_previous b' = bs_previous b" by (auto simp: reloaded_def reload_reads)
  then show ?case using step b' path_unfold(2)[OF idx_okD(1)[OF assms(1)], of h] path_unfold(2)[OF idx_okD(1)[OF assms(3)], of h] by simp
qed

lemma reloaded_note_claim:
  assumes "fdb_ok db r" and "list_all2 reloaded (fd_index db) idx'" and "reloaded b b'" and "note_claim b db = Inr x"
  shows "\<exists>x. note_claim b' (db\<lparr>fd_index := idx', fd_root := Some (reload k r)\<rparr>) = Inr x"
proof -
  let ?db = "db\<lparr>fd_index := idx', fd_root := Some (reload k r)\<rparr>"
  note iok = fdb_ok_idx[OF assms(1)] and ok' = reloaded_db_ok[OF assms(1,2), of k]
  have iok': "idx_ok idx'" using fdb_ok_idx[OF ok'] by simp
  have b: "extract_qc_claim b' = extract_qc_claim b" "bs_previous b' = bs_previous b" using assms(3) by (auto simp: reloaded_def reload_reads)
  let ?n = "block_num (extract_qc_claim b)"
  have "rel_option reloaded (find (\<lambda>b. bs_block_num b = ?n) (path (fd_index db) (bs_previous b)))
      (find (\<lambda>b. bs_block_num b = ?n) (path idx' (bs_previous b)))"
    by (rule reloaded_find[OF reloaded_path[OF iok assms(2) iok']]) (simp add: reload_reads)
  then obtain f f' where f: "search_on_branch db (bs_previous b) ?n False = Inr f" "search_on_branch ?db (bs_previous b) ?n False = Inr f'"
    "rel_option reloaded f f'"
    using search_on_branch_spec[OF iok fdb_okD(1)[OF assms(1)], of "bs_previous b" ?n False]
      search_on_branch_spec[of ?db "reload k r" "bs_previous b" ?n False] iok' by (auto simp: reload_reads)
  show ?thesis
  proof (cases f)
    case None
    then show ?thesis using f b by (simp add: note_claim_def Let_def)
  next
    case (Some c)
    then obtain c' where c': "f' = Some c'" "core (bhs c') = core (bhs c)" using f(3) by (auto simp: option_rel_Some1 reloaded_def reload_reads)
    show ?thesis using assms(4) f Some c' b by (auto simp: note_claim_def Let_def res_simps split: if_splits)
  qed
qed

lemma reloaded_keys_rise:
  assumes "keys_rise db" and "list_all2 reloaded (fd_index db) idx'"
  shows "keys_rise (db\<lparr>fd_index := idx', fd_root := r\<rparr>)"
proof -
  let ?f = "\<lambda>b. (bs_id b, bs_previous b, best_key b)"
  have f: "?f (reload k b) = ?f b" for k b by (simp add: reload_reads)
  have "\<forall>b\<in>set idx'. \<forall>p\<in>set (fd_index db). bs_previous b = bs_id p \<longrightarrow> best_key p < best_key b"
    using reloaded_ball[OF assms(2), of ?f "\<lambda>(i, q, k). \<forall>p\<in>set (fd_index db). q = bs_id p \<longrightarrow> best_key p < k", OF f] assms(1)
    by (simp add: keys_rise_def)
  moreover have "(\<forall>p\<in>set idx'. bs_previous b = bs_id p \<longrightarrow> best_key p < best_key b) =
      (\<forall>p\<in>set (fd_index db). bs_previous b = bs_id p \<longrightarrow> best_key p < best_key b)" for b
    using reloaded_ball[OF assms(2), of ?f "\<lambda>(i, q, k). bs_previous b = i \<longrightarrow> k < best_key b", OF f] by simp
  ultimately show ?thesis by (simp add: keys_rise_def)
qed

section \<open>An example: a fork at the first block\<close>

definition fork_id :: "u64 \<Rightarrow> u32 \<Rightarrow> block_id_type" where
  "fork_id d n = calculate_id (Sha256 0 d 0 0) n"

definition fork_block :: "u64 \<Rightarrow> u64 \<Rightarrow> u32 \<Rightarrow> u32 \<Rightarrow> block_state" where
  "fork_block d p n ts = ex_bs (ex_s1\<lparr>bhs_block_id := fork_id d n, header := (ex_header n)\<lparr>previous := fork_id p (n - 1), hdr_timestamp := ts\<rparr>\<rparr>) None"

lemma fork_id_simps [simp]: "num_from_id (fork_id d n) = n" "fork_id d n = fork_id e m \<longleftrightarrow> d = e \<and> n = m"
proof -
  show n: "num_from_id (fork_id d n) = n" for d n by (simp add: fork_id_def num_from_id_calculate_id)
  have "d = e" if "fork_id d n = fork_id e m" using that by (simp add: fork_id_def calculate_id_def)
  then show "fork_id d n = fork_id e m \<longleftrightarrow> d = e \<and> n = m" using n by metis
qed

lemma fork_block_simps [simp]:
  "bs_id (fork_block d p n ts) = fork_id d n" "bs_previous (fork_block d p n ts) = fork_id p (n - 1)"
  "bs_block_num (fork_block d p n ts) = n" "validated (fork_block d p n ts)" "(fork_block d p n ts)\<lparr>validated := True\<rparr> = fork_block d p n ts"
  "best_key (fork_block d p n ts) = (Some 1, ts, fork_id d n)" "linked (fork_block d p n ts) \<longleftrightarrow> n \<noteq> 0"
  "extract_qc_claim (fork_block d p n ts) = \<lparr>block_num = 0, is_strong_qc = False\<rparr>"
  "fork_block d p n ts = fork_block d' p' n' ts' \<longleftrightarrow> d = d' \<and> p = p' \<and> n = n' \<and> ts = ts'"
proof -
  have "unat n = Suc (unat (n - 1)) \<longleftrightarrow> n \<noteq> 0" by (metis Suc_pred' nat.distinct(1) unat_eq_zero unat_gt_0 unat_minus_one)
  then show "linked (fork_block d p n ts) \<longleftrightarrow> n \<noteq> 0" by (simp add: linked_def fork_block_def)
  show id: "bs_id (fork_block d p n ts) = fork_id d n" "bs_previous (fork_block d p n ts) = fork_id p (n - 1)" for d p n ts by (simp_all add: fork_block_def)
  have ts: "hdr_timestamp (header (bhs (fork_block d p n ts))) = ts" for d p n ts by (simp add: fork_block_def)
  show "fork_block d p n ts = fork_block d' p' n' ts' \<longleftrightarrow> d = d' \<and> p = p' \<and> n = n' \<and> ts = ts'"
    using id[of d p n ts] id[of d' p' n' ts'] ts[of d p n ts] ts[of d' p' n' ts'] by (metis fork_id_simps(2))
qed (simp_all add: fork_block_def bhs_block_num_def ex_bs_def best_key_def ex_s1_def ex_state_def latest_qc_block_timestamp_def
    is_genesis_core_def ex_link_def extract_qc_claim_def find_finality_ext_def bhs_timestamp_def)

definition "fork_root = fork_block 0 0 1 1"
definition "fork_a = fork_block 1 0 2 2"
definition "fork_b = fork_block 2 0 2 3"
definition "fork_c = fork_block 3 1 3 4"

definition ex_fork_db :: fork_database where
  "ex_fork_db = snd (add_block None fork_c False (snd (add_block None fork_b False (snd (add_block None fork_a False
     (reset_root fork_root (empty_fork_db sha256_zero)))))))"

definition ex_cod :: ext_codec where
  "ex_cod = \<lparr>ext_extract = \<lambda>_ _. None, ext_pack = \<lambda>_. []\<rparr>"

lemmas fork_defs = fork_root_def fork_a_def fork_b_def fork_c_def

lemma ex_fork_db_run: "fdb_run ex_fork_db"
proof -
  have "fdb_run (reset_root fork_root (empty_fork_db sha256_zero))"
    by (rule run_step[OF run_new step_reset]) (simp add: fork_defs)
  then show ?thesis unfolding ex_fork_db_def by (intro run_step[OF _ step_add]) (simp_all add: fork_defs)
qed

lemma ex_fork_db_eq: "ex_fork_db = \<lparr>fd_root = Some fork_root, pending_savanna_lib_id = sha256_zero, fd_index = [fork_c, fork_b, fork_a]\<rparr>"
  by (simp add: ex_fork_db_def add_block_def note_claim_def reset_root_def get_block_from_def get_block_def index_find_def
      index_insert_def fork_defs eos_assert_def)

lemma ex_fork_branch: "whole_branch ex_fork_db (fork_id 3 3) = Inr [fork_c, fork_a]" "whole_branch ex_fork_db (fork_id 2 2) = Inr [fork_b]"
  "whole_branch ex_fork_db (fork_id 1 2) = Inr [fork_a]"
proof -
  note pu = path_unfold(2)[OF idx_okD(1)[OF run_idx_ok[OF ex_fork_db_run]]]
  show "whole_branch ex_fork_db (fork_id 3 3) = Inr [fork_c, fork_a]" "whole_branch ex_fork_db (fork_id 2 2) = Inr [fork_b]"
    "whole_branch ex_fork_db (fork_id 1 2) = Inr [fork_a]"
    using fetch_branch_path(2)[OF run_idx_ok[OF ex_fork_db_run]] pu[of "fork_id 3 3"] pu[of "fork_id 1 2"] pu[of "fork_id 2 2"] pu[of "fork_id 0 1"]
    by (simp_all add: ex_fork_db_eq index_find_def fork_defs)
qed

section \<open>Properties\<close>

text \<open>
  C12. In every database the calls can build, the identifiers are distinct, every block is joined to the root by a branch of
  blocks of the database, each the predecessor of the one before it, with one block for every number between the root and it,
  and the head is a block with the greatest key.
\<close>

theorem fork_db_tree:
  assumes "fdb_run db" and "fd_root db = Some r"
  shows "distinct (map bs_id (fd_index db)) \<and> bs_id r \<notin> bs_id ` set (fd_index db) \<and>
    (\<forall>b\<in>set (fd_index db). \<exists>bs. whole_branch db (bs_id b) = Inr (b # bs) \<and> set bs \<subseteq> set (fd_index db) \<and>
       map bs_previous (b # bs) = map bs_id bs @ [bs_id r] \<and> unat (bs_block_num b) = unat (bs_block_num r) + length (b # bs)) \<and>
    (\<forall>h. fd_head db False = Some h \<longrightarrow> h \<in> set (fd_index db) \<and> (\<forall>b\<in>set (fd_index db). best_key b \<le> best_key h))"
proof -
  have ok: "fdb_ok db r" by (rule fdb_inv_Some[OF fdb_run_inv[OF assms(1)] assms(2)])
  note iok = fdb_ok_idx[OF ok]
  have "\<exists>bs. whole_branch db (bs_id b) = Inr (b # bs) \<and> set bs \<subseteq> set (fd_index db) \<and>
       map bs_previous (b # bs) = map bs_id bs @ [bs_id r] \<and> unat (bs_block_num b) = unat (bs_block_num r) + length (b # bs)"
    if b: "b \<in> set (fd_index db)" for b
  proof -
    have mem: "bs_id b \<in> insert (bs_id r) (bs_id ` set (fd_index db))" using b by blast
    note spec = path_spec[OF ok mem]
    obtain p where p: "path (fd_index db) (bs_id b) = b # path (fd_index db) (bs_id p)" using known_prev[OF ok b] by blast
    have kb: "known db r b" "known db r r" using b by (auto simp: known_def)
    show ?thesis
      using spec p fetch_branch_path(2)[OF iok, of "bs_id b"] known_block_num[OF ok kb(1)] known_block_num[OF ok kb(2)]
      by (intro exI[of _ "path (fd_index db) (bs_id p)"]) auto
  qed
  then show ?thesis using fdb_okD(3,4)[OF ok] head_best[OF ok] by blast
qed

theorem fork_db_tree_witness:
  "fdb_run ex_fork_db \<and> fd_head ex_fork_db False = Some fork_c \<and> best_key fork_b \<le> best_key fork_c \<and>
   (\<exists>bs. whole_branch ex_fork_db (bs_id fork_c) = Inr (fork_c # bs) \<and> map bs_previous (fork_c # bs) = map bs_id bs @ [bs_id fork_root])"
proof -
  have root: "fd_root ex_fork_db = Some fork_root" and hd: "fd_head ex_fork_db False = Some fork_c" "fork_c \<in> set (fd_index ex_fork_db)" "fork_b \<in> set (fd_index ex_fork_db)"
    by (simp_all add: ex_fork_db_eq fd_head_def)
  from fork_db_tree[OF ex_fork_db_run root] hd ex_fork_db_run show ?thesis by blast
qed

text \<open>
  C13. Moving the root to a block of the database succeeds exactly when that block is validated. Then the block is the root and
  the database keeps, in their order, exactly the blocks built on it: the blocks below it, and the forks that left the chain at
  or below it, are gone.
\<close>

theorem advance_root_exact:
  assumes "fdb_run db" and "get_block db i = Some n"
  shows "advance_root i db =
    (if validated n then
       Inr (db\<lparr>fd_root := Some n, fd_index := filter (\<lambda>b. \<exists>bs. whole_branch db (bs_id b) = Inr bs \<and> i \<in> bs_previous ` set bs) (fd_index db)\<rparr>)
     else Inl fork_database_exception)"
proof -
  have "fd_index db \<noteq> []" using assms(2) by (auto simp: get_block_def index_find_def)
  then obtain r where r: "fd_root db = Some r" using fdb_run_inv[OF assms(1)] by (auto simp: fdb_inv_def split: option.splits)
  have ok: "fdb_ok db r" by (rule fdb_inv_Some[OF fdb_run_inv[OF assms(1)] r])
  have "above (fd_index db) i = filter (\<lambda>b. \<exists>bs. whole_branch db (bs_id b) = Inr bs \<and> i \<in> bs_previous ` set bs) (fd_index db)"
    by (simp add: above_def anc_ids_def fetch_branch_path(2)[OF fdb_ok_idx[OF ok]])
  then show ?thesis using advance_root_spec[OF ok assms(2)] r assms(2) by (simp add: advance_root_def eos_assert_def)
qed

theorem advance_root_exact_witness:
  "advance_root (fork_id 1 2) ex_fork_db = Inr (ex_fork_db\<lparr>fd_root := Some fork_a, fd_index := [fork_c]\<rparr>)"
proof -
  have n: "get_block ex_fork_db (fork_id 1 2) = Some fork_a" by (simp add: get_block_def ex_fork_db_eq index_find_def fork_defs)
  have idx: "fd_index ex_fork_db = [fork_c, fork_b, fork_a]" by (simp add: ex_fork_db_eq)
  have ids: "bs_id fork_c = fork_id 3 3" "bs_id fork_b = fork_id 2 2" "bs_id fork_a = fork_id 1 2" "validated fork_a" by (simp_all add: fork_defs)
  have prev: "bs_previous fork_c = fork_id 1 2" "bs_previous fork_b = fork_id 0 1" "bs_previous fork_a = fork_id 0 1" by (simp_all add: fork_defs)
  have "filter (\<lambda>b. \<exists>bs. whole_branch ex_fork_db (bs_id b) = Inr bs \<and> fork_id 1 2 \<in> bs_previous ` set bs) (fd_index ex_fork_db) = [fork_c]"
    unfolding idx filter.simps ids ex_fork_branch by (simp add: prev)
  with advance_root_exact[OF ex_fork_db_run n] ids(4) show ?thesis by simp
qed

text \<open>
  C14. Removing a block always returns, and removes exactly that block and the blocks built on it, directly or not. The
  database that is left is one the calls can build, so it is still a tree over its root.
\<close>

theorem fd_remove_exact:
  assumes "fdb_run db"
  shows "\<exists>db'. fd_remove i db = Inr db' \<and> fdb_run db' \<and> db' = db\<lparr>fd_index :=
    filter (\<lambda>b. \<forall>bs. whole_branch db (bs_id b) = Inr bs \<longrightarrow> i \<notin> insert (bs_id b) (bs_previous ` set bs)) (fd_index db)\<rparr>"
proof -
  note iok = run_idx_ok[OF assms]
  have "filter (\<lambda>b. bs_id b \<noteq> i \<and> i \<notin> anc_ids (fd_index db) b) (fd_index db) =
      filter (\<lambda>b. \<forall>bs. whole_branch db (bs_id b) = Inr bs \<longrightarrow> i \<notin> insert (bs_id b) (bs_previous ` set bs)) (fd_index db)"
    by (rule filter_cong[OF refl]) (auto simp: anc_ids_def fetch_branch_path(2)[OF iok])
  then have "fd_remove i db = Inr (db\<lparr>fd_index :=
      filter (\<lambda>b. \<forall>bs. whole_branch db (bs_id b) = Inr bs \<longrightarrow> i \<notin> insert (bs_id b) (bs_previous ` set bs)) (fd_index db)\<rparr>)"
    using fd_remove_spec[OF iok, of i] by simp
  from this run_step[OF assms step_remove[OF this]] show ?thesis by blast
qed

theorem fd_remove_exact_witness:
  "\<exists>db'. fd_remove (fork_id 1 2) ex_fork_db = Inr db' \<and> fd_index db' = [fork_b]"
proof -
  have idx: "fd_index ex_fork_db = [fork_c, fork_b, fork_a]" by (simp add: ex_fork_db_eq)
  have ids: "bs_id fork_c = fork_id 3 3" "bs_id fork_b = fork_id 2 2" "bs_id fork_a = fork_id 1 2" by (simp_all add: fork_defs)
  have prev: "bs_previous fork_c = fork_id 1 2" "bs_previous fork_b = fork_id 0 1" "bs_previous fork_a = fork_id 0 1" by (simp_all add: fork_defs)
  have "filter (\<lambda>b. \<forall>bs. whole_branch ex_fork_db (bs_id b) = Inr bs \<longrightarrow> fork_id 1 2 \<notin> insert (bs_id b) (bs_previous ` set bs)) (fd_index ex_fork_db) = [fork_b]"
    unfolding idx filter.simps ids ex_fork_branch by (simp add: prev)
  with fd_remove_exact[OF ex_fork_db_run, of "fork_id 1 2"] show ?thesis by (auto simp del: filter.simps)
qed

text \<open>
  C15. For two blocks of the database, the root among them, \<^verbatim>\<open>fetch_branch_from\<close> returns the two branches down to their last
  common block: what is left out of both is the same branch, and no longer common branch could be left out. An identifier that
  is not in the database is an error.
\<close>

theorem fetch_branch_from_exact:
  assumes "fdb_run db" and "fd_root db = Some r"
  shows "case (get_block_or_root db first, get_block_or_root db second) of
      (Inr (Some f), Inr (Some s)) \<Rightarrow>
        \<exists>fs ss common. fetch_branch_from db first second = Inr (fs, ss) \<and>
          whole_branch db first = Inr (fs @ common) \<and> whole_branch db second = Inr (ss @ common) \<and>
          (fs = [] \<or> ss = [] \<or> bs_id (last fs) \<noteq> bs_id (last ss))
    | _ \<Rightarrow> fetch_branch_from db first second = Inl fork_db_block_not_found"
proof -
  have ok: "fdb_ok db r" by (rule fdb_inv_Some[OF fdb_run_inv[OF assms(1)] assms(2)])
  note gb = get_block_or_root_from[OF assms(2)] and fb = fetch_branch_path(2)[OF fdb_ok_idx[OF ok]]
  show ?thesis
  proof (cases "get_block_from db r first")
    case None
    then show ?thesis using gb assms(2) by (auto simp: fetch_branch_from_def fd_root_of_def split: option.splits)
  next
    case f: (Some f)
    show ?thesis
    proof (cases "get_block_from db r second")
      case None
      then show ?thesis using gb f assms(2) by (simp add: fetch_branch_from_def fd_root_of_def)
    next
      case (Some s)
      from f Some get_block_from_known[OF ok] have k: "known db r f" "bs_id f = first" "known db r s" "bs_id s = second" by auto
      from fetch_branch_from_spec[OF ok k(1,3)] show ?thesis unfolding k(2,4) using gb f Some fb by simp
    qed
  qed
qed

theorem fetch_branch_from_exact_witness:
  "fetch_branch_from ex_fork_db (fork_id 3 3) (fork_id 2 2) = Inr ([fork_c, fork_a], [fork_b])"
proof -
  have root: "fd_root ex_fork_db = Some fork_root" by (simp add: ex_fork_db_eq)
  have "get_block_or_root ex_fork_db (fork_id 3 3) = Inr (Some fork_c)" "get_block_or_root ex_fork_db (fork_id 2 2) = Inr (Some fork_b)"
    by (simp_all add: get_block_or_root_def fd_root_of_def get_block_def ex_fork_db_eq index_find_def fork_defs)
  with fetch_branch_from_exact[OF ex_fork_db_run root, of "fork_id 3 3" "fork_id 2 2"]
  obtain fs ss common where res: "fetch_branch_from ex_fork_db (fork_id 3 3) (fork_id 2 2) = Inr (fs, ss)"
    "[fork_c, fork_a] = fs @ common" "[fork_b] = ss @ common" by (auto simp: ex_fork_branch)
  have "fork_a \<noteq> fork_b" by (simp add: fork_defs)
  with res(2,3) have "common = []" by (cases common rule: rev_cases) auto
  with res show ?thesis by simp
qed

text \<open>
  C16. Searching a branch for a number above the root's gives the block of the branch with that number, if the branch reaches
  that high, and \<^verbatim>\<open>validated_block_exists\<close> for a block of the database and a claimed block of its branch says whether a block
  of the branch that is not older than the claimed one is validated; it is true when the claimed block is at or below the root.
\<close>

theorem fork_db_search_exact:
  assumes "fdb_run db" and "fd_root db = Some r" and "whole_branch db h = Inr bs" and "bs_block_num r < n"
    and "bs \<noteq> []" and "claimed \<in> bs_id ` set bs \<or> num_from_id claimed \<le> num_from_id (bs_id r)"
  shows "search_on_branch db h n include_root = Inr (find (\<lambda>b. bs_block_num b = n) bs) \<and>
    validated_block_exists db h claimed =
      Inr (num_from_id claimed \<le> num_from_id (bs_id r) \<or> (\<exists>b\<in>set bs. validated b \<and> num_from_id claimed \<le> num_from_id (bs_id b)))"
proof
  have ok: "fdb_ok db r" by (rule fdb_inv_Some[OF fdb_run_inv[OF assms(1)] assms(2)])
  note iok = fdb_ok_idx[OF ok]
  have bs: "path (fd_index db) h = bs" using fetch_branch_path(2)[OF iok, of h] assms(3) by simp
  show "search_on_branch db h n include_root = Inr (find (\<lambda>b. bs_block_num b = n) bs)"
    using search_on_branch_spec[OF iok assms(2)] assms(4) bs by auto
  have sub: "set bs \<subseteq> set (fd_index db)" using path_ids[OF iok, of h] bs by blast
  note loop = validated_loop_spec[OF iok, of claimed False h, unfolded bs]
  show "validated_block_exists db h claimed =
      Inr (num_from_id claimed \<le> num_from_id (bs_id r) \<or> (\<exists>b\<in>set bs. validated b \<and> num_from_id claimed \<le> num_from_id (bs_id b)))"
  proof (cases "claimed \<in> bs_id ` set bs")
    case True
    then obtain b where b: "b \<in> set (fd_index db)" "bs_id b = claimed" using sub by blast
    then have "\<not> num_from_id claimed \<le> num_from_id (bs_id r)" using root_below(1)[OF ok b(1)] by (simp add: word_le_nat_alt)
    then show ?thesis using True loop upto_id_num[OF ok, of claimed h] bs by (auto simp: validated_block_exists_def)
  next
    case False
    then have low: "num_from_id claimed \<le> num_from_id (bs_id r)" using assms(6) by blast
    then show ?thesis using False loop assms(2,5) by (auto simp: validated_block_exists_def fd_root_of_def)
  qed
qed

theorem fork_db_search_exact_witness:
  "search_on_branch ex_fork_db (fork_id 3 3) 2 False = Inr (Some fork_a) \<and> validated_block_exists ex_fork_db (fork_id 3 3) (fork_id 1 2) = Inr True"
proof -
  have root: "fd_root ex_fork_db = Some fork_root" by (simp add: ex_fork_db_eq)
  have facts: "bs_block_num fork_root < 2" "bs_block_num fork_c = 3" "bs_block_num fork_a = 2" "bs_id fork_a = fork_id 1 2" "validated fork_a"
    by (simp_all add: fork_defs)
  have mem: "fork_id 1 2 \<in> bs_id ` set [fork_c, fork_a]" using facts(4) by simp
  from fork_db_search_exact[OF ex_fork_db_run root ex_fork_branch(1) facts(1), of "fork_id 1 2" False] mem facts(2-5)
  show ?thesis by auto
qed

text \<open>
  C18. The loops of the fork database end in every database the calls can build: the queries return, and the other calls never
  fail to return, whatever their arguments.
\<close>

theorem fork_db_loops_return:
  assumes "fdb_run db" and "fd_root db = Some r"
  shows "(\<exists>bs. fetch_branch db i n = Inr bs) \<and> (\<exists>b. search_on_branch db i n include_root = Inr b) \<and> (\<exists>db'. fd_remove i db = Inr db') \<and>
    fetch_branch_from db i j \<noteq> Inl no_termination \<and> validated_block_exists db i j \<noteq> Inl no_termination \<and>
    advance_root i db \<noteq> Inl no_termination \<and> fst (add_block v b ignore_duplicate db) \<noteq> Inl no_termination"
proof -
  have ok: "fdb_ok db r" by (rule fdb_inv_Some[OF fdb_run_inv[OF assms(1)] assms(2)])
  note iok = fdb_ok_idx[OF ok]
  have ffb: "fetch_branch_from db i j \<noteq> Inl no_termination"
  proof (cases "get_block_from db r i = None \<or> get_block_from db r j = None")
    case True
    then show ?thesis using assms(2) by (auto simp: fetch_branch_from_def fd_root_of_def split: option.splits)
  next
    case False
    then obtain f s where "known db r f" "bs_id f = i" "known db r s" "bs_id s = j" using get_block_from_known[OF ok] by auto
    then show ?thesis using fetch_branch_from_spec[OF ok, of f s] by auto
  qed
  have adv: "advance_root i db \<noteq> Inl no_termination"
    using advance_root_spec[OF ok, of i] assms(2) by (auto simp: advance_root_def eos_assert_def split: option.splits)
  have "note_claim b db \<noteq> Inl no_termination"
    using search_on_branch_spec[OF iok assms(2)] by (auto simp: note_claim_def Let_def bind_res_def asserted_def split: option.splits sum.splits)
  then have "fst (add_block v b ignore_duplicate db) \<noteq> Inl no_termination"
    using assms(2) by (auto simp: add_block_def eos_assert_def split: option.splits sum.splits prod.splits)
  then show ?thesis
    using fetch_branch_path(1)[OF iok] search_on_branch_spec[OF iok assms(2)] fd_remove_spec[OF iok, of i] ffb adv
      validated_block_exists_total[OF iok assms(2)] by simp
qed

theorem fork_db_loops_return_witness: "fetch_branch_from ex_fork_db (fork_id 3 3) (fork_id 9 9) \<noteq> Inl no_termination"
proof -
  have root: "fd_root ex_fork_db = Some fork_root" by (simp add: ex_fork_db_eq)
  from fork_db_loops_return[OF ex_fork_db_run root] show ?thesis by blast
qed

text \<open>
  C19. The pending final block is never moved to a lower number: over any sequence of calls on a fork database the number of its
  identifier does not decrease, also when the calls fail or the root is reset.
\<close>

theorem pending_lib_monotone:
  assumes "fdb_step\<^sup>*\<^sup>* db db'"
  shows "num_from_id (pending_savanna_lib_id db) \<le> num_from_id (pending_savanna_lib_id db')"
  using assms by (induction rule: rtranclp_induct) (auto dest: fdb_step_pending intro: order.trans)

theorem pending_lib_monotone_witness:
  "(2 :: u32) \<le> num_from_id (pending_savanna_lib_id (reset_root fork_root (snd (set_pending_savanna_lib_id (fork_id 1 2) (empty_fork_db (fork_id 2 1))))))"
proof -
  let ?db = "snd (set_pending_savanna_lib_id (fork_id 1 2) (empty_fork_db (fork_id 2 1)))"
  have "fdb_step\<^sup>*\<^sup>* ?db (reset_root fork_root ?db)" by (rule r_into_rtranclp, rule step_reset) (simp add: fork_defs)
  from pending_lib_monotone[OF this] show ?thesis by (simp add: set_pending_savanna_lib_id_def)
qed

text \<open>
  C17. Closing the database and opening what was written gives the same root, validated, and the same blocks in the same order, as far
  as a block state is serialized: the action root and the base digest come back empty, the proposer policies at new
  addresses. The hypotheses: every block has a better key than its predecessor, the claims of the blocks can be looked up,
  the header extensions validate and the protocol features are accepted. Opening notes the claims of the blocks again, so
  the number of the pending final block is at least the one that was written.
\<close>

theorem fork_db_reopen:
  assumes "fdb_run db" and "fd_root db = Some r" and "keys_rise db" and "\<forall>b\<in>set (fd_index db). \<exists>x. note_claim b db = Inr x"
    and "\<forall>b\<in>set (r # fd_index db). exts_valid cod b" and "\<forall>ts cur new. v ts cur new = Inr ()"
  shows "\<exists>content closed p idx'. close_impl db = Inr (content, closed) \<and> fd_index closed = [] \<and>
    open_impl cod fresh v content (empty_fork_db i) =
      (Inr (), \<lparr>fd_root = Some (set_valid True (reload fresh r)), pending_savanna_lib_id = p, fd_index = idx'\<rparr>) \<and>
    list_all2 reloaded (fd_index db) idx' \<and> num_from_id (pending_savanna_lib_id db) \<le> num_from_id p"
proof -
  have ok: "fdb_ok db r" by (rule fdb_inv_Some[OF fdb_run_inv[OF assms(1)] assms(2)])
  define idx' where "idx' = rev (reload_all (fresh + 3) (rev (fd_index db)))"
  have R: "list_all2 reloaded (fd_index db) idx'"
    using reload_all_reloaded[of "rev (fd_index db)" "fresh + 3"] list_all2_rev[of reloaded "fd_index db" idx'] by (simp add: idx'_def)
  let ?db' = "db\<lparr>fd_index := idx', fd_root := Some (reload fresh r)\<rparr>"
  let ?db0 = "reset_root (reload fresh r) ((empty_fork_db i)\<lparr>pending_savanna_lib_id := pending_savanna_lib_id db\<rparr>)"
  have claims: "\<forall>b\<in>set (fd_index ?db'). \<exists>x. note_claim b ?db' = Inr x"
  proof
    fix b' assume "b' \<in> set (fd_index ?db')"
    then obtain j where j: "j < length idx'" "b' = idx' ! j" by (auto simp: in_set_conv_nth)
    then have "fd_index db ! j \<in> set (fd_index db)" "reloaded (fd_index db ! j) b'" using R by (simp_all add: list_all2_conv_all_nth)
    then show "\<exists>x. note_claim b' ?db' = Inr x" using assms(4) reloaded_note_claim[OF ok R] by blast
  qed
  from add_blocks_rebuilds[OF reloaded_db_ok[OF ok R, of fresh] reloaded_keys_rise[OF assms(3) R] claims assms(6), of idx' "[]" ?db0
      "set_valid True (reload fresh r)"] obtain p where
    p: "add_blocks v (rev idx') ?db0 = (Inr (), ?db0\<lparr>fd_index := idx', pending_savanna_lib_id := p\<rparr>)"
    "num_from_id (pending_savanna_lib_id db) \<le> num_from_id p" by (auto simp: reset_root_def set_valid_def)
  have "add_all cod (fresh + 3) v (map pack_block_state (rev (fd_index db))) ?db0 = add_blocks v (rev idx') ?db0"
    using add_all_unpacks[of "rev (fd_index db)"] assms(5) by (simp add: idx'_def)
  moreover have "unpack_block_state cod fresh (pack_block_state r) = Inr (reload fresh r)" using assms(5) by (intro unpack_pack) simp
  ultimately have "open_impl cod fresh v (pending_savanna_lib_id db, pack_block_state r, map pack_block_state (rev (fd_index db))) (empty_fork_db i) =
      (Inr (), \<lparr>fd_root = Some (set_valid True (reload fresh r)), pending_savanna_lib_id = p, fd_index = idx'\<rparr>)"
    using p(1) by (simp add: open_impl_def Let_def reset_root_def set_valid_def)
  moreover have "close_impl db = Inr ((pending_savanna_lib_id db, pack_block_state r, map pack_block_state (rev (fd_index db))), db\<lparr>fd_index := []\<rparr>)"
    using assms(2) by (simp add: close_impl_def fd_root_of_def assert_opt_def)
  ultimately show ?thesis using R p(2) by fastforce
qed

theorem fork_db_reopen_witness:
  "\<exists>content closed p idx'. close_impl ex_fork_db = Inr (content, closed) \<and>
     open_impl ex_cod 7 (\<lambda>_ _ _. Inr ()) content (empty_fork_db sha256_zero) =
       (Inr (), \<lparr>fd_root = Some (set_valid True (reload 7 fork_root)), pending_savanna_lib_id = p, fd_index = idx'\<rparr>) \<and>
     list_all2 reloaded [fork_c, fork_b, fork_a] idx'"
proof -
  have root: "fd_root ex_fork_db = Some fork_root" and idx: "fd_index ex_fork_db = [fork_c, fork_b, fork_a]" by (simp_all add: ex_fork_db_eq)
  have rise: "keys_rise ex_fork_db" by (simp add: keys_rise_def idx fork_defs)
  have claims: "\<forall>b\<in>set (fd_index ex_fork_db). \<exists>x. note_claim b ex_fork_db = Inr x" by (simp add: idx note_claim_def fork_defs)
  have exts: "\<forall>b\<in>set (fork_root # fd_index ex_fork_db). exts_valid ex_cod b"
    by (simp add: idx exts_valid_def validate_and_extract_header_extensions_def fork_defs fork_block_def ex_header_def ex_s1_def ex_state_def)
  from fork_db_reopen[OF ex_fork_db_run root rise claims exts, of "\<lambda>_ _ _. Inr ()" 7 sha256_zero] show ?thesis unfolding idx by simp blast
qed

end
