(* ===== verification/Chain_Name.thy ===== *)
theory Chain_Name
  imports Prelude
begin

text \<open>
  Account, permission, action and table names (libraries/chain/include/eosio/chain/name.hpp, name.cpp): 64-bit integers written
  with up to thirteen characters, twelve of five bits and a last one of four. Characters compare by their ASCII codes.
\<close>

section \<open>Definitions\<close>

type_synonym name = u64

definition char_code :: "char \<Rightarrow> u64" where
  "char_code c = of_nat (of_char c)"

definition char_to_symbol :: "char \<Rightarrow> u64" where
  "char_to_symbol c =
     (if char_code c \<ge> char_code CHR ''a'' \<and> char_code c \<le> char_code CHR ''z'' then (char_code c - char_code CHR ''a'') + 6
      else if char_code c \<ge> char_code CHR ''1'' \<and> char_code c \<le> char_code CHR ''5'' then (char_code c - char_code CHR ''1'') + 1
      else 0)"

fun string_loop :: "string \<Rightarrow> nat \<Rightarrow> u64 \<Rightarrow> u64" where
  "string_loop [] i n = n"
| "string_loop (c # cs) i n =
     (if i < 12 then string_loop cs (Suc i) (n OR push_bit (64 - 5 * (i + 1)) (char_to_symbol c AND 0x1f))
      else if i = 12 then n OR (char_to_symbol c AND 0x0f) else n)"

definition string_to_uint64_t :: "string \<Rightarrow> u64" where
  "string_to_uint64_t str = string_loop str 0 0"

definition charmap :: string where
  "charmap = ''.12345abcdefghijklmnopqrstuvwxyz''"

fun to_string_loop :: "nat \<Rightarrow> nat \<Rightarrow> u64 \<Rightarrow> string \<Rightarrow> string" where
  "to_string_loop 0 i tmp str = str"
| "to_string_loop (Suc k) i tmp str =
     to_string_loop k (Suc i) (drop_bit (if i = 0 then 4 else 5) tmp) (str[12 - i := charmap ! unat (tmp AND (if i = 0 then 0x0f else 0x1f))])"

definition trim_right_dots :: "string \<Rightarrow> string" where
  "trim_right_dots str = rev (dropWhile (\<lambda>c. c = CHR ''.'') (rev str))"

definition name_to_string :: "name \<Rightarrow> string" where
  "name_to_string v = trim_right_dots (to_string_loop 13 0 v (replicate 13 CHR ''.''))"

definition name_set :: "string \<Rightarrow> name res" where
  "name_set str =
     bind_res (eos_assert (length str \<le> 13) name_type_exception) (\<lambda>_.
     let v = string_to_uint64_t str in
     bind_res (eos_assert (name_to_string v = str) name_type_exception) (\<lambda>_. Inr v))"

text \<open>The loop of \<^verbatim>\<open>prefix\<close> from the right; \<open>seen\<close> says that a character other than the dot was met.\<close>

function prefix_loop :: "name \<Rightarrow> nat \<Rightarrow> bool \<Rightarrow> name" where
  "prefix_loop v offset seen =
     (if offset \<le> 59 then
        (if drop_bit offset v AND (if offset = 0 then 0xf else 0x1f) = 0 then
           (if seen then push_bit offset (drop_bit offset v)
            else prefix_loop v (if offset = 0 then 4 else offset + 5) False)
         else prefix_loop v (if offset = 0 then 4 else offset + 5) True)
      else v)"
  by pat_completeness auto
termination
  by (relation "measure (\<lambda>(v, offset, seen). 64 - offset)") auto

definition name_prefix :: "name \<Rightarrow> name" where
  "name_prefix v = prefix_loop v 0 False"

section \<open>The characters of a name\<close>

text \<open>The field of the character at a position.\<close>

definition field :: "name \<Rightarrow> nat \<Rightarrow> u64" where
  "field v i = (if i < 12 then drop_bit (59 - 5 * i) v AND 0x1f else v AND 0x0f)"

lemma charmap_symbols: "map char_to_symbol charmap = map of_nat [0..<32]" "map (\<lambda>c. c = CHR ''.'') charmap = map (\<lambda>n. n = 0) [0..<32]"
  by (simp_all add: charmap_def char_to_symbol_def char_code_def upt_rec)

lemma charmap_nth:
  assumes "n < 32"
  shows "char_to_symbol (charmap ! n) = of_nat n" and "charmap ! n = CHR ''.'' \<longleftrightarrow> n = 0"
proof -
  have len: "n < length charmap" using assms by (simp add: charmap_def)
  show "char_to_symbol (charmap ! n) = of_nat n"
    using arg_cong[OF charmap_symbols(1), of "\<lambda>xs. xs ! n"] assms len by simp
  show "charmap ! n = CHR ''.'' \<longleftrightarrow> n = 0"
    using arg_cong[OF charmap_symbols(2), of "\<lambda>xs. xs ! n"] assms len by simp
qed

lemma field_lt: "unat (field v i) < 32"
proof -
  have "field v i \<le> 0x1f" by (auto simp: field_def intro: order.trans[OF word_and_le1])
  then show ?thesis by (simp add: word_le_nat_alt)
qed

lemma to_string_chars: "to_string_loop 13 0 v (replicate 13 CHR ''.'') = map (\<lambda>i. charmap ! unat (field v i)) [0..<13]"
  by (simp add: eval_nat_numeral field_def drop_bit_drop_bit upt_rec)

lemma symbol_of_field: "char_to_symbol (charmap ! unat (field v i)) = field v i"
  using charmap_nth(1)[OF field_lt] by simp

lemma string_loop_dots: "string_loop (s @ replicate k CHR ''.'') i n = string_loop s i n"
proof (induction s arbitrary: i n)
  case Nil
  have dot: "char_to_symbol CHR ''.'' = 0" by (simp add: char_to_symbol_def char_code_def)
  show ?case by (induction k arbitrary: i n) (simp_all add: dot)
qed simp

lemma drop_trailing: "\<exists>k. rev (dropWhile (\<lambda>c. c = x) (rev s)) @ replicate k x = s"
proof -
  let ?t = "rev (takeWhile (\<lambda>c. c = x) (rev s))"
  have "\<forall>c\<in>set ?t. c = x" by (auto dest: set_takeWhileD)
  then have "replicate (length ?t) x = ?t" by (rule replicate_length_same)
  moreover have "rev (dropWhile (\<lambda>c. c = x) (rev s)) @ ?t = s" by (metis rev_append rev_rev_ident takeWhile_dropWhile_id)
  ultimately show ?thesis by metis
qed

lemma trim_right_split: "\<exists>k. trim_right_dots s @ replicate k CHR ''.'' = s"
  unfolding trim_right_dots_def by (rule drop_trailing)

definition join_fields :: "(nat \<Rightarrow> u64) \<Rightarrow> u64" where
  "join_fields f = fold (\<lambda>i n. n OR push_bit (59 - 5 * i) (f i AND 0x1f)) [0..<12] 0 OR (f 12 AND 0x0f)"

lemma string_loop_fields: "string_loop (map g [0..<13]) 0 0 = join_fields (\<lambda>i. char_to_symbol (g i))"
proof -
  have "string_loop (map g [i..<13]) i n = fold (\<lambda>i n. n OR push_bit (59 - 5 * i) (char_to_symbol (g i) AND 0x1f)) [i..<12] n OR (char_to_symbol (g 12) AND 0x0f)"
    if "i \<le> 12" for i n
    using that
  proof (induction "12 - i" arbitrary: i n)
    case 0
    then have "i = 12" by simp
    then show ?case by (simp add: upt_conv_Cons)
  next
    case (Suc d)
    then have "[i..<13] = i # [Suc i..<13]" "[i..<12] = i # [Suc i..<12]" "i < 12" by (simp_all add: upt_conv_Cons)
    then show ?case using Suc(1)[of "Suc i"] Suc(2) by simp
  qed
  from this[of 0] show ?thesis by (simp add: join_fields_def)
qed

lemma join_fields_bit:
  assumes "k \<le> 12"
  shows "bit (fold (\<lambda>i n. n OR push_bit (59 - 5 * i) (field v i AND 0x1f)) [0..<k] 0) j \<longleftrightarrow> bit v j \<and> 64 - 5 * k \<le> j"
  using assms
proof (induction k)
  case (Suc k)
  have five: "(0x1f :: u64) = mask 5" by (simp add: mask_eq_exp_minus_1)
  have "bit (push_bit (59 - 5 * k) (field v k AND 0x1f)) j \<longleftrightarrow> bit v j \<and> 59 - 5 * k \<le> j \<and> j < 64 - 5 * k"
    using Suc.prems unfolding field_def five by (auto simp: bit_simps dest: bit_imp_le_length)
  then show ?case using Suc by (auto simp: bit_or_iff dest: bit_imp_le_length)
qed (auto dest: bit_imp_le_length)

lemma join_fields_id: "join_fields (field v) = v"
proof (rule bit_word_eqI)
  fix j :: nat assume "j < LENGTH(64)"
  have four: "(0x0f :: u64) = mask 4" by (simp add: mask_eq_exp_minus_1)
  show "bit (join_fields (field v)) j = bit v j"
    using join_fields_bit[of 12 v j] unfolding join_fields_def field_def[of v 12] four by (auto simp: bit_simps)
qed

lemma name_of_string: "string_to_uint64_t (name_to_string v) = v"
proof -
  let ?s = "map (\<lambda>i. charmap ! unat (field v i)) [0..<13]"
  obtain k where "name_to_string v @ replicate k CHR ''.'' = ?s"
    using trim_right_split[of ?s] by (auto simp: name_to_string_def to_string_chars)
  then have "string_to_uint64_t (name_to_string v) = string_loop ?s 0 0"
    using string_loop_dots[of "name_to_string v" k] by (simp add: string_to_uint64_t_def)
  also have "\<dots> = join_fields (field v)" unfolding string_loop_fields by (simp add: symbol_of_field)
  finally show ?thesis by (simp add: join_fields_id)
qed

lemma name_string_length: "length (name_to_string v) \<le> 13"
proof -
  have "length (trim_right_dots s) \<le> length s" for s unfolding trim_right_dots_def by (metis length_dropWhile_le length_rev)
  from this[of "to_string_loop 13 0 v (replicate 13 CHR ''.'')"] show ?thesis by (simp add: name_to_string_def to_string_chars)
qed

text \<open>The examples in the comment of \<^verbatim>\<open>prefix\<close>, and names with several dots or none before a character.\<close>

lemma name_prefix_examples:
  "name_to_string (name_prefix (string_to_uint64_t ''sys.any'')) = ''sys''"
  "name_to_string (name_prefix (string_to_uint64_t ''sys'')) = ''sys''"
  "name_to_string (name_prefix (string_to_uint64_t ''a.b.c'')) = ''a.b''"
  by code_simp+

section \<open>Properties\<close>

text \<open>
  C35. Every 64-bit value is the name of exactly one string: \<^verbatim>\<open>name::set\<close> accepts a string exactly when it is what
  \<^verbatim>\<open>to_string\<close> writes for some value, and then returns that value.
\<close>

theorem name_string_bijection: "name_set s = Inr v \<longleftrightarrow> s = name_to_string v"
  using name_string_length[of v] name_of_string[of v] by (auto simp: name_set_def Let_def eos_assert_def split: if_splits)

end
