(* ===== verification/Chain_Asset.thy ===== *)
theory Chain_Asset
  imports Raw_Containers
begin

text \<open>
  Token symbols and amounts (libraries/chain/include/eosio/chain/symbol.hpp, asset.hpp). An \<^verbatim>\<open>int64_t\<close> amount is a word read
  with \<open>sint\<close>; a signed operation that overflows is undefined. The text forms of assets, which go through a library parser of
  integers, are not modelled.
\<close>

section \<open>Symbols\<close>

type_synonym symbol = u64

definition max_precision :: u8 where "max_precision = 18"

definition upper_case :: "char \<Rightarrow> bool" where
  "upper_case c \<longleftrightarrow> of_char CHR ''A'' \<le> (of_char c :: nat) \<and> (of_char c :: nat) \<le> of_char CHR ''Z''"

text \<open>\<^verbatim>\<open>string_to_symbol\<close> over the characters before the terminating zero; a shift by 64 or more is undefined.\<close>

fun symbol_loop :: "string \<Rightarrow> nat \<Rightarrow> u64 \<Rightarrow> u64 res" where
  "symbol_loop [] i result = Inr result"
| "symbol_loop (c # cs) i result =
     bind_res (eos_assert (upper_case c) symbol_type_exception) (\<lambda>_.
     if 64 \<le> 8 * (i + 1) then Inl undefined_behaviour
     else symbol_loop cs (Suc i) (result OR push_bit (8 * (i + 1)) (of_nat (of_char c))))"

definition string_to_symbol :: "u8 \<Rightarrow> string \<Rightarrow> symbol res" where
  "string_to_symbol p str = bind_res (symbol_loop str 0 0) (\<lambda>r. Inr (r OR ucast p))"

definition decimals :: "symbol \<Rightarrow> u8" where
  "decimals s = ucast (s AND 0xff)"

lemma drop_byte_less: "v \<noteq> 0 \<Longrightarrow> unat (drop_bit 8 v) < unat (v :: u64)"
  using unat_drop_bit[of 8 v] by (simp add: unat_gt_0 div_less_dividend)

function symbol_name_loop :: "u64 \<Rightarrow> string" where
  "symbol_name_loop v = (if 0 < v then char_of (unat (v AND 0xff)) # symbol_name_loop (drop_bit 8 v) else [])"
  by pat_completeness auto
termination
  by (relation "measure unat") (auto intro: drop_byte_less simp: word_neq_0_conv)

declare symbol_name_loop.simps [simp del]

definition symbol_name :: "symbol \<Rightarrow> string" where
  "symbol_name s = symbol_name_loop (drop_bit 8 s)"

definition valid_name :: "string \<Rightarrow> bool" where
  "valid_name s = list_all upper_case s"

definition symbol_valid :: "symbol \<Rightarrow> bool" where
  "symbol_valid s \<longleftrightarrow> decimals s \<le> max_precision \<and> valid_name (symbol_name s)"

fun precision_loop :: "nat \<Rightarrow> u64 \<Rightarrow> u64" where
  "precision_loop 0 p10 = p10"
| "precision_loop (Suc p) p10 = precision_loop p (p10 * 10)"

definition symbol_precision :: "symbol \<Rightarrow> u64 res" where
  "symbol_precision s =
     bind_res (eos_assert (decimals s \<le> max_precision) symbol_type_exception) (\<lambda>_. Inr (precision_loop (unat (decimals s)) 1))"

text \<open>The constructors and the check after deserialization.\<close>

definition symbol_of_text :: "u8 \<Rightarrow> string \<Rightarrow> symbol res" where
  "symbol_of_text p str =
     bind_res (string_to_symbol p str) (\<lambda>v. bind_res (eos_assert (symbol_valid v) symbol_type_exception) (\<lambda>_. Inr v))"

definition symbol_of_value :: "u64 \<Rightarrow> symbol res" where
  "symbol_of_value v = bind_res (eos_assert (symbol_valid v) symbol_type_exception) (\<lambda>_. Inr v)"

definition symbol_reflector_init :: "symbol \<Rightarrow> unit res" where
  "symbol_reflector_init s =
     bind_res (eos_assert (decimals s \<le> max_precision) symbol_type_exception) (\<lambda>_.
     eos_assert (valid_name (symbol_name s)) symbol_type_exception)"

section \<open>Assets\<close>

record asset =
  amount :: u64
  asset_symbol :: symbol

definition max_amount :: int where "max_amount = 2 ^ 62 - 1"

definition is_amount_within_range :: "asset \<Rightarrow> bool" where
  "is_amount_within_range a \<longleftrightarrow> - max_amount \<le> sint (amount a) \<and> sint (amount a) \<le> max_amount"

definition asset_is_valid :: "asset \<Rightarrow> bool" where
  "asset_is_valid a \<longleftrightarrow> is_amount_within_range a \<and> symbol_valid (asset_symbol a)"

definition asset_reflector_init :: "asset \<Rightarrow> unit res" where
  "asset_reflector_init a =
     bind_res (eos_assert (is_amount_within_range a) asset_type_exception) (\<lambda>_.
     eos_assert (symbol_valid (asset_symbol a)) asset_type_exception)"

definition asset_make :: "u64 \<Rightarrow> symbol \<Rightarrow> asset res" where
  "asset_make x s = (let a = \<lparr>amount = x, asset_symbol = s\<rparr> in bind_res (asset_reflector_init a) (\<lambda>_. Inr a))"

text \<open>Signed 64-bit arithmetic.\<close>

definition int64 :: "int \<Rightarrow> u64 res" where
  "int64 i = (if - (2 ^ 63) \<le> i \<and> i < 2 ^ 63 then Inr (of_int i) else Inl undefined_behaviour)"

definition asset_add_assign :: "asset \<Rightarrow> asset \<Rightarrow> asset res" where
  "asset_add_assign a b =
     bind_res (eos_assert (asset_symbol a = asset_symbol b) asset_type_exception) (\<lambda>_.
     bind_res (int64 (sint (amount a) + sint (amount b))) (\<lambda>x. Inr (a\<lparr>amount := x\<rparr>)))"

definition asset_sub_assign :: "asset \<Rightarrow> asset \<Rightarrow> asset res" where
  "asset_sub_assign a b =
     bind_res (eos_assert (asset_symbol a = asset_symbol b) asset_type_exception) (\<lambda>_.
     bind_res (int64 (sint (amount a) - sint (amount b))) (\<lambda>x. Inr (a\<lparr>amount := x\<rparr>)))"

definition asset_neg :: "asset \<Rightarrow> asset res" where
  "asset_neg a = bind_res (int64 (- sint (amount a))) (\<lambda>x. asset_make x (asset_symbol a))"

definition asset_plus :: "asset \<Rightarrow> asset \<Rightarrow> asset res" where
  "asset_plus a b =
     bind_res (eos_assert (asset_symbol a = asset_symbol b) asset_type_exception) (\<lambda>_.
     bind_res (int64 (sint (amount a) + sint (amount b))) (\<lambda>x. asset_make x (asset_symbol a)))"

definition asset_minus :: "asset \<Rightarrow> asset \<Rightarrow> asset res" where
  "asset_minus a b =
     bind_res (eos_assert (asset_symbol a = asset_symbol b) asset_type_exception) (\<lambda>_.
     bind_res (int64 (sint (amount a) - sint (amount b))) (\<lambda>x. asset_make x (asset_symbol a)))"

text \<open>Equal symbols are asserted, so the comparison of the pairs is that of the amounts.\<close>

definition asset_less :: "asset \<Rightarrow> asset \<Rightarrow> bool res" where
  "asset_less a b =
     bind_res (eos_assert (asset_symbol a = asset_symbol b) asset_type_exception) (\<lambda>_.
     Inr (sint (amount a) < sint (amount b) \<or> sint (amount a) = sint (amount b) \<and> asset_symbol a < asset_symbol b))"

definition asset_ge :: "asset \<Rightarrow> asset \<Rightarrow> bool res" where
  "asset_ge a b = bind_res (asset_less a b) (\<lambda>l. Inr (\<not> l))"

definition pack_asset :: "asset packer" where
  "pack_asset a = pack_then (pack_u64 (amount a)) (pack_u64 (asset_symbol a))"

definition unpack_asset :: "asset reader" where
  "unpack_asset = unpack_then unpack_u64 (\<lambda>x. unpack_then unpack_u64 (\<lambda>s rest.
     bind_res (symbol_reflector_init s) (\<lambda>_.
     let a = \<lparr>amount = x, asset_symbol = s\<rparr> in bind_res (asset_reflector_init a) (\<lambda>_. unpack_return a rest))))"

interpretation asset: codec asset_is_valid pack_asset unpack_asset
  by unfold_locales (auto simp: pack_asset_def unpack_asset_def res_simps codec_step[OF u64.codec_axioms] unpack_simps
      asset_is_valid_def symbol_valid_def symbol_reflector_init_def asset_reflector_init_def eos_assert_def Let_def is_amount_within_range_def)

section \<open>Names of symbols\<close>

fun name_bits :: "string \<Rightarrow> u64" where
  "name_bits [] = 0"
| "name_bits (c # cs) = of_nat (of_char c) OR push_bit 8 (name_bits cs)"

lemma of_char_less_256: "(of_char c :: nat) < 256"
  using mod_less_divisor[of 256 "of_char c :: nat"] by simp

lemma unat_char: "unat (of_nat (of_char c) :: u64) = of_char c"
proof -
  have "(of_char c :: nat) < 2 ^ LENGTH(64)" by (rule order.strict_trans[OF of_char_less_256]) simp
  then show ?thesis by (simp add: unat_of_nat)
qed

lemma char_bits: "bit (of_nat (of_char c) :: u64) j \<Longrightarrow> j < 8"
proof -
  assume "bit (of_nat (of_char c) :: u64) j"
  then have "bit (of_char c :: nat) j" by (simp add: bit_simps)
  moreover have "take_bit 8 (of_char c :: nat) = of_char c" using of_char_less_256[of c] by (simp add: take_bit_nat_eq_self_iff)
  ultimately show "j < 8" by (metis bit_take_bit_iff)
qed

lemma name_bits_bound: "bit (name_bits cs) j \<Longrightarrow> j < 8 * length cs"
proof (induction cs arbitrary: j)
  case (Cons c cs)
  from Cons.prems have "bit (of_nat (of_char c) :: u64) j \<or> 8 \<le> j \<and> bit (name_bits cs) (j - 8)"
    by (auto simp: bit_or_iff bit_push_bit_iff simp del: of_nat_of_char)
  then show ?case using char_bits[of c j] Cons.IH[of "j - 8"] by auto
qed simp

lemma drop_name_bits:
  assumes "length cs \<le> 7"
  shows "drop_bit 8 (w OR push_bit 8 (name_bits cs)) = drop_bit 8 w OR name_bits cs"
proof (rule bit_word_eqI)
  fix j assume "j < LENGTH(64)"
  show "bit (drop_bit 8 (w OR push_bit 8 (name_bits cs))) j = bit (drop_bit 8 w OR name_bits cs) j"
    using name_bits_bound[of cs j] assms by (auto simp: bit_simps)
qed

lemma drop_char: "drop_bit 8 (of_nat (of_char c) :: u64) = 0"
  by (rule bit_word_eqI) (auto simp: bit_drop_bit_eq dest: char_bits simp del: of_nat_of_char)

lemma low_char: "((of_nat (of_char c) :: u64) OR push_bit 8 w) AND 0xff = of_nat (of_char c)"
proof -
  have m: "(0xff :: u64) = mask 8" by (simp add: mask_eq_exp_minus_1)
  show ?thesis unfolding m
    by (auto intro!: bit_word_eqI simp: bit_and_iff bit_or_iff bit_push_bit_iff bit_mask_iff dest: char_bits simp del: of_nat_of_char)
qed

lemma upper_case_pos: "upper_case c \<Longrightarrow> 0 < (of_char c :: nat)"
  by (simp add: upper_case_def)

lemma symbol_name_bits: "valid_name cs \<Longrightarrow> length cs \<le> 8 \<Longrightarrow> symbol_name_loop (name_bits cs) = cs"
proof (induction cs)
  case (Cons c cs)
  have c: "0 < (of_char c :: nat)" "(of_char c :: nat) < 256" using Cons.prems upper_case_pos of_char_less_256 by (auto simp: valid_name_def)
  note u = unat_char[of c]
  have "name_bits (c # cs) \<noteq> 0"
  proof
    assume "name_bits (c # cs) = 0"
    then have "(of_nat (of_char c) :: u64) = 0" using low_char[of c "name_bits cs"] by simp
    then show False using c u by simp
  qed
  then have "symbol_name_loop (name_bits (c # cs)) = char_of (unat (of_nat (of_char c) :: u64)) # symbol_name_loop (name_bits cs)"
    using Cons.prems drop_name_bits[of cs "of_nat (of_char c)"] low_char[of c "name_bits cs"]
    by (subst symbol_name_loop.simps) (simp add: drop_char word_neq_0_conv)
  then show ?case using Cons u by (simp add: valid_name_def)
qed (simp add: symbol_name_loop.simps)

lemma symbol_loop_bits:
  "valid_name cs \<Longrightarrow> i + length cs \<le> 7 \<Longrightarrow> symbol_loop cs i r = Inr (r OR push_bit (8 * (i + 1)) (name_bits cs))"
proof (induction cs arbitrary: i r)
  case (Cons c cs)
  have "push_bit (8 * (i + 1)) (name_bits (c # cs)) = push_bit (8 * (i + 1)) (of_nat (of_char c)) OR push_bit (8 * (Suc i + 1)) (name_bits cs)"
    by (simp add: push_bit_or push_bit_push_bit)
  then show ?case using Cons by (simp add: valid_name_def eos_assert_def or.assoc)
qed simp

lemma symbol_loop_long:
  "valid_name cs \<Longrightarrow> 7 < i + length cs \<Longrightarrow> i \<le> 7 \<Longrightarrow> symbol_loop cs i r = Inl undefined_behaviour"
  by (induction cs arbitrary: i r) (auto simp: valid_name_def eos_assert_def)

section \<open>Amounts\<close>

lemma sint_int64: "- (2 ^ 63) \<le> i \<Longrightarrow> i < 2 ^ 63 \<Longrightarrow> sint (of_int i :: u64) = i"
  by (simp add: sint_sbintrunc' signed_take_bit_int_eq_self)

lemma int64_make:
  assumes "symbol_valid s" and "- (2 ^ 63) \<le> i" and "i < 2 ^ 63"
  shows "bind_res (int64 i) (\<lambda>x. asset_make x s) =
    (if \<bar>i\<bar> \<le> max_amount then Inr \<lparr>amount = of_int i, asset_symbol = s\<rparr> else Inl asset_type_exception)"
  using assms sint_int64[OF assms(2,3)]
  by (auto simp: int64_def asset_make_def asset_reflector_init_def is_amount_within_range_def eos_assert_def Let_def)

lemma amount_bounds: "asset_is_valid a \<Longrightarrow> \<bar>sint (amount a)\<bar> < 2 ^ 62"
  by (auto simp: asset_is_valid_def is_amount_within_range_def max_amount_def)

section \<open>Properties\<close>

text \<open>
  C36. A name of at most seven capital letters and a precision are read back from the symbol made of them, and the symbol is valid
  exactly when the precision is at most 18. The length of the name is not checked: for more than seven letters the
  conversion shifts a 64-bit value by 64, which is undefined.
\<close>

theorem symbol_name_round_trip:
  assumes "valid_name str"
  shows "if length str \<le> 7
    then \<exists>v. string_to_symbol p str = Inr v \<and> symbol_name v = str \<and> decimals v = p \<and> (symbol_valid v \<longleftrightarrow> p \<le> 18)
    else string_to_symbol p str = Inl undefined_behaviour"
proof (cases "length str \<le> 7")
  case True
  let ?v = "push_bit 8 (name_bits str) OR ucast p"
  have v: "string_to_symbol p str = Inr ?v" using symbol_loop_bits[OF assms, of 0 0] True by (simp add: string_to_symbol_def)
  have p8: "drop_bit 8 (ucast p :: u64) = 0" by (rule bit_word_eqI) (auto simp: bit_simps dest: bit_imp_le_length)
  have "drop_bit 8 ?v = name_bits str" using drop_name_bits[OF True, of "ucast p"] p8 by (simp add: or.commute)
  then have name: "symbol_name ?v = str" using symbol_name_bits[OF assms] True by (simp add: symbol_name_def)
  have m: "(0xff :: u64) = mask 8" by (simp add: mask_eq_exp_minus_1)
  have dec: "decimals ?v = p" unfolding decimals_def m by (rule bit_word_eqI) (auto simp: bit_simps)
  show ?thesis using True v name dec assms by (simp add: symbol_valid_def max_precision_def)
next
  case False
  then show ?thesis using symbol_loop_long[OF assms, of 0 0] by (simp add: string_to_symbol_def)
qed

theorem symbol_name_round_trip_witness:
  "(\<exists>v. string_to_symbol 4 ''FLON'' = Inr v \<and> symbol_name v = ''FLON'' \<and> decimals v = 4) \<and>
   string_to_symbol 4 ''ABCDEFGH'' = Inl undefined_behaviour"
proof -
  have ok: "valid_name ''FLON''" "valid_name ''ABCDEFGH''" by (simp_all add: valid_name_def upper_case_def)
  have "\<exists>v. string_to_symbol 4 ''FLON'' = Inr v \<and> symbol_name v = ''FLON'' \<and> decimals v = 4"
    using symbol_name_round_trip[OF ok(1), of 4] by auto
  moreover have "string_to_symbol 4 ''ABCDEFGH'' = Inl undefined_behaviour"
    using symbol_name_round_trip[OF ok(2), of 4] by simp
  ultimately show ?thesis ..
qed

text \<open>
  C34. Arithmetic on valid assets is typed and exact. Sums, differences and negations never overflow the 64-bit amount: they
  return a valid asset of the same symbol with the exact amount, or raise the asset exception exactly when the symbols
  differ or the result is beyond the largest amount. The assigning forms keep the symbol and the exact amount, but do not check
  the range.
\<close>

theorem asset_arithmetic_typed:
  assumes "asset_is_valid a" and "asset_is_valid b"
  shows "(case asset_plus a b of
       Inr c \<Rightarrow> asset_is_valid c \<and> asset_symbol b = asset_symbol a \<and> c = a\<lparr>amount := amount c\<rparr> \<and> sint (amount c) = sint (amount a) + sint (amount b)
     | Inl e \<Rightarrow> e = asset_type_exception \<and> (asset_symbol a = asset_symbol b \<longrightarrow> max_amount < \<bar>sint (amount a) + sint (amount b)\<bar>)) \<and>
     (case asset_minus a b of
       Inr c \<Rightarrow> asset_is_valid c \<and> asset_symbol b = asset_symbol a \<and> c = a\<lparr>amount := amount c\<rparr> \<and> sint (amount c) = sint (amount a) - sint (amount b)
     | Inl e \<Rightarrow> e = asset_type_exception \<and> (asset_symbol a = asset_symbol b \<longrightarrow> max_amount < \<bar>sint (amount a) - sint (amount b)\<bar>)) \<and>
     (\<exists>c. asset_neg a = Inr c \<and> asset_is_valid c \<and> sint (amount c) = - sint (amount a)) \<and>
     (asset_symbol a = asset_symbol b \<longrightarrow> (\<exists>x y. asset_add_assign a b = Inr (a\<lparr>amount := x\<rparr>) \<and> asset_sub_assign a b = Inr (a\<lparr>amount := y\<rparr>) \<and>
        sint x = sint (amount a) + sint (amount b) \<and> sint y = sint (amount a) - sint (amount b)))"
proof -
  let ?a = "sint (amount a)" and ?b = "sint (amount b)"
  note bnd = amount_bounds[OF assms(1)] amount_bounds[OF assms(2)]
  have s: "symbol_valid (asset_symbol a)" using assms(1) by (simp add: asset_is_valid_def)
  have plus: "- (2 ^ 63) \<le> ?a + ?b" "?a + ?b < 2 ^ 63" and minus: "- (2 ^ 63) \<le> ?a - ?b" "?a - ?b < 2 ^ 63"
    and neg: "- (2 ^ 63) \<le> - ?a" "- ?a < 2 ^ 63" using bnd by auto
  have rec: "\<lparr>amount = x, asset_symbol = asset_symbol a\<rparr> = a\<lparr>amount := x\<rparr>" for x by (cases a) simp
  have valid: "asset_is_valid (a\<lparr>amount := of_int i\<rparr>)" if "\<bar>i\<bar> \<le> max_amount" "sint (of_int i :: u64) = i" for i
    using that s by (auto simp: asset_is_valid_def is_amount_within_range_def)
  have na: "\<bar>- ?a\<bar> \<le> max_amount" using bnd(1) by (simp add: max_amount_def)
  note facts = int64_make[OF s plus] int64_make[OF s minus] int64_make[OF s neg] sint_int64[OF plus] sint_int64[OF minus] sint_int64[OF neg]
  have neg': "\<exists>c. asset_neg a = Inr c \<and> asset_is_valid c \<and> sint (amount c) = - ?a"
    using facts(3,6) na valid[OF na facts(6)] by (simp add: asset_neg_def rec del: of_int_minus)
  have assign: "asset_add_assign a b = Inr (a\<lparr>amount := of_int (?a + ?b)\<rparr>)" "asset_sub_assign a b = Inr (a\<lparr>amount := of_int (?a - ?b)\<rparr>)"
    if "asset_symbol a = asset_symbol b"
    using that plus minus by (simp_all add: asset_add_assign_def asset_sub_assign_def eos_assert_def int64_def del: of_int_add of_int_diff)
  have p: "case asset_plus a b of
       Inr c \<Rightarrow> asset_is_valid c \<and> asset_symbol b = asset_symbol a \<and> c = a\<lparr>amount := amount c\<rparr> \<and> sint (amount c) = ?a + ?b
     | Inl e \<Rightarrow> e = asset_type_exception \<and> (asset_symbol a = asset_symbol b \<longrightarrow> max_amount < \<bar>?a + ?b\<bar>)"
    using facts(1,4) valid[OF _ facts(4)]
    by (cases "asset_symbol b = asset_symbol a") (auto simp: asset_plus_def eos_assert_def rec simp del: of_int_add)
  have m: "case asset_minus a b of
       Inr c \<Rightarrow> asset_is_valid c \<and> asset_symbol b = asset_symbol a \<and> c = a\<lparr>amount := amount c\<rparr> \<and> sint (amount c) = ?a - ?b
     | Inl e \<Rightarrow> e = asset_type_exception \<and> (asset_symbol a = asset_symbol b \<longrightarrow> max_amount < \<bar>?a - ?b\<bar>)"
    using facts(2,5) valid[OF _ facts(5)]
    by (cases "asset_symbol b = asset_symbol a") (auto simp: asset_minus_def eos_assert_def rec simp del: of_int_diff)
  show ?thesis using p m neg' assign facts(4,5) by blast
qed

theorem asset_arithmetic_typed_witness:
  "\<exists>c. asset_neg \<lparr>amount = 7, asset_symbol = 0x4e4f4c4604\<rparr> = Inr c \<and> asset_is_valid c \<and> sint (amount c) = - 7"
proof -
  have "valid_name ''FLON''" by (simp add: valid_name_def upper_case_def)
  moreover have "symbol_name 0x4e4f4c4604 = ''FLON''" by code_simp
  ultimately have "asset_is_valid \<lparr>amount = 7, asset_symbol = 0x4e4f4c4604\<rparr>"
    by (simp add: asset_is_valid_def is_amount_within_range_def max_amount_def symbol_valid_def decimals_def max_precision_def)
  from asset_arithmetic_typed[OF this this] show ?thesis by simp
qed

end
