(* ===== verification/Resource_Limits.thy ===== *)
theory Resource_Limits
  imports Chain_Asset Chain_Name
begin

text \<open>
  Gas and resource accounting (libraries/chain/resource_limits.cpp, resource_limits.hpp, resource_limits_private.hpp and the core
  token rows of contract_table_utils.cpp). The tables of the chain database are maps; a missing row that the code gets without
  a test is \<open>out_of_range_exception\<close>. An operation that throws gives no database: the changes it made before are undone with the session of
  the transaction. The system gas account and the core symbol come from a header the build generates and are
  parameters. Logging is left out.
\<close>

section \<open>Checked and decimal arithmetic\<close>

definition verify_add :: "u64 \<Rightarrow> u64 \<Rightarrow> unit res" where
  "verify_add a b = eos_assert (- 1 - a \<ge> b) calc_overflow_exception"

definition verify_delta_converting :: "u64 \<Rightarrow> unit res" where
  "verify_delta_converting a = eos_assert (a \<le> 0x7fffffffffffffff) calc_overflow_exception"

text \<open>
  The three templates at \<^verbatim>\<open>uint64_t\<close> and \<^verbatim>\<open>uint128_t\<close>: the operands have the narrow type, so the product is computed there and
  only the quotient is widened.
\<close>

definition multiply_decimal :: "u64 \<Rightarrow> u64 \<Rightarrow> u64 \<Rightarrow> u64 res" where
  "multiply_decimal a b p =
     (if a = 0 \<or> b = 0 \<or> p = 0 then Inr 0
      else let tmp = ucast (a * b div p) :: u128 in
        bind_res (eos_assert (tmp \<le> ucast (- 1 :: u64)) calc_overflow_exception) (\<lambda>_. Inr (ucast tmp)))"

definition multiply_decimal_ceil :: "u64 \<Rightarrow> u64 \<Rightarrow> u64 \<Rightarrow> u64 res" where
  "multiply_decimal_ceil a b p =
     (if a = 0 \<or> b = 0 \<or> p = 0 then Inr 0
      else let tmp = ucast ((a * b + (p - 1)) div p) :: u128 in
        bind_res (eos_assert (tmp \<le> ucast (- 1 :: u64) \<and> (- 1 - a > p - 1 \<or> - 1 - b > p - 1)) calc_overflow_exception) (\<lambda>_. Inr (ucast tmp)))"

definition divide_decimal :: "u64 \<Rightarrow> u64 \<Rightarrow> u64 \<Rightarrow> u64 res" where
  "divide_decimal a b p =
     (if a = 0 \<or> b = 0 \<or> p = 0 then Inr 0
      else let tmp = ucast (a * p div b) :: u128 in
        bind_res (eos_assert (tmp \<le> ucast (- 1 :: u64)) calc_overflow_exception) (\<lambda>_. Inr (ucast tmp)))"

section \<open>Moving averages and elastic limits\<close>

record ratio =
  numerator :: u64
  denominator :: u64

definition times_ratio :: "u64 \<Rightarrow> ratio \<Rightarrow> u64 res" where
  "times_ratio v r =
     bind_res (eos_assert (numerator r = 0 \<or> - 1 div numerator r \<ge> v) rate_limiting_state_inconsistent) (\<lambda>_.
     if denominator r = 0 then Inl undefined_behaviour else Inr (v * numerator r div denominator r))"

definition integer_divide_ceil :: "'a::len word \<Rightarrow> 'a word \<Rightarrow> 'a word" where
  "integer_divide_ceil n d = n div d + (if n mod d > 0 then 1 else 0)"

definition rate_limiting_precision :: u64 where "rate_limiting_precision = 1000000"

record usage_accumulator =
  last_ordinal :: u32
  value_ex :: u64
  consumed :: u64

definition accumulator_average :: "usage_accumulator \<Rightarrow> u64" where
  "accumulator_average a = integer_divide_ceil (value_ex a) rate_limiting_precision"

definition accumulator_add :: "u64 \<Rightarrow> u32 \<Rightarrow> u32 \<Rightarrow> usage_accumulator \<Rightarrow> usage_accumulator res" where
  "accumulator_add units ordinal window_size a =
     bind_res (eos_assert (units \<le> - 1 div rate_limiting_precision) rate_limiting_state_inconsistent) (\<lambda>_.
     bind_res (eos_assert (- 1 - consumed a \<ge> units) rate_limiting_state_inconsistent) (\<lambda>_.
     if window_size = 0 then Inl undefined_behaviour else
     let contrib = integer_divide_ceil (ucast units * ucast rate_limiting_precision :: u128) (ucast window_size) in
     bind_res (eos_assert (contrib \<le> ucast (- 1 :: u64)) rate_limiting_state_inconsistent) (\<lambda>_.
     let value_ex_contrib = ucast contrib in
     bind_res (eos_assert (- 1 - value_ex a \<ge> value_ex_contrib) rate_limiting_state_inconsistent) (\<lambda>_.
     bind_res
       (if last_ordinal a \<noteq> ordinal then
          bind_res (eos_assert (ordinal > last_ordinal a) resource_limit_exception) (\<lambda>_.
          bind_res
            (if (ucast (last_ordinal a) + ucast window_size :: u64) > ucast ordinal then
               times_ratio (value_ex a) \<lparr>numerator = ucast window_size - ucast (ordinal - last_ordinal a), denominator = ucast window_size\<rparr>
             else Inr 0) (\<lambda>v.
          let a' = a\<lparr>value_ex := v, last_ordinal := ordinal\<rparr> in Inr (a'\<lparr>consumed := accumulator_average a'\<rparr>)))
        else Inr a) (\<lambda>a'.
     Inr (a'\<lparr>consumed := consumed a' + units, value_ex := value_ex a' + value_ex_contrib\<rparr>))))))"

record elastic_limit_parameters =
  el_target :: u64
  el_max :: u64
  periods :: u32
  max_multiplier :: u32
  contract_rate :: ratio
  expand_rate :: ratio

definition elastic_validate :: "elastic_limit_parameters \<Rightarrow> unit res" where
  "elastic_validate p =
     bind_res (eos_assert (periods p > 0) resource_limit_exception) (\<lambda>_.
     bind_res (eos_assert (denominator (contract_rate p) > 0) resource_limit_exception) (\<lambda>_.
     eos_assert (denominator (expand_rate p) > 0) resource_limit_exception))"

definition update_elastic_limit :: "u64 \<Rightarrow> u64 \<Rightarrow> elastic_limit_parameters \<Rightarrow> u64 res" where
  "update_elastic_limit current_limit average_usage p =
     bind_res (if average_usage > el_target p then times_ratio current_limit (contract_rate p)
               else times_ratio current_limit (expand_rate p)) (\<lambda>result.
     Inr (min (max result (el_max p)) (el_max p * ucast (max_multiplier p))))"

section \<open>The tables\<close>

record resource_limits_object =
  gas :: u64
  is_unlimited :: bool

record resource_usage_object =
  net_usage :: u64
  cpu_usage :: u64
  ram_usage :: u64

record resource_limits_config_object =
  cpu_limit_parameters :: elastic_limit_parameters
  net_limit_parameters :: elastic_limit_parameters
  account_cpu_usage_average_window :: u32
  account_net_usage_average_window :: u32
  gas_per_cpu_ms :: u32
  gas_per_net_kb :: u32
  gas_per_ram_kb :: u32

record resource_limits_state_object =
  average_block_net_usage :: usage_accumulator
  average_block_cpu_usage :: usage_accumulator
  pending_net_usage :: u64
  pending_cpu_usage :: u64
  total_net_usage :: u64
  total_cpu_usage :: u64
  total_ram_usage :: u64
  total_gas_consumed :: u64
  total_gas_value_flon :: u64
  virtual_net_limit :: u64
  virtual_cpu_limit :: u64

text \<open>The fields of the chain configuration that the accounting reads.\<close>

record chain_config =
  max_total_ram_usage :: u64
  cfg_gas_per_cpu_ms :: u32
  cfg_gas_per_net_kb :: u32
  cfg_gas_per_ram_kb :: u32

text \<open>
  \<open>core_rows\<close> are the rows of the table \<^verbatim>\<open>accounts\<close> of the token contract under the code of the core symbol, by owner;
  \<open>global_configuration\<close> is the configuration in the global properties.
\<close>

record resource_db =
  limits_table :: "name \<Rightarrow> resource_limits_object option"
  usage_table :: "name \<Rightarrow> resource_usage_object option"
  limits_config :: resource_limits_config_object
  limits_state :: resource_limits_state_object
  core_rows :: "name \<Rightarrow> u8 list option"
  global_configuration :: chain_config

text \<open>The generated constants: the name of the system gas account and the core symbol.\<close>

record chain_names =
  gas_account_name :: name
  core_symbol :: symbol

definition table_get :: "(name \<Rightarrow> 'a option) \<Rightarrow> name \<Rightarrow> 'a res" where
  "table_get t n = (case t n of None \<Rightarrow> Inl out_of_range_exception | Some x \<Rightarrow> Inr x)"

section \<open>Gas\<close>

definition gas_rate_precision :: u64 where "gas_rate_precision = 1000"

definition convert_cpu_to_gas :: "resource_limits_config_object \<Rightarrow> u64 \<Rightarrow> u64 res" where
  "convert_cpu_to_gas cfg v = multiply_decimal_ceil v (ucast (gas_per_cpu_ms cfg)) gas_rate_precision"

definition convert_net_to_gas :: "resource_limits_config_object \<Rightarrow> u64 \<Rightarrow> u64 res" where
  "convert_net_to_gas cfg v = multiply_decimal_ceil v (ucast (gas_per_net_kb cfg)) gas_rate_precision"

definition convert_ram_to_gas :: "resource_limits_config_object \<Rightarrow> u64 \<Rightarrow> u64 res" where
  "convert_ram_to_gas cfg v = multiply_decimal_ceil v (ucast (gas_per_ram_kb cfg)) gas_rate_precision"

definition convert_gas_to_res :: "u64 \<Rightarrow> u64 \<Rightarrow> u64 res" where
  "convert_gas_to_res g gas_per_res = (if gas_per_res = 0 then Inr (- 1) else divide_decimal g gas_per_res gas_rate_precision)"

definition convert_gas_to_cpu :: "resource_limits_config_object \<Rightarrow> u64 \<Rightarrow> u64 res" where
  "convert_gas_to_cpu cfg g = convert_gas_to_res g (ucast (gas_per_cpu_ms cfg))"

definition convert_gas_to_net :: "resource_limits_config_object \<Rightarrow> u64 \<Rightarrow> u64 res" where
  "convert_gas_to_net cfg g = convert_gas_to_res g (ucast (gas_per_net_kb cfg))"

definition convert_gas_to_ram :: "resource_limits_config_object \<Rightarrow> u64 \<Rightarrow> u64 res" where
  "convert_gas_to_ram cfg g = convert_gas_to_res g (ucast (gas_per_ram_kb cfg))"

definition convert_gas_to_core_asset :: "chain_names \<Rightarrow> u64 \<Rightarrow> asset res" where
  "convert_gas_to_core_asset cn g =
     bind_res (eos_assert (g \<le> 0x7fffffffffffffff) calc_overflow_exception) (\<lambda>_. asset_make g (core_symbol cn))"

definition convert_core_asset_to_gas :: "asset \<Rightarrow> u64" where
  "convert_core_asset_to_gas a = (if sint (amount a) > 0 then amount a else 0)"

section \<open>Core token rows\<close>

definition min_packed_size :: nat where "min_packed_size = 16"

text \<open>\<open>table_owner\<close> stands for the reference \<^verbatim>\<open>table_obj\<close> to the row.\<close>

record core_asset_account =
  table_owner :: name
  balance :: asset
  remaining_data :: "u8 list"

definition core_asset_account_create :: "chain_names \<Rightarrow> resource_db \<Rightarrow> name \<Rightarrow> core_asset_account option res" where
  "core_asset_account_create cn db owner =
     (case core_rows db owner of
        None \<Rightarrow> Inr None
      | Some value \<Rightarrow>
          if length value < min_packed_size then Inr None
          else bind_res (unpack_asset value) (\<lambda>(b, rest).
            bind_res (eos_assert (asset_symbol b = core_symbol cn) tx_gas_exception) (\<lambda>_.
            Inr (Some \<lparr>table_owner = owner, balance = b, remaining_data = rest\<rparr>))))"

definition core_asset_account_save :: "core_asset_account \<Rightarrow> resource_db \<Rightarrow> resource_db res" where
  "core_asset_account_save a db =
     bind_res (pack_asset (balance a)) (\<lambda>bs.
     Inr (db\<lparr>core_rows := (core_rows db)(table_owner a \<mapsto> bs @ remaining_data a)\<rparr>))"

definition verify_sub_core_asset :: "asset \<Rightarrow> asset \<Rightarrow> unit res" where
  "verify_sub_core_asset a b =
     bind_res (if sint (amount a) \<ge> 0 then asset_ge a b else Inr False) (\<lambda>c. eos_assert c substraction_insufficent_exception)"

definition verify_add_core_asset :: "asset \<Rightarrow> asset \<Rightarrow> unit res" where
  "verify_add_core_asset a b =
     eos_assert (sint (amount a) \<ge> 0 \<and> sint (amount b) \<ge> 0 \<and> 2 ^ 63 - 1 - sint (amount a) \<ge> sint (amount b)) calc_overflow_exception"

record core_gas_accessor =
  sys_gas_account :: core_asset_account
  payer_gas_account :: core_asset_account
  convertible_gas :: u64

definition core_gas_accessor_create :: "chain_names \<Rightarrow> resource_db \<Rightarrow> name \<Rightarrow> core_gas_accessor option res" where
  "core_gas_accessor_create cn db p =
     bind_res (core_asset_account_create cn db p) (\<lambda>pa.
     case pa of None \<Rightarrow> Inr None | Some payer_acc \<Rightarrow>
       let convertible = convert_core_asset_to_gas (balance payer_acc) in
       if convertible = 0 then Inr None
       else bind_res (core_asset_account_create cn db (gas_account_name cn)) (\<lambda>sa.
         case sa of None \<Rightarrow> Inr None
         | Some sys_acc \<Rightarrow> Inr (Some \<lparr>sys_gas_account = sys_acc, payer_gas_account = payer_acc, convertible_gas = convertible\<rparr>)))"

definition pay_gas :: "chain_names \<Rightarrow> core_gas_accessor \<Rightarrow> u64 \<Rightarrow> resource_db \<Rightarrow> resource_db res" where
  "pay_gas cn cgs g db =
     bind_res (eos_assert (convertible_gas cgs > 0) failed_assertion) (\<lambda>_.
     bind_res (convert_gas_to_core_asset cn g) (\<lambda>quant.
     bind_res (verify_sub_core_asset (balance (payer_gas_account cgs)) quant) (\<lambda>_.
     bind_res (verify_add_core_asset (balance (sys_gas_account cgs)) quant) (\<lambda>_.
     bind_res (asset_sub_assign (balance (payer_gas_account cgs)) quant) (\<lambda>pb.
     bind_res (asset_add_assign (balance (sys_gas_account cgs)) quant) (\<lambda>sb.
     bind_res (core_asset_account_save ((payer_gas_account cgs)\<lparr>balance := pb\<rparr>) db) (\<lambda>db'.
     core_asset_account_save ((sys_gas_account cgs)\<lparr>balance := sb\<rparr>) db')))))))"

section \<open>Operations of the manager\<close>

definition EOS_PERCENT :: "u64 \<Rightarrow> u32 \<Rightarrow> u64" where
  "EOS_PERCENT v percentage = v * ucast percentage div 10000"

definition default_limit_parameters :: "u64 \<Rightarrow> u32 \<Rightarrow> u32 \<Rightarrow> elastic_limit_parameters" where
  "default_limit_parameters m pct window =
     \<lparr>el_target = EOS_PERCENT m pct, el_max = m, periods = window, max_multiplier = 1000,
      contract_rate = \<lparr>numerator = 99, denominator = 100\<rparr>, expand_rate = \<lparr>numerator = 1000, denominator = 999\<rparr>\<rparr>"

definition initialize_config :: "chain_config \<Rightarrow> resource_limits_config_object" where
  "initialize_config cfg =
     \<lparr>cpu_limit_parameters = default_limit_parameters 200000 1000 (60000 div 500),
      net_limit_parameters = default_limit_parameters (1024 * 1024) 1000 (60000 div 500),
      account_cpu_usage_average_window = 86400000 div 500, account_net_usage_average_window = 86400000 div 500,
      gas_per_cpu_ms = cfg_gas_per_cpu_ms cfg, gas_per_net_kb = cfg_gas_per_net_kb cfg, gas_per_ram_kb = cfg_gas_per_ram_kb cfg\<rparr>"

definition initialize_state :: "resource_limits_config_object \<Rightarrow> resource_limits_state_object" where
  "initialize_state c =
     (let zero = \<lparr>last_ordinal = 0, value_ex = 0, consumed = 0\<rparr> in
      \<lparr>average_block_net_usage = zero, average_block_cpu_usage = zero, pending_net_usage = 0, pending_cpu_usage = 0,
       total_net_usage = 0, total_cpu_usage = 0, total_ram_usage = 0, total_gas_consumed = 0, total_gas_value_flon = 0,
       virtual_net_limit = el_max (net_limit_parameters c), virtual_cpu_limit = el_max (cpu_limit_parameters c)\<rparr>)"

definition initialize_database :: "chain_config \<Rightarrow> resource_db" where
  "initialize_database cfg =
     \<lparr>limits_table = Map.empty, usage_table = Map.empty, limits_config = initialize_config cfg,
      limits_state = initialize_state (initialize_config cfg), core_rows = Map.empty, global_configuration = cfg\<rparr>"

text \<open>Creating a row under an owner that has one violates the unique index.\<close>

definition initialize_account :: "name \<Rightarrow> resource_db \<Rightarrow> resource_db res" where
  "initialize_account n db =
     bind_res (eos_assert (limits_table db n = None) logic_error) (\<lambda>_.
     bind_res (eos_assert (usage_table db n = None) logic_error) (\<lambda>_.
     Inr (db\<lparr>limits_table := (limits_table db)(n \<mapsto> \<lparr>gas = 0, is_unlimited = True\<rparr>),
             usage_table := (usage_table db)(n \<mapsto> \<lparr>net_usage = 0, cpu_usage = 0, ram_usage = 0\<rparr>)\<rparr>)))"

definition set_block_parameters ::
    "chain_config \<Rightarrow> elastic_limit_parameters \<Rightarrow> elastic_limit_parameters \<Rightarrow> resource_db \<Rightarrow> resource_db res" where
  "set_block_parameters cfg cpu net db =
     bind_res (elastic_validate cpu) (\<lambda>_.
     bind_res (elastic_validate net) (\<lambda>_.
     let c = limits_config db in
     if cpu_limit_parameters c = cpu \<and> net_limit_parameters c = net \<and> gas_per_cpu_ms c = cfg_gas_per_cpu_ms cfg \<and>
        gas_per_net_kb c = cfg_gas_per_net_kb cfg \<and> gas_per_ram_kb c = cfg_gas_per_ram_kb cfg
     then Inr db
     else Inr (db\<lparr>limits_config := c\<lparr>cpu_limit_parameters := cpu, net_limit_parameters := net, gas_per_cpu_ms := cfg_gas_per_cpu_ms cfg,
       gas_per_net_kb := cfg_gas_per_net_kb cfg, gas_per_ram_kb := cfg_gas_per_ram_kb cfg\<rparr>\<rparr>)))"

definition set_account_reserved_gas :: "name \<Rightarrow> resource_limits_object \<Rightarrow> u64 \<Rightarrow> resource_db \<Rightarrow> resource_db" where
  "set_account_reserved_gas n acc g db =
     (if gas acc = g then db else db\<lparr>limits_table := (limits_table db)(n \<mapsto> acc\<lparr>gas := g\<rparr>)\<rparr>)"

record transaction_res_usage =
  payer :: name
  tx_net_usage :: u64
  net_gas :: u64
  tx_cpu_usage :: u64
  cpu_gas :: u64

text \<open>\<open>ram_delta\<close> and \<open>gas_delta\<close> hold signed values.\<close>

record account_gas_trace =
  trace_account :: name
  reserved_gas_before :: u64
  reserved_gas_after :: u64
  used_gas :: u64
  converted_gas :: u64
  ram_delta :: u64
  gas_delta :: u64

definition new_gas_trace :: "name \<Rightarrow> account_gas_trace" where
  "new_gas_trace n = \<lparr>trace_account = n, reserved_gas_before = 0, reserved_gas_after = 0, used_gas = 0, converted_gas = 0, ram_delta = 0, gas_delta = 0\<rparr>"

definition calc_transaction_gas_usage :: "transaction_res_usage \<Rightarrow> resource_limits_config_object \<Rightarrow> (transaction_res_usage \<times> u64) res" where
  "calc_transaction_gas_usage ru cfg =
     bind_res (convert_cpu_to_gas cfg (tx_cpu_usage ru)) (\<lambda>cg.
     bind_res (convert_net_to_gas cfg (tx_net_usage ru)) (\<lambda>ng.
     bind_res (verify_add cg ng) (\<lambda>_. Inr (ru\<lparr>cpu_gas := cg, net_gas := ng\<rparr>, cg + ng))))"

definition verify_transaction_gas_usage :: "transaction_res_usage \<Rightarrow> u64 \<Rightarrow> u64 \<Rightarrow> unit res" where
  "verify_transaction_gas_usage ru reserved convertible =
     bind_res (verify_add (cpu_gas ru) (net_gas ru)) (\<lambda>_.
     bind_res (verify_add reserved convertible) (\<lambda>_.
     eos_assert (cpu_gas ru + net_gas ru \<le> reserved + convertible) tx_gas_usage_exceeded))"

text \<open>
  The part of \<^verbatim>\<open>add_transaction_usage\<close> under \<^verbatim>\<open>!acc_limits.is_unlimited\<close>: the database, the gas used and the trace.
\<close>

definition charge_transaction ::
    "chain_names \<Rightarrow> transaction_res_usage \<Rightarrow> resource_limits_object \<Rightarrow> resource_db \<Rightarrow>
     (resource_db \<times> transaction_res_usage \<times> u64 \<times> account_gas_trace) res" where
  "charge_transaction cn ru acc db =
     bind_res (calc_transaction_gas_usage ru (limits_config db)) (\<lambda>(ru', used).
     bind_res (if used > gas acc then core_gas_accessor_create cn db (payer ru) else Inr None) (\<lambda>cgs.
     let convertible = (case cgs of None \<Rightarrow> 0 | Some c \<Rightarrow> convertible_gas c) in
     bind_res (verify_add (gas acc) convertible) (\<lambda>_.
     bind_res (eos_assert (used \<le> gas acc + convertible) tx_gas_usage_exceeded) (\<lambda>_.
     bind_res
       (if used > gas acc then
          (case cgs of
             None \<Rightarrow> Inl failed_assertion
           | Some c \<Rightarrow> bind_res (pay_gas cn c (used - gas acc) db) (\<lambda>db'. Inr (db', used - gas acc, 0)))
        else Inr (db, 0, gas acc - used)) (\<lambda>(db', converted, reserved).
     bind_res (verify_add (total_gas_consumed (limits_state db)) used) (\<lambda>_.
     bind_res (verify_add (total_gas_value_flon (limits_state db)) used) (\<lambda>_.
     Inr (set_account_reserved_gas (payer ru) acc reserved db', ru', used,
       (new_gas_trace (payer ru))\<lparr>reserved_gas_before := gas acc, converted_gas := converted,
         reserved_gas_after := reserved, used_gas := used\<rparr>))))))))"

definition add_transaction_usage ::
    "chain_names \<Rightarrow> transaction_res_usage \<Rightarrow> account_gas_trace option \<Rightarrow> resource_db \<Rightarrow>
     (resource_db \<times> transaction_res_usage \<times> account_gas_trace option) res" where
  "add_transaction_usage cn ru tr db =
     bind_res (table_get (usage_table db) (payer ru)) (\<lambda>usage.
     bind_res (table_get (limits_table db) (payer ru)) (\<lambda>acc.
     bind_res
       (if \<not> is_unlimited acc then
          bind_res (charge_transaction cn ru acc db) (\<lambda>(db', ru', used, t). Inr (db', ru', used, Some t))
        else Inr (db, ru\<lparr>net_gas := 0, cpu_gas := 0\<rparr>, 0, tr)) (\<lambda>(db', ru', used, tr').
     let cpu = tx_cpu_usage ru; net = tx_net_usage ru; st = limits_state db; cfg = limits_config db in
     bind_res (verify_add (cpu_usage usage) cpu) (\<lambda>_.
     bind_res (verify_add (net_usage usage) net) (\<lambda>_.
     bind_res (verify_add (pending_cpu_usage st) cpu) (\<lambda>_.
     bind_res (verify_add (pending_net_usage st) net) (\<lambda>_.
     bind_res (verify_add (total_cpu_usage st) cpu) (\<lambda>_.
     bind_res (verify_add (total_net_usage st) net) (\<lambda>_.
     bind_res (eos_assert (pending_cpu_usage st + cpu \<le> el_max (cpu_limit_parameters cfg)) block_resource_exhausted) (\<lambda>_.
     bind_res (eos_assert (pending_net_usage st + net \<le> el_max (net_limit_parameters cfg)) block_resource_exhausted) (\<lambda>_.
     Inr (db'\<lparr>
        usage_table := (usage_table db')(payer ru \<mapsto> usage\<lparr>cpu_usage := cpu_usage usage + cpu, net_usage := net_usage usage + net\<rparr>),
        limits_state := st\<lparr>pending_cpu_usage := pending_cpu_usage st + cpu, pending_net_usage := pending_net_usage st + net,
          total_cpu_usage := total_cpu_usage st + cpu, total_net_usage := total_net_usage st + net,
          total_gas_consumed := total_gas_consumed st + used, total_gas_value_flon := total_gas_value_flon st + used\<rparr>\<rparr>,
       ru', tr'))))))))))))"

text \<open>
  The parts of \<^verbatim>\<open>add_ram_usage\<close> for an account that is not unlimited: paying for \<open>d > 0\<close> bytes and the refund for \<open>n\<close> freed bytes.
\<close>

definition charge_ram ::
    "chain_names \<Rightarrow> name \<Rightarrow> u64 \<Rightarrow> resource_limits_object \<Rightarrow> resource_db \<Rightarrow> (resource_db \<times> account_gas_trace) res" where
  "charge_ram cn n d acc db =
     bind_res (convert_ram_to_gas (limits_config db) d) (\<lambda>used.
     bind_res (if used > gas acc then core_gas_accessor_create cn db n else Inr None) (\<lambda>cgs.
     let convertible = (case cgs of None \<Rightarrow> 0 | Some c \<Rightarrow> convertible_gas c) in
     bind_res (verify_add (gas acc) convertible) (\<lambda>_.
     bind_res (eos_assert (used \<le> gas acc + convertible) tx_gas_usage_exceeded) (\<lambda>_.
     bind_res
       (case cgs of
          Some c \<Rightarrow>
            if convertible > 0 then bind_res (pay_gas cn c (used - gas acc) db) (\<lambda>db'. Inr (db', used - gas acc, 0))
            else Inr (db, 0, gas acc - used)
        | None \<Rightarrow> Inr (db, 0, gas acc - used)) (\<lambda>(db', converted, reserved).
     let st = limits_state db in
     bind_res (verify_add (total_gas_consumed st) used) (\<lambda>_.
     bind_res (verify_add (total_gas_value_flon st) used) (\<lambda>_.
     bind_res (verify_delta_converting used) (\<lambda>_.
     Inr ((set_account_reserved_gas n acc reserved db')
           \<lparr>limits_state := st\<lparr>total_gas_consumed := total_gas_consumed st + used, total_gas_value_flon := total_gas_value_flon st + used\<rparr>\<rparr>,
       (new_gas_trace n)\<lparr>reserved_gas_before := gas acc, ram_delta := d, converted_gas := converted, used_gas := used,
         gas_delta := - used, reserved_gas_after := reserved\<rparr>)))))))))"

definition refund_ram ::
    "name \<Rightarrow> u64 \<Rightarrow> resource_limits_object \<Rightarrow> resource_db \<Rightarrow> (resource_db \<times> account_gas_trace) res" where
  "refund_ram n freed acc db =
     bind_res (convert_ram_to_gas (limits_config db) freed) (\<lambda>ram_gas.
     bind_res (verify_add (gas acc) ram_gas) (\<lambda>_.
     bind_res (verify_delta_converting ram_gas) (\<lambda>_.
     Inr (set_account_reserved_gas n acc (gas acc + ram_gas) db,
       (new_gas_trace n)\<lparr>reserved_gas_before := gas acc, ram_delta := - freed, gas_delta := ram_gas, reserved_gas_after := gas acc + ram_gas\<rparr>))))"

text \<open>The delta \<open>d\<close> is a signed 64-bit value; negating the least one is undefined.\<close>

definition add_ram_usage ::
    "chain_names \<Rightarrow> name \<Rightarrow> u64 \<Rightarrow> account_gas_trace option \<Rightarrow> resource_db \<Rightarrow> (resource_db \<times> account_gas_trace option) res" where
  "add_ram_usage cn n d tr db =
     (if d = 0 then Inr (db, tr)
      else bind_res (table_get (usage_table db) n) (\<lambda>usage.
        bind_res
          (if sint d > 0 then verify_add (ram_usage usage) d
           else if sint d = - (2 ^ 63) then Inl undefined_behaviour
           else eos_assert (ram_usage usage \<ge> - d) transaction_exception) (\<lambda>_.
        bind_res (table_get (limits_table db) n) (\<lambda>acc.
        bind_res
          (if \<not> is_unlimited acc then
             bind_res (if sint d > 0 then charge_ram cn n d acc db else refund_ram n (- d) acc db) (\<lambda>(db', t). Inr (db', Some t))
           else Inr (db, tr)) (\<lambda>(db', tr').
        let st = limits_state db' in
        bind_res
          (if sint d > 0 then verify_add (total_ram_usage st) d
           else eos_assert (total_ram_usage st \<ge> - d) transaction_exception) (\<lambda>_.
        bind_res (eos_assert (total_ram_usage st + d \<le> max_total_ram_usage (global_configuration db)) resource_exhausted_exception) (\<lambda>_.
        Inr (db'\<lparr>usage_table := (usage_table db')(n \<mapsto> usage\<lparr>ram_usage := ram_usage usage + d\<rparr>),
                 limits_state := st\<lparr>total_ram_usage := total_ram_usage st + d\<rparr>\<rparr>, tr'))))))))"

definition set_account_limits :: "chain_names \<Rightarrow> name \<Rightarrow> u64 \<Rightarrow> bool \<Rightarrow> resource_db \<Rightarrow> resource_db res" where
  "set_account_limits cn n g unlimited db =
     bind_res (eos_assert (n \<noteq> gas_account_name cn) resource_limit_exception) (\<lambda>_.
     bind_res (table_get (limits_table db) n) (\<lambda>acc.
     Inr (db\<lparr>limits_table := (limits_table db)(n \<mapsto> acc\<lparr>gas := g, is_unlimited := unlimited\<rparr>)\<rparr>)))"

definition update_virtual_cpu_limit :: "resource_limits_config_object \<Rightarrow> resource_limits_state_object \<Rightarrow> resource_limits_state_object res" where
  "update_virtual_cpu_limit cfg st =
     bind_res (update_elastic_limit (virtual_cpu_limit st) (accumulator_average (average_block_cpu_usage st)) (cpu_limit_parameters cfg))
       (\<lambda>l. Inr (st\<lparr>virtual_cpu_limit := l\<rparr>))"

definition update_virtual_net_limit :: "resource_limits_config_object \<Rightarrow> resource_limits_state_object \<Rightarrow> resource_limits_state_object res" where
  "update_virtual_net_limit cfg st =
     bind_res (update_elastic_limit (virtual_net_limit st) (accumulator_average (average_block_net_usage st)) (net_limit_parameters cfg))
       (\<lambda>l. Inr (st\<lparr>virtual_net_limit := l\<rparr>))"

definition process_block_usage :: "u32 \<Rightarrow> resource_db \<Rightarrow> resource_db res" where
  "process_block_usage block_num db =
     (let cfg = limits_config db; st = limits_state db in
      bind_res (accumulator_add (pending_cpu_usage st) block_num (periods (cpu_limit_parameters cfg)) (average_block_cpu_usage st)) (\<lambda>ca.
      bind_res (update_virtual_cpu_limit cfg (st\<lparr>average_block_cpu_usage := ca\<rparr>)) (\<lambda>st1.
      let st2 = st1\<lparr>pending_cpu_usage := 0\<rparr> in
      bind_res (accumulator_add (pending_net_usage st2) block_num (periods (net_limit_parameters cfg)) (average_block_net_usage st2)) (\<lambda>na.
      bind_res (update_virtual_net_limit cfg (st2\<lparr>average_block_net_usage := na\<rparr>)) (\<lambda>st3.
      Inr (db\<lparr>limits_state := st3\<lparr>pending_net_usage := 0\<rparr>\<rparr>))))))"

section \<open>Queries\<close>

definition convertible_gas_of :: "chain_names \<Rightarrow> core_asset_account option \<Rightarrow> resource_db \<Rightarrow> u64 res" where
  "convertible_gas_of cn a db =
     (case a of
        Some acct \<Rightarrow>
          if sint (amount (balance acct)) > 0 then
            bind_res (core_asset_account_create cn db (gas_account_name cn)) (\<lambda>s.
            case s of Some _ \<Rightarrow> Inr (convert_core_asset_to_gas (balance acct)) | None \<Rightarrow> Inr 0)
          else Inr 0
      | None \<Rightarrow> Inr 0)"

definition get_account_convertible_gas :: "chain_names \<Rightarrow> name \<Rightarrow> resource_db \<Rightarrow> u64 res" where
  "get_account_convertible_gas cn n db = bind_res (core_asset_account_create cn db n) (\<lambda>a. convertible_gas_of cn a db)"

definition get_account_gas_max :: "chain_names \<Rightarrow> name \<Rightarrow> u64 \<Rightarrow> resource_db \<Rightarrow> u64 res" where
  "get_account_gas_max cn n reserved db =
     bind_res (core_asset_account_create cn db n) (\<lambda>a.
     bind_res (convertible_gas_of cn a db) (\<lambda>convertible.
     bind_res (verify_add reserved convertible) (\<lambda>_. Inr (reserved + convertible))))"

definition get_account_cpu_limit :: "chain_names \<Rightarrow> name \<Rightarrow> resource_db \<Rightarrow> u64 res" where
  "get_account_cpu_limit cn n db =
     bind_res (table_get (limits_table db) n) (\<lambda>acc.
     if \<not> is_unlimited acc then bind_res (get_account_gas_max cn n (gas acc) db) (convert_gas_to_cpu (limits_config db))
     else Inr 0x7fffffffffffffff)"

definition get_account_net_limit :: "chain_names \<Rightarrow> name \<Rightarrow> resource_db \<Rightarrow> u64 res" where
  "get_account_net_limit cn n db =
     bind_res (table_get (limits_table db) n) (\<lambda>acc.
     if \<not> is_unlimited acc then bind_res (get_account_gas_max cn n (gas acc) db) (convert_gas_to_net (limits_config db))
     else Inr 0x7fffffffffffffff)"

definition get_block_cpu_limit :: "resource_db \<Rightarrow> u64" where
  "get_block_cpu_limit db = el_max (cpu_limit_parameters (limits_config db)) - pending_cpu_usage (limits_state db)"

definition get_block_net_limit :: "resource_db \<Rightarrow> u64" where
  "get_block_net_limit db = el_max (net_limit_parameters (limits_config db)) - pending_net_usage (limits_state db)"

definition get_account_ram_usage :: "name \<Rightarrow> resource_db \<Rightarrow> u64 res" where
  "get_account_ram_usage n db = bind_res (table_get (usage_table db) n) (\<lambda>usage. Inr (ram_usage usage))"

end
