(* ===== verification/Gas_Accounting.thy ===== *)
theory Gas_Accounting
  imports Resource_Limits
begin

text \<open>
  What the gas accounting of \<open>Resource_Limits\<close> guarantees for one operation: the conversions between resources and gas as
  functions on numbers, the store of token rows, and charging a transaction or an allocation of memory.
\<close>

section \<open>Arithmetic\<close>

lemma unat_max: "unat (- 1 :: u64) = 2 ^ 64 - 1"
  by (simp add: unsigned_minus_1_eq_mask mask_eq_exp_minus_1)

lemma unat_max_minus: "unat (- 1 - a :: u64) = 2 ^ 64 - 1 - unat a"
  using unat_bound[of a] by (simp add: unat_sub_if' unat_max)

lemma verify_add_eq: "verify_add a b = (if unat a + unat b < 2 ^ 64 then Inr () else Inl calc_overflow_exception)"
proof -
  have "- 1 - a \<ge> b \<longleftrightarrow> unat a + unat b < 2 ^ 64" using unat_bound[of a] unfolding word_le_nat_alt unat_max_minus by simp linarith
  then show ?thesis by (simp add: verify_add_def eos_assert_def)
qed

lemma unat_add_word: "unat a + unat b < 2 ^ 64 \<Longrightarrow> unat (a + b :: u64) = unat a + unat b"
  by (simp add: unat_word_ariths)

lemma unat_rate: "unat (ucast (r :: u32) :: u64) = unat r"
  using unat_bound[of r] by (simp add: unsigned_ucast_eq take_bit_nat_eq_self)

lemma unat_widen: "unat (ucast (q :: u64) :: u128) = unat q"
  using unat_bound[of q] by (simp add: unsigned_ucast_eq take_bit_nat_eq_self)

lemma widened_quotient: "(ucast (q :: u64) :: u128) \<le> ucast (- 1 :: u64)" "ucast (ucast q :: u128) = q"
proof -
  show "(ucast q :: u128) \<le> ucast (- 1 :: u64)" using unat_bound[of q] unfolding word_le_nat_alt unat_widen unat_max by simp
  show "ucast (ucast q :: u128) = q" by (rule bit_word_eqI) (auto simp: bit_simps)
qed

lemma rate_far_from_max: "- 1 - (ucast (r :: u32) :: u64) > gas_rate_precision - 1"
  using unat_bound[of r] unfolding word_less_nat_alt unat_max_minus by (simp add: unat_rate gas_rate_precision_def)

text \<open>Resources in gas, rounded up, with the product reduced as the code reduces it.\<close>

definition gas_of :: "u64 \<Rightarrow> u32 \<Rightarrow> nat" where
  "gas_of v rate = (unat v * unat rate + 999) mod 2 ^ 64 div 1000"

lemma multiply_decimal_ceil_rate:
  "multiply_decimal_ceil v (ucast r) gas_rate_precision = Inr (of_nat (gas_of v r))"
proof -
  have "unat ((v * ucast r + (gas_rate_precision - 1)) div gas_rate_precision) = gas_of v r"
    by (simp add: unat_div unat_word_ariths unat_rate gas_of_def gas_rate_precision_def mod_simps)
  then have q: "(v * ucast r + (gas_rate_precision - 1)) div gas_rate_precision = of_nat (gas_of v r)"
    by (metis of_nat_unat ucast_id)
  have z: "gas_of v r = 0" if "v = 0 \<or> (ucast r :: u64) = 0"
    using that by (auto simp: gas_of_def simp flip: unat_rate)
  show ?thesis
  proof (cases "v = 0 \<or> (ucast r :: u64) = 0")
    case True
    then show ?thesis using z[OF True] by (auto simp: multiply_decimal_ceil_def)
  next
    case False
    then show ?thesis using rate_far_from_max[of r] widened_quotient[of "of_nat (gas_of v r)"]
      by (simp add: multiply_decimal_ceil_def Let_def q) (simp add: gas_rate_precision_def)
  qed
qed

lemmas convert_to_gas =
  convert_cpu_to_gas_def[unfolded multiply_decimal_ceil_rate]
  convert_net_to_gas_def[unfolded multiply_decimal_ceil_rate]
  convert_ram_to_gas_def[unfolded multiply_decimal_ceil_rate]

lemma gas_of_bound: "gas_of v r < 2 ^ 64"
  by (simp add: gas_of_def div_less_dividend less_imp_diff_less) 

lemma unat_gas_of [simp]: "unat (of_nat (gas_of v r) :: u64) = gas_of v r"
  using gas_of_bound[of v r] by (simp add: unat_of_nat)

lemma convert_gas_to_res_eq:
  "convert_gas_to_res g (ucast (r :: u32)) = Inr (if r = 0 then - 1 else of_nat (unat g * 1000 mod 2 ^ 64 div unat r))"
proof -
  have "unat (g * gas_rate_precision div ucast r) = unat g * 1000 mod 2 ^ 64 div unat r"
    by (simp add: unat_div unat_word_ariths unat_rate gas_rate_precision_def)
  then have q: "g * gas_rate_precision div ucast r = of_nat (unat g * 1000 mod 2 ^ 64 div unat r)"
    by (metis of_nat_unat ucast_id)
  have z: "(ucast r :: u64) = 0 \<longleftrightarrow> r = 0" by (metis unat_rate unat_eq_zero)
  show ?thesis using widened_quotient
    by (auto simp: convert_gas_to_res_def divide_decimal_def z Let_def q) (simp add: gas_rate_precision_def)
qed

section \<open>Rows of the token contract\<close>

text \<open>
  What the accounting relies on in the store of core token accounts: an account that is saved is read back, and no other
  account is touched.
\<close>

locale account_store =
  fixes load :: "'s \<Rightarrow> 'k \<Rightarrow> 'a option res" and save :: "'a \<Rightarrow> 's \<Rightarrow> 's res" and key :: "'a \<Rightarrow> 'k" and ok :: "'a \<Rightarrow> bool"
  assumes load_ok: "load s k = Inr (Some a) \<Longrightarrow> key a = k \<and> ok a"
    and save_returns: "\<exists>s'. save a s = Inr s'"
    and load_save: "ok a \<Longrightarrow> save a s = Inr s' \<Longrightarrow> load s' k = (if k = key a then Inr (Some a) else load s k)"
begin

lemma save_both:
  assumes "ok a" and "ok b" and "key a \<noteq> key b"
  shows "\<exists>s'. bind_res (save a s) (save b) = Inr s' \<and>
    (\<forall>k. load s' k = (if k = key a then Inr (Some a) else if k = key b then Inr (Some b) else load s k))"
proof -
  obtain s1 where s1: "save a s = Inr s1" using save_returns by blast
  obtain s2 where s2: "save b s1 = Inr s2" using save_returns by blast
  show ?thesis using load_save[OF assms(1) s1] load_save[OF assms(2) s2] assms(3) s1 s2 by auto
qed

end

definition core_account_ok :: "chain_names \<Rightarrow> core_asset_account \<Rightarrow> bool" where
  "core_account_ok cn a \<longleftrightarrow> asset_is_valid (balance a) \<and> asset_symbol (balance a) = core_symbol cn"

lemma unpack_asset_valid: "unpack_asset bs = Inr (a, rest) \<Longrightarrow> asset_is_valid a"
  by (auto simp: unpack_asset_def unpack_then_def unpack_return_def res_simps Let_def asset_reflector_init_def asset_is_valid_def)

lemma pack_asset_length: "pack_asset a = Inr bs \<Longrightarrow> length bs = 16"
  by (auto simp: pack_asset_def pack_then_def pack_u64_def)

lemma pack_asset_returns: "\<exists>bs. pack_asset a = Inr bs"
  by (simp add: pack_asset_def pack_then_def pack_u64_def)

lemma core_load_save:
  assumes "core_account_ok cn a" and "core_asset_account_save a db = Inr db'"
  shows "core_asset_account_create cn db' k = (if k = table_owner a then Inr (Some a) else core_asset_account_create cn db k)"
proof -
  obtain bs where bs: "pack_asset (balance a) = Inr bs" using pack_asset_returns by blast
  have "unpack_asset (bs @ remaining_data a) = Inr (balance a, remaining_data a)"
    using assms(1) bs by (intro asset.round_trip) (auto simp: core_account_ok_def)
  then show ?thesis using assms bs pack_asset_length[OF bs]
    by (auto simp: core_asset_account_save_def core_asset_account_create_def min_packed_size_def core_account_ok_def)
qed

interpretation core: account_store "core_asset_account_create cn" core_asset_account_save table_owner "core_account_ok cn" for cn
proof
  fix s k a
  assume "core_asset_account_create cn s k = Inr (Some a)"
  then show "table_owner a = k \<and> core_account_ok cn a"
    by (auto simp: core_asset_account_create_def core_account_ok_def res_simps split: option.splits if_splits dest: unpack_asset_valid)
next
  fix a s show "\<exists>s'. core_asset_account_save a s = Inr s'"
    using pack_asset_returns[of "balance a"] by (auto simp: core_asset_account_save_def)
qed (rule core_load_save)

definition core_balance :: "chain_names \<Rightarrow> resource_db \<Rightarrow> name \<Rightarrow> int" where
  "core_balance cn db n = (case core_asset_account_create cn db n of Inr (Some a) \<Rightarrow> sint (amount (balance a)) | _ \<Rightarrow> 0)"

lemma save_frame:
  "core_asset_account_save a db = Inr db' \<Longrightarrow>
    db' = db\<lparr>core_rows := core_rows db'\<rparr> \<and> dom (core_rows db') = insert (table_owner a) (dom (core_rows db))"
  by (auto simp: core_asset_account_save_def res_simps)

lemma loaded_in_dom: "core_asset_account_create cn db k = Inr (Some a) \<Longrightarrow> k \<in> dom (core_rows db)"
  by (auto simp: core_asset_account_create_def split: option.splits)

lemma save_two:
  assumes ok: "core_account_ok cn a" "core_account_ok cn b" and ne: "table_owner a \<noteq> table_owner b"
    and dom: "table_owner a \<in> dom (core_rows db)" "table_owner b \<in> dom (core_rows db)"
  shows "\<exists>db'. bind_res (core_asset_account_save a db) (core_asset_account_save b) = Inr db' \<and>
    db' = db\<lparr>core_rows := core_rows db'\<rparr> \<and> dom (core_rows db') = dom (core_rows db) \<and>
    (\<forall>k. core_asset_account_create cn db' k =
       (if k = table_owner a then Inr (Some a) else if k = table_owner b then Inr (Some b) else core_asset_account_create cn db k))"
proof -
  obtain db' where db': "bind_res (core_asset_account_save a db) (core_asset_account_save b) = Inr db'"
    and loads: "\<forall>k. core_asset_account_create cn db' k =
       (if k = table_owner a then Inr (Some a) else if k = table_owner b then Inr (Some b) else core_asset_account_create cn db k)"
    using core.save_both[OF ok ne, of db] by blast
  from db' obtain db1 where "core_asset_account_save a db = Inr db1" "core_asset_account_save b db1 = Inr db'"
    by (auto simp: res_simps)
  from save_frame[OF this(1)] save_frame[OF this(2)] have "db' = db\<lparr>core_rows := core_rows db'\<rparr>" "dom (core_rows db') = dom (core_rows db)"
    using dom by (metis resource_db.unfold_congs(5) resource_db.surjective resource_db.update_convs(5), auto)
  with db' loads show ?thesis by blast
qed

lemma uint_ge_negative [simp]: "- numeral k \<le> uint (w :: 'a::len word)"
  by (rule order_trans[OF _ uint_ge_0]) simp

lemma core_quantity:
  assumes "symbol_valid (core_symbol cn)" and le: "unat g < 2 ^ 62"
  shows "convert_gas_to_core_asset cn g = Inr \<lparr>amount = g, asset_symbol = core_symbol cn\<rparr>" and "sint g = int (unat g)"
proof -
  have "int (unat g) < int (2 ^ 62)" using le unfolding of_nat_less_iff .
  then have ule: "uint g < 2 ^ 62" by simp
  have "- (2 ^ 63) \<le> uint g" "uint g < 2 ^ 63" using ule by simp_all
  from sint_int64[OF this] show si: "sint g = int (unat g)" by simp
  have "g \<le> 0x7fffffffffffffff" using le by (simp add: word_le_nat_alt)
  then show "convert_gas_to_core_asset cn g = Inr \<lparr>amount = g, asset_symbol = core_symbol cn\<rparr>"
    using assms si ule by (simp add: convert_gas_to_core_asset_def asset_make_def asset_reflector_init_def is_amount_within_range_def Let_def max_amount_def)
qed

lemma balance_shift:
  assumes "core_account_ok cn a" and "0 \<le> i" and "i \<le> max_amount"
  shows "core_account_ok cn (a\<lparr>balance := (balance a)\<lparr>amount := of_int i\<rparr>\<rparr>)" and "sint (of_int i :: u64) = i"
proof -
  show si: "sint (of_int i :: u64) = i" using assms(2,3) by (intro sint_int64) (auto simp: max_amount_def)
  show "core_account_ok cn (a\<lparr>balance := (balance a)\<lparr>amount := of_int i\<rparr>\<rparr>)"
    using assms si by (auto simp: core_account_ok_def asset_is_valid_def is_amount_within_range_def max_amount_def)
qed

text \<open>
  \<^verbatim>\<open>pay_gas\<close> moves the core tokens of the converted gas from the payer to the gas account and touches nothing else.
\<close>

definition gas_paid :: "chain_names \<Rightarrow> name \<Rightarrow> int \<Rightarrow> resource_db \<Rightarrow> resource_db \<Rightarrow> bool" where
  "gas_paid cn p g db db' \<longleftrightarrow>
     db' = db\<lparr>core_rows := core_rows db'\<rparr> \<and> dom (core_rows db') = dom (core_rows db) \<and>
     core_balance cn db' p = core_balance cn db p - g \<and>
     core_balance cn db' (gas_account_name cn) = core_balance cn db (gas_account_name cn) + g \<and>
     (\<forall>k. k \<noteq> p \<longrightarrow> k \<noteq> gas_account_name cn \<longrightarrow> core_asset_account_create cn db' k = core_asset_account_create cn db k) \<and>
     (\<forall>k a. core_asset_account_create cn db k = Inr a \<longrightarrow> (\<exists>a'. core_asset_account_create cn db' k = Inr a'))"

lemma pay_gas_exact:
  assumes pa: "core_asset_account_create cn db p = Inr (Some pa)"
    and sa: "core_asset_account_create cn db (gas_account_name cn) = Inr (Some sa)"
    and ne: "p \<noteq> gas_account_name cn"
    and c: "payer_gas_account c = pa" "sys_gas_account c = sa" "0 < convertible_gas c"
    and g: "int (unat g) \<le> core_balance cn db p"
    and nn: "0 \<le> core_balance cn db (gas_account_name cn)"
    and sum: "core_balance cn db p + core_balance cn db (gas_account_name cn) \<le> max_amount"
  shows "\<exists>db'. pay_gas cn c g db = Inr db' \<and> gas_paid cn p (int (unat g)) db db'"
proof -
  let ?p = "sint (amount (balance pa))" and ?s = "sint (amount (balance sa))"
  have bal: "core_balance cn db p = ?p" "core_balance cn db (gas_account_name cn) = ?s" using pa sa by (simp_all add: core_balance_def)
  have ok: "core_account_ok cn pa" "core_account_ok cn sa" and own: "table_owner pa = p" "table_owner sa = gas_account_name cn"
    using core.load_ok[OF pa] core.load_ok[OF sa] by auto
  have sym: "symbol_valid (core_symbol cn)" "asset_symbol (balance pa) = core_symbol cn" "asset_symbol (balance sa) = core_symbol cn"
    using ok by (auto simp: core_account_ok_def asset_is_valid_def)
  have "int (unat g) < 2 ^ 62" using g nn sum bal by (simp add: max_amount_def)
  then have small: "unat g < 2 ^ 62" by (metis of_nat_less_iff of_nat_numeral of_nat_power)
  note q = core_quantity[OF sym(1) small]
  define pa' where "pa' = pa\<lparr>balance := (balance pa)\<lparr>amount := of_int (?p - sint g)\<rparr>\<rparr>"
  define sa' where "sa' = sa\<lparr>balance := (balance sa)\<lparr>amount := of_int (?s + sint g)\<rparr>\<rparr>"
  have i: "0 \<le> ?p - sint g" "?p - sint g \<le> max_amount" "0 \<le> ?s + sint g" "?s + sint g \<le> max_amount"
    using g nn sum bal q(2) by linarith+
  note p' = balance_shift[OF ok(1) i(1,2), folded pa'_def] and s' = balance_shift[OF ok(2) i(3,4), folded sa'_def]
  obtain db' where db': "bind_res (core_asset_account_save pa' db) (core_asset_account_save sa') = Inr db'"
    and fr: "db' = db\<lparr>core_rows := core_rows db'\<rparr>" "dom (core_rows db') = dom (core_rows db)"
    and loads: "\<forall>k. core_asset_account_create cn db' k =
       (if k = table_owner pa' then Inr (Some pa') else if k = table_owner sa' then Inr (Some sa') else core_asset_account_create cn db k)"
    using save_two[OF p'(1) s'(1), of db] own ne loaded_in_dom[OF pa] loaded_in_dom[OF sa] by (auto simp: pa'_def sa'_def)
  have "asset_ge (balance pa) \<lparr>amount = g, asset_symbol = core_symbol cn\<rparr> = Inr True"
    using i sym by (simp add: asset_ge_def asset_less_def)
  moreover have "0 \<le> ?p" "0 \<le> sint g" using q(2) g bal by linarith+
  ultimately have "pay_gas cn c g db = Inr db'"
    using db' c q(1) i nn bal sym
    by (simp add: pay_gas_def verify_sub_core_asset_def verify_add_core_asset_def asset_sub_assign_def asset_add_assign_def
        int64_def max_amount_def pa'_def sa'_def)
  moreover have "gas_paid cn p (int (unat g)) db db'"
    using fr loads own ne bal p'(2) s'(2) q(2) unfolding gas_paid_def by (auto simp: core_balance_def pa'_def sa'_def)
  ultimately show ?thesis by blast
qed

section \<open>Charging an account\<close>

text \<open>
  The rows the token contract keeps: they can be read, no balance is negative and the supply is a valid amount.
\<close>

definition token_rows_ok :: "chain_names \<Rightarrow> resource_db \<Rightarrow> bool" where
  "token_rows_ok cn db \<longleftrightarrow>
     finite (dom (core_rows db)) \<and> (\<forall>n. \<exists>a. core_asset_account_create cn db n = Inr a) \<and>
     (\<forall>n. 0 \<le> core_balance cn db n) \<and> (\<Sum>n\<in>dom (core_rows db). core_balance cn db n) \<le> max_amount"

lemma core_balance_outside: "n \<notin> dom (core_rows db) \<Longrightarrow> core_balance cn db n = 0"
  by (simp add: core_balance_def core_asset_account_create_def domIff)

lemma two_balances:
  assumes "token_rows_ok cn db" and "p \<noteq> q"
  shows "core_balance cn db p + core_balance cn db q \<le> max_amount"
proof -
  let ?D = "dom (core_rows db)" and ?b = "core_balance cn db"
  have "?b p + ?b q = sum ?b {p, q}" using assms(2) by simp
  also have "\<dots> \<le> sum ?b (?D \<union> {p, q})" using assms(1) by (intro sum_mono2) (auto simp: token_rows_ok_def)
  also have "\<dots> = sum ?b ?D" using assms(1) by (intro sum.mono_neutral_right) (auto simp: token_rows_ok_def core_balance_outside)
  finally show ?thesis using assms(1) by (simp add: token_rows_ok_def)
qed

lemma sint_positive: "0 < sint w \<Longrightarrow> int (unat w) = sint (w :: u64)"
  using sint_lt[of w] by (simp add: uint_sint take_bit_int_eq_self)

lemma accessor_cases:
  assumes ok: "token_rows_ok cn db"
  obtains (none) "core_gas_accessor_create cn db p = Inr None" "get_account_convertible_gas cn p db = Inr 0"
  | (some) c where "core_gas_accessor_create cn db p = Inr (Some c)" "get_account_convertible_gas cn p db = Inr (convertible_gas c)"
      "core_asset_account_create cn db p = Inr (Some (payer_gas_account c))"
      "core_asset_account_create cn db (gas_account_name cn) = Inr (Some (sys_gas_account c))"
      "0 < convertible_gas c" "int (unat (convertible_gas c)) = core_balance cn db p"
proof -
  obtain pa sa where rows: "core_asset_account_create cn db p = Inr pa" "core_asset_account_create cn db (gas_account_name cn) = Inr sa"
    using ok unfolding token_rows_ok_def by metis
  note defs = core_gas_accessor_create_def get_account_convertible_gas_def convertible_gas_of_def convert_core_asset_to_gas_def Let_def rows
  show thesis
  proof (cases pa)
    case (Some a)
    show thesis
    proof (cases "0 < sint (amount (balance a))")
      case pos: True
      then have nz: "amount (balance a) \<noteq> 0" by auto
      show thesis
      proof (cases sa)
        case (Some b)
        show thesis
          by (rule some[of "\<lparr>sys_gas_account = b, payer_gas_account = a, convertible_gas = amount (balance a)\<rparr>"])
            (use pos nz \<open>pa = _\<close> Some sint_positive[OF pos] in \<open>simp_all add: defs core_balance_def word_neq_0_conv\<close>)
      qed (rule none, use pos nz Some in \<open>simp_all add: defs\<close>)
    qed (rule none, use Some in \<open>simp_all add: defs\<close>)
  qed (rule none, simp_all add: defs)
qed

lemma bind_res_if: "bind_res (if b then x else y) f = (if b then bind_res x f else bind_res y f)"
  by simp

lemma gas_max_eq:
  "get_account_gas_max cn p r db =
     bind_res (get_account_convertible_gas cn p db) (\<lambda>v. if unat r + unat v < 2 ^ 64 then Inr (r + v) else Inl calc_overflow_exception)"
  by (cases "core_asset_account_create cn db p") (simp_all add: get_account_gas_max_def get_account_convertible_gas_def verify_add_eq bind_res_if cong: if_cong)

lemma word_diff_nat: "v \<le> (w :: u64) \<Longrightarrow> w - v = of_nat (unat w - unat v)"
  by (metis of_nat_unat ucast_id unat_sub)

lemma gas_paid_refl: "gas_paid cn p 0 db db"
  by (auto simp: gas_paid_def)

text \<open>How the two charging operations pay: the database, the gas converted and the gas left in reserve.\<close>

definition pay_transaction ::
    "chain_names \<Rightarrow> core_gas_accessor option \<Rightarrow> u64 \<Rightarrow> u64 \<Rightarrow> resource_db \<Rightarrow> (resource_db \<times> u64 \<times> u64) res" where
  "pay_transaction cn cgs used r db =
     (if used > r then
        (case cgs of None \<Rightarrow> Inl failed_assertion
         | Some c \<Rightarrow> bind_res (pay_gas cn c (used - r) db) (\<lambda>db'. Inr (db', used - r, 0)))
      else Inr (db, 0, r - used))"

definition pay_ram ::
    "chain_names \<Rightarrow> core_gas_accessor option \<Rightarrow> u64 \<Rightarrow> u64 \<Rightarrow> u64 \<Rightarrow> resource_db \<Rightarrow> (resource_db \<times> u64 \<times> u64) res" where
  "pay_ram cn cgs conv used r db =
     (case cgs of
        Some c \<Rightarrow> if conv > 0 then bind_res (pay_gas cn c (used - r) db) (\<lambda>db'. Inr (db', used - r, 0)) else Inr (db, 0, r - used)
      | None \<Rightarrow> Inr (db, 0, r - used))"

text \<open>
  The steps the two charging operations share: with the gas \<open>r\<close> reserved and \<open>v\<close> convertible, \<open>used\<close> is granted exactly
  when it is at most the sum, and what exceeds \<open>r\<close> is paid in core tokens. The sum is computed only when it is needed.
\<close>

lemma settle_gas:
  assumes ok: "token_rows_ok cn db" and ne: "p \<noteq> gas_account_name cn" and v: "get_account_convertible_gas cn p db = Inr v"
  obtains cgs conv where
    "(if used > r then core_gas_accessor_create cn db p else Inr None) = Inr cgs"
    "conv = (case cgs of None \<Rightarrow> 0 | Some c \<Rightarrow> convertible_gas c)"
    "verify_add r conv = (if used \<le> r \<or> unat r + unat v < 2 ^ 64 then Inr () else Inl calc_overflow_exception)"
    "used \<le> r \<or> unat r + unat v < 2 ^ 64 \<longrightarrow> (used \<le> r + conv \<longleftrightarrow> unat used \<le> unat r + unat v)"
    "unat used \<le> unat r + unat v \<longrightarrow> (\<exists>db'. gas_paid cn p (int (unat used - unat r)) db db' \<and>
       pay_transaction cn cgs used r db = Inr (db', of_nat (unat used - unat r), of_nat (unat r - unat used)) \<and>
       pay_ram cn cgs conv used r db = Inr (db', of_nat (unat used - unat r), of_nat (unat r - unat used)))"
proof (cases "r < used")
  case False
  then have "unat used - unat r = 0" "r - used = of_nat (unat r - unat used)" "unat used \<le> unat r"
    using word_diff_nat[of used r] by (simp_all add: word_less_nat_alt not_less)
  then show thesis using False gas_paid_refl[of cn p db]
    by (intro that[of None 0]) (auto simp: verify_add_eq unat_bound[of r, simplified] not_less pay_transaction_def pay_ram_def)
next
  case True
  have less: "unat r < unat used" "\<not> used \<le> r" using True by (simp_all add: word_less_nat_alt word_le_nat_alt)
  show thesis
  proof (cases rule: accessor_cases[OF ok, of p, case_names none some])
    case none
    then have "v = 0" using v by simp
    then show thesis using none True less by (intro that[of None 0]) (auto simp: verify_add_eq unat_bound[of r, simplified])
  next
    case (some c)
    then have vc: "v = convertible_gas c" using v by simp
    have u: "unat (used - r) = unat used - unat r" using True by (intro unat_sub) simp
    have nn: "0 \<le> core_balance cn db (gas_account_name cn)" using ok by (simp add: token_rows_ok_def)
    have pay: "\<exists>db'. pay_gas cn c (used - r) db = Inr db' \<and> gas_paid cn p (int (unat used - unat r)) db db'"
      if "unat used \<le> unat r + unat v"
    proof -
      have "unat used - unat r \<le> unat (convertible_gas c)" using that vc by simp
      then have "int (unat (used - r)) \<le> core_balance cn db p" using some(6) u by linarith
      from pay_gas_exact[OF some(3,4) ne refl refl some(5) this nn two_balances[OF ok ne]] u show ?thesis by simp
    qed
    have "unat r - unat used = 0" "used - r = of_nat (unat used - unat r)"
      using less word_diff_nat[of r used] True by simp_all
    then show thesis using some True less pay vc
      by (intro that[of "Some c" v]) (auto simp: verify_add_eq pay_transaction_def pay_ram_def word_le_nat_alt unat_add_word)
  qed
qed

definition transaction_gas :: "transaction_res_usage \<Rightarrow> resource_limits_config_object \<Rightarrow> nat" where
  "transaction_gas ru cfg = gas_of (tx_cpu_usage ru) (gas_per_cpu_ms cfg) + gas_of (tx_net_usage ru) (gas_per_net_kb cfg)"

lemma gas_of_small: "gas_of v r \<le> (2 ^ 64 - 1) div 1000"
  unfolding gas_of_def by (intro div_le_mono) (simp add: less_Suc_eq_le[symmetric])

lemma transaction_gas_word: "unat (of_nat (transaction_gas ru cfg) :: u64) = transaction_gas ru cfg"
  using gas_of_small[of "tx_cpu_usage ru" "gas_per_cpu_ms cfg"] gas_of_small[of "tx_net_usage ru" "gas_per_net_kb cfg"]
  by (simp add: transaction_gas_def unat_of_nat del: of_nat_add)

lemma calc_transaction_gas_usage_eq:
  "calc_transaction_gas_usage ru cfg =
     Inr (ru\<lparr>cpu_gas := of_nat (gas_of (tx_cpu_usage ru) (gas_per_cpu_ms cfg)), net_gas := of_nat (gas_of (tx_net_usage ru) (gas_per_net_kb cfg))\<rparr>,
       of_nat (transaction_gas ru cfg))"
  using gas_of_small[of "tx_cpu_usage ru" "gas_per_cpu_ms cfg"] gas_of_small[of "tx_net_usage ru" "gas_per_net_kb cfg"]
  by (simp add: calc_transaction_gas_usage_def convert_to_gas verify_add_eq transaction_gas_def)

text \<open>Whether the gas suffices, and the errors when it does not.\<close>

definition gas_refused :: "u64 \<Rightarrow> u64 \<Rightarrow> nat \<Rightarrow> chain_error option" where
  "gas_refused r v used =
     (if used \<le> unat r then None
      else if 2 ^ 64 \<le> unat r + unat v then Some calc_overflow_exception
      else if unat r + unat v < used then Some tx_gas_usage_exceeded else None)"

lemma charge_transaction_exact:
  assumes ok: "token_rows_ok cn db" and ne: "payer ru \<noteq> gas_account_name cn"
    and v: "get_account_convertible_gas cn (payer ru) db = Inr v"
  defines "used \<equiv> transaction_gas ru (limits_config db)"
  shows "case gas_refused (gas acc) v used of Some e \<Rightarrow> charge_transaction cn ru acc db = Inl e
    | None \<Rightarrow> \<exists>db' ru' t. gas_paid cn (payer ru) (int (used - unat (gas acc))) db db' \<and>
      used_gas t = of_nat used \<and> converted_gas t = of_nat (used - unat (gas acc)) \<and>
      charge_transaction cn ru acc db =
        bind_res (verify_add (total_gas_consumed (limits_state db)) (of_nat used)) (\<lambda>_.
        bind_res (verify_add (total_gas_value_flon (limits_state db)) (of_nat used)) (\<lambda>_.
        Inr (set_account_reserved_gas (payer ru) acc (of_nat (unat (gas acc) - used)) db', ru', of_nat used, t)))"
proof -
  define u :: u64 where "u = of_nat used"
  have uu: "unat u = used" by (simp add: u_def used_def transaction_gas_word)
  obtain cgs conv where cgs: "(if u > gas acc then core_gas_accessor_create cn db (payer ru) else Inr None) = Inr cgs"
    and conv: "conv = (case cgs of None \<Rightarrow> 0 | Some c \<Rightarrow> convertible_gas c)"
      "verify_add (gas acc) conv = (if u \<le> gas acc \<or> unat (gas acc) + unat v < 2 ^ 64 then Inr () else Inl calc_overflow_exception)"
    and le: "u \<le> gas acc \<or> unat (gas acc) + unat v < 2 ^ 64 \<longrightarrow> (u \<le> gas acc + conv \<longleftrightarrow> unat u \<le> unat (gas acc) + unat v)"
    and pay: "unat u \<le> unat (gas acc) + unat v \<longrightarrow> (\<exists>db'. gas_paid cn (payer ru) (int (unat u - unat (gas acc))) db db' \<and>
       pay_transaction cn cgs u (gas acc) db = Inr (db', of_nat (unat u - unat (gas acc)), of_nat (unat (gas acc) - unat u)) \<and>
       pay_ram cn cgs conv u (gas acc) db = Inr (db', of_nat (unat u - unat (gas acc)), of_nat (unat (gas acc) - unat u)))"
    by (rule settle_gas[OF ok ne v, where used = u])
  have ur: "u \<le> gas acc \<longleftrightarrow> used \<le> unat (gas acc)" by (simp add: word_le_nat_alt uu)
  let ?trace = "\<lambda>x y. (new_gas_trace (payer ru))\<lparr>reserved_gas_before := gas acc, converted_gas := x, reserved_gas_after := y, used_gas := u\<rparr>"
  note step = charge_transaction_def pay_transaction_def[symmetric] calc_transaction_gas_usage_eq used_def[symmetric] u_def[symmetric]
    cgs conv(1)[symmetric] conv(2) bind_res_simps prod.case Let_def
  show ?thesis
  proof (cases "gas_refused (gas acc) v used")
    case (Some e)
    have "charge_transaction cn ru acc db = Inl e"
      unfolding step using Some le ur uu by (auto simp: gas_refused_def split: if_splits)
    then show ?thesis using Some by simp
  next
    case None
    then have c: "u \<le> gas acc \<or> unat (gas acc) + unat v < 2 ^ 64" and l: "unat u \<le> unat (gas acc) + unat v"
      using ur uu by (auto simp: gas_refused_def split: if_splits)
    then have t: "(u \<le> gas acc + conv) = True" using le by simp
    from pay[rule_format, OF l] obtain db' where paid: "gas_paid cn (payer ru) (int (used - unat (gas acc))) db db'"
      and eq: "pay_transaction cn cgs u (gas acc) db = Inr (db', of_nat (used - unat (gas acc)), of_nat (unat (gas acc) - used))"
      unfolding uu by blast
    let ?t = "?trace (of_nat (used - unat (gas acc))) (of_nat (unat (gas acc) - used))"
    have "used_gas ?t = u" "converted_gas ?t = of_nat (used - unat (gas acc))" by simp_all
    then show ?thesis unfolding None option.case u_def[symmetric] using paid
      by (intro exI[of _ db'] exI[of _ ?t] exI conjI) (simp_all only: step if_P[OF c] t eos_assert_simps eq)
  qed
qed

lemma charge_ram_exact:
  fixes d :: u64
  assumes ok: "token_rows_ok cn db" and ne: "n \<noteq> gas_account_name cn" and v: "get_account_convertible_gas cn n db = Inr v"
  defines "used \<equiv> gas_of d (gas_per_ram_kb (limits_config db))" and "st \<equiv> limits_state db"
  shows "case gas_refused (gas acc) v used of Some e \<Rightarrow> charge_ram cn n d acc db = Inl e
    | None \<Rightarrow> \<exists>db' t. gas_paid cn n (int (used - unat (gas acc))) db db' \<and>
      charge_ram cn n d acc db =
        bind_res (verify_add (total_gas_consumed st) (of_nat used)) (\<lambda>_.
        bind_res (verify_add (total_gas_value_flon st) (of_nat used)) (\<lambda>_.
        Inr ((set_account_reserved_gas n acc (of_nat (unat (gas acc) - used)) db')\<lparr>limits_state :=
          st\<lparr>total_gas_consumed := total_gas_consumed st + of_nat used, total_gas_value_flon := total_gas_value_flon st + of_nat used\<rparr>\<rparr>, t)))"
proof -
  define u :: u64 where "u = of_nat used"
  have uu: "unat u = used" by (simp add: u_def used_def)
  obtain cgs conv where cgs: "(if u > gas acc then core_gas_accessor_create cn db n else Inr None) = Inr cgs"
    and conv: "conv = (case cgs of None \<Rightarrow> 0 | Some c \<Rightarrow> convertible_gas c)"
      "verify_add (gas acc) conv = (if u \<le> gas acc \<or> unat (gas acc) + unat v < 2 ^ 64 then Inr () else Inl calc_overflow_exception)"
    and le: "u \<le> gas acc \<or> unat (gas acc) + unat v < 2 ^ 64 \<longrightarrow> (u \<le> gas acc + conv \<longleftrightarrow> unat u \<le> unat (gas acc) + unat v)"
    and pay: "unat u \<le> unat (gas acc) + unat v \<longrightarrow> (\<exists>db'. gas_paid cn n (int (unat u - unat (gas acc))) db db' \<and>
       pay_transaction cn cgs u (gas acc) db = Inr (db', of_nat (unat u - unat (gas acc)), of_nat (unat (gas acc) - unat u)) \<and>
       pay_ram cn cgs conv u (gas acc) db = Inr (db', of_nat (unat u - unat (gas acc)), of_nat (unat (gas acc) - unat u)))"
    by (rule settle_gas[OF ok ne v, where used = u])
  have ur: "u \<le> gas acc \<longleftrightarrow> used \<le> unat (gas acc)" by (simp add: word_le_nat_alt uu)
  have small: "verify_delta_converting u = Inr ()"
    using gas_of_small[of d "gas_per_ram_kb (limits_config db)"] uu
    by (simp add: verify_delta_converting_def eos_assert_def word_le_nat_alt used_def)
  note step = charge_ram_def convert_to_gas used_def[symmetric] u_def[symmetric] cgs conv(1)[symmetric] pay_ram_def[symmetric]
    conv(2) bind_res_simps prod.case Let_def
  show ?thesis
  proof (cases "gas_refused (gas acc) v used")
    case (Some e)
    have "charge_ram cn n d acc db = Inl e"
      unfolding step using Some le ur uu by (auto simp: gas_refused_def split: if_splits)
    then show ?thesis using Some by simp
  next
    case None
    then have c: "u \<le> gas acc \<or> unat (gas acc) + unat v < 2 ^ 64" and l: "unat u \<le> unat (gas acc) + unat v"
      using ur uu by (auto simp: gas_refused_def split: if_splits)
    then have t: "(u \<le> gas acc + conv) = True" using le by simp
    from pay[rule_format, OF l] obtain db' where paid: "gas_paid cn n (int (used - unat (gas acc))) db db'"
      and eq: "pay_ram cn cgs conv u (gas acc) db = Inr (db', of_nat (used - unat (gas acc)), of_nat (unat (gas acc) - used))"
      unfolding uu by blast
    show ?thesis unfolding None option.case u_def[symmetric] st_def using paid
      by (intro exI[of _ db'] exI conjI) (simp_all only: step if_P[OF c] t eos_assert_simps eq small)
  qed
qed

lemma set_reserved_gas:
  "limits_table db n = Some acc \<Longrightarrow> limits_table (set_account_reserved_gas n acc g db) = (limits_table db)(n \<mapsto> acc\<lparr>gas := g\<rparr>)"
  "core_rows (set_account_reserved_gas n acc g db) = core_rows db"
  "usage_table (set_account_reserved_gas n acc g db) = usage_table db"
  "limits_state (set_account_reserved_gas n acc g db) = limits_state db"
  "limits_config (set_account_reserved_gas n acc g db) = limits_config db"
  "global_configuration (set_account_reserved_gas n acc g db) = global_configuration db"
  by (auto simp: set_account_reserved_gas_def fun_upd_idem)

lemma core_rows_only:
  assumes "core_rows db = core_rows db'"
  shows "core_asset_account_create cn db = core_asset_account_create cn db'" and "core_balance cn db = core_balance cn db'"
    and "token_rows_ok cn db = token_rows_ok cn db'"
proof -
  show c: "core_asset_account_create cn db = core_asset_account_create cn db'" by (rule ext) (simp add: core_asset_account_create_def assms)
  show b: "core_balance cn db = core_balance cn db'" by (rule ext) (simp add: core_balance_def c)
  show "token_rows_ok cn db = token_rows_ok cn db'" by (simp add: token_rows_ok_def b c assms)
qed

text \<open>The part of \<^verbatim>\<open>add_transaction_usage\<close> after the gas, for both kinds of accounts.\<close>

lemma add_transaction_usage_limited:
  assumes "limits_table db (payer ru) = Some acc" and "\<not> is_unlimited acc" and "usage_table db (payer ru) = Some us"
  shows "case add_transaction_usage cn ru tr db of
      Inl e \<Rightarrow> charge_transaction cn ru acc db = Inl e \<or>
        (\<exists>r. charge_transaction cn ru acc db = Inr r) \<and> e \<in> {calc_overflow_exception, block_resource_exhausted}
    | Inr (db', ru', tr') \<Rightarrow> \<exists>db1 used t. charge_transaction cn ru acc db = Inr (db1, ru', used, t) \<and> tr' = Some t \<and>
        limits_table db' = limits_table db1 \<and> core_rows db' = core_rows db1 \<and>
        total_gas_consumed (limits_state db') = total_gas_consumed (limits_state db) + used"
proof (cases "charge_transaction cn ru acc db")
  case (Inl e)
  then show ?thesis using assms by (simp add: add_transaction_usage_def table_get_def)
next
  case (Inr r)
  obtain db1 ru1 used t where r: "r = (db1, ru1, used, t)" by (cases r)
  show ?thesis
  proof (cases "add_transaction_usage cn ru tr db")
    case I: (Inl e)
    then have "e \<in> {calc_overflow_exception, block_resource_exhausted}" using assms Inr r
      by (auto simp: add_transaction_usage_def table_get_def res_simps Let_def verify_add_eq split: if_splits)
    then show ?thesis using I Inr r by simp
  next
    case I: (Inr q)
    then show ?thesis using assms Inr r
      by (auto simp: add_transaction_usage_def table_get_def res_simps Let_def)
  qed
qed

lemma charged_inverse:
  assumes "bind_res (verify_add a x) (\<lambda>_. bind_res (verify_add b x) (\<lambda>_. Inr y)) = r"
  shows "r = Inl calc_overflow_exception \<or> r = Inr y \<and> unat (a + x) = unat a + unat x"
  using assms by (auto simp: verify_add_eq unat_add_word split: if_splits)

lemma gas_paid_balances:
  "gas_paid cn p g db db' \<Longrightarrow> core_balance cn db' n =
     core_balance cn db n + (if n = p then - g else if n = gas_account_name cn then g else 0)"
  by (auto simp: gas_paid_def core_balance_def)

section \<open>Properties of charging\<close>

text \<open>
  C38. A transaction of an account that is not unlimited, and is not the system gas account, costs the gas of its CPU and network usage: for
  each, the usage times the rate, divided by 1000 and rounded up, with the product reduced modulo \<open>2 ^ 64\<close> as the code does. Let every
  token row be readable, no balance be negative and the supply be a valid amount, and let \<open>v\<close> be the convertible gas of the payer. With \<open>r\<close> gas in
  reserve the transaction is refused with \<^verbatim>\<open>tx_gas_usage_exceeded\<close> exactly when it costs more than \<open>r + v\<close>; otherwise it fails
  only with an overflow of a counter or for want of room in the block. When it is accepted, the reserve is used first, the rest moves
  as core tokens from the payer to the gas account, no other account and no other balance changes, and the trace and the
  total of consumed gas record what was used.
\<close>

theorem transaction_charge_exact:
  assumes ok: "token_rows_ok cn db" and ne: "payer ru \<noteq> gas_account_name cn"
    and acc: "limits_table db (payer ru) = Some acc" "\<not> is_unlimited acc" and us: "usage_table db (payer ru) = Some us"
    and v: "get_account_convertible_gas cn (payer ru) db = Inr v"
    and used: "used = transaction_gas ru (limits_config db)"
  shows "case add_transaction_usage cn ru tr db of
      Inl e \<Rightarrow> if unat (gas acc) + unat v < used then e = tx_gas_usage_exceeded else e \<in> {calc_overflow_exception, block_resource_exhausted}
    | Inr (db', ru', tr') \<Rightarrow>
        used \<le> unat (gas acc) + unat v \<and>
        limits_table db' = (limits_table db)(payer ru \<mapsto> acc\<lparr>gas := of_nat (unat (gas acc) - used)\<rparr>) \<and>
        (\<forall>n. core_balance cn db' n = core_balance cn db n +
          (if n = payer ru then - int (used - unat (gas acc)) else if n = gas_account_name cn then int (used - unat (gas acc)) else 0)) \<and>
        unat (total_gas_consumed (limits_state db')) = unat (total_gas_consumed (limits_state db)) + used \<and>
        (\<exists>t. tr' = Some t \<and> unat (used_gas t) = used \<and> unat (converted_gas t) = used - unat (gas acc))"
proof -
  have w: "unat (of_nat used :: u64) = used" "used < 2 ^ 64"
    using transaction_gas_word[of ru "limits_config db"] unat_bound[of "of_nat used :: u64"] by (simp_all add: used)
  note lim = add_transaction_usage_limited[OF acc us, of cn tr]
  note ch = charge_transaction_exact[OF ok ne v, of acc, folded used]
  show ?thesis
  proof (cases "gas_refused (gas acc) v used")
    case (Some e)
    then have c: "charge_transaction cn ru acc db = Inl e" using ch by simp
    from lim have "add_transaction_usage cn ru tr db = Inl e" unfolding c by (auto split: sum.splits)
    then show ?thesis using Some w(2) by (auto simp: gas_refused_def split: if_splits)
  next
    case None
    then have le: "used \<le> unat (gas acc) + unat v" by (auto simp: gas_refused_def split: if_splits)
    from ch None obtain db1 ru1 t where paid: "gas_paid cn (payer ru) (int (used - unat (gas acc))) db db1"
      and t: "used_gas t = of_nat used" "converted_gas t = of_nat (used - unat (gas acc))"
      and c: "charge_transaction cn ru acc db =
        bind_res (verify_add (total_gas_consumed (limits_state db)) (of_nat used)) (\<lambda>_.
        bind_res (verify_add (total_gas_value_flon (limits_state db)) (of_nat used)) (\<lambda>_.
        Inr (set_account_reserved_gas (payer ru) acc (of_nat (unat (gas acc) - used)) db1, ru1, of_nat used, t)))" by auto
    have lt: "limits_table db1 (payer ru) = Some acc" "limits_table db1 = limits_table db"
      using paid acc(1) unfolding gas_paid_def by (metis resource_db.select_convs(1) resource_db.surjective resource_db.update_convs(5))+
    have conv: "unat (of_nat (used - unat (gas acc)) :: u64) = used - unat (gas acc)" using w(2) by (simp add: unat_of_nat)
    show ?thesis
    proof (cases "add_transaction_usage cn ru tr db")
      case (Inl e)
      with lim charged_inverse[OF c[symmetric]] le show ?thesis by auto
    next
      case (Inr q)
      obtain db' ru' tr' where q: "q = (db', ru', tr')" by (cases q)
      from lim charged_inverse[OF c[symmetric]] Inr q
      have "limits_table db' = limits_table (set_account_reserved_gas (payer ru) acc (of_nat (unat (gas acc) - used)) db1)"
        "core_rows db' = core_rows db1" "total_gas_consumed (limits_state db') = total_gas_consumed (limits_state db) + of_nat used" "tr' = Some t"
        "unat (total_gas_consumed (limits_state db) + of_nat used) = unat (total_gas_consumed (limits_state db)) + used"
        by (auto simp: set_reserved_gas w(1))
      then show ?thesis
        using Inr q le t w(1) conv gas_paid_balances[OF paid] core_rows_only(2)[of db' db1 cn] set_reserved_gas(1)[OF lt(1)] lt(2) by simp
    qed
  qed
qed

text \<open>A small chain: the gas account 1 with 5 tokens, the account 2 with 10 gas in reserve and 1000 tokens.\<close>

definition example_names :: chain_names where
  "example_names = \<lparr>gas_account_name = 1, core_symbol = 0x4e4f4c4604\<rparr>"

definition example_row :: "u64 \<Rightarrow> u8 list" where
  "example_row x = le_bytes 8 x @ le_bytes 8 (0x4e4f4c4604 :: u64)"

definition example_config :: chain_config where
  "example_config = \<lparr>max_total_ram_usage = 1000000, cfg_gas_per_cpu_ms = 10000, cfg_gas_per_net_kb = 50000, cfg_gas_per_ram_kb = 1\<rparr>"

definition example_db :: resource_db where
  "example_db = (initialize_database example_config)\<lparr>
     limits_table := [1 \<mapsto> \<lparr>gas = 0, is_unlimited = True\<rparr>, 2 \<mapsto> \<lparr>gas = 10, is_unlimited = False\<rparr>],
     usage_table := [1 \<mapsto> \<lparr>net_usage = 0, cpu_usage = 0, ram_usage = 0\<rparr>, 2 \<mapsto> \<lparr>net_usage = 0, cpu_usage = 0, ram_usage = 0\<rparr>],
     core_rows := [1 \<mapsto> example_row 5, 2 \<mapsto> example_row 1000]\<rparr>"

definition example_transaction :: transaction_res_usage where
  "example_transaction = \<lparr>payer = 2, tx_net_usage = 0, net_gas = 0, tx_cpu_usage = 10, cpu_gas = 0\<rparr>"

lemma example_symbol_valid: "symbol_valid 0x4e4f4c4604"
proof -
  have "valid_name ''FLON''" by (simp add: valid_name_def upper_case_def)
  moreover have "symbol_name 0x4e4f4c4604 = ''FLON''" by code_simp
  ultimately show ?thesis by (simp add: symbol_valid_def decimals_def max_precision_def)
qed

lemma example_row_read:
  assumes "sint x = int k" and "k < 2 ^ 62"
  shows "core_rows db n = Some (example_row x) \<Longrightarrow> core_asset_account_create example_names db n =
    Inr (Some \<lparr>table_owner = n, balance = \<lparr>amount = x, asset_symbol = 0x4e4f4c4604\<rparr>, remaining_data = []\<rparr>)"
proof -
  let ?a = "\<lparr>amount = x, asset_symbol = 0x4e4f4c4604 :: u64\<rparr>"
  assume r: "core_rows db n = Some (example_row x)"
  have "int k < int (2 ^ 62)" using assms(2) unfolding of_nat_less_iff .
  then have "asset_is_valid ?a"
    using assms example_symbol_valid by (simp add: asset_is_valid_def is_amount_within_range_def max_amount_def)
  from asset.round_trip[OF this, of "example_row x" "[]"]
  show ?thesis using r by (simp add: core_asset_account_create_def example_row_def pack_asset_def pack_then_def pack_u64_def
        min_packed_size_def example_names_def)
qed

lemma example_accounts:
  "core_asset_account_create example_names example_db n =
     Inr (if n = 1 then Some \<lparr>table_owner = 1, balance = \<lparr>amount = 5, asset_symbol = 0x4e4f4c4604\<rparr>, remaining_data = []\<rparr>
          else if n = 2 then Some \<lparr>table_owner = 2, balance = \<lparr>amount = 1000, asset_symbol = 0x4e4f4c4604\<rparr>, remaining_data = []\<rparr> else None)"
  using example_row_read[of 5 5 example_db 1] example_row_read[of 1000 1000 example_db 2]
  by (auto simp: example_db_def core_asset_account_create_def)

lemma example_rows_ok: "token_rows_ok example_names example_db"
proof -
  have b: "core_balance example_names example_db n = (if n = 1 then 5 else if n = 2 then 1000 else 0)" for n
    by (simp add: core_balance_def example_accounts)
  have d: "dom (core_rows example_db) = {1, 2}" by (auto simp: example_db_def)
  show ?thesis by (auto simp: token_rows_ok_def b d example_accounts max_amount_def)
qed

lemma example_transaction_accepted: "\<not> isl (add_transaction_usage example_names example_transaction None example_db)"
  by code_simp

theorem transaction_charge_exact_witness:
  "\<exists>db' ru' tr'. add_transaction_usage example_names example_transaction None example_db = Inr (db', ru', tr') \<and>
     core_balance example_names db' 2 = 910 \<and> core_balance example_names db' 1 = 95 \<and> map_option gas (limits_table db' 2) = Some 0"
proof -
  have g: "transaction_gas example_transaction (limits_config example_db) = 100"
    by (simp add: transaction_gas_def gas_of_def example_transaction_def example_db_def initialize_database_def initialize_config_def example_config_def)
  have gn: "gas_account_name example_names = 1" by (simp add: example_names_def)
  have v: "get_account_convertible_gas example_names 2 example_db = Inr 1000"
    by (simp add: get_account_convertible_gas_def convertible_gas_of_def example_accounts convert_core_asset_to_gas_def gn)
  have p: "payer example_transaction = 2" by (simp add: example_transaction_def)
  have b: "core_balance example_names example_db 2 = 1000" "core_balance example_names example_db 1 = 5"
    by (simp_all add: core_balance_def example_accounts)
  obtain db' ru' tr' where r: "add_transaction_usage example_names example_transaction None example_db = Inr (db', ru', tr')"
    using example_transaction_accepted by (cases "add_transaction_usage example_names example_transaction None example_db") auto
  have "payer example_transaction \<noteq> gas_account_name example_names" "limits_table example_db (payer example_transaction) = Some \<lparr>gas = 10, is_unlimited = False\<rparr>"
    "usage_table example_db (payer example_transaction) = Some \<lparr>net_usage = 0, cpu_usage = 0, ram_usage = 0\<rparr>"
    by (simp_all add: p gn example_db_def)
  from transaction_charge_exact[OF example_rows_ok this(1,2) _ this(3) v[folded p] g[symmetric], of None]
  show ?thesis by (simp add: r p b gn)
qed

end
