(* ===== verification/Gas_Conservation.thy ===== *)
theory Gas_Conservation
  imports Gas_Accounting
begin

text \<open>
  Runs of the operations of the resource manager: the core tokens are conserved, what the gas account receives is covered by the gas
  consumed, and the usages of the accounts add up to the totals of the state object.
\<close>

section \<open>Runs\<close>

datatype resource_op =
    Initialize_account name
  | Set_account_limits name u64 bool
  | Set_block_parameters chain_config elastic_limit_parameters elastic_limit_parameters
  | Add_transaction_usage transaction_res_usage
  | Add_ram_usage name u64
  | Process_block_usage u32

text \<open>An operation that throws leaves the database as it was.\<close>

fun resource_step :: "chain_names \<Rightarrow> resource_op \<Rightarrow> resource_db \<Rightarrow> resource_db res" where
  "resource_step cn (Initialize_account n) db = initialize_account n db"
| "resource_step cn (Set_account_limits n g unlimited) db = set_account_limits cn n g unlimited db"
| "resource_step cn (Set_block_parameters cfg cpu net) db = set_block_parameters cfg cpu net db"
| "resource_step cn (Add_transaction_usage ru) db = bind_res (add_transaction_usage cn ru None db) (\<lambda>(db', _). Inr db')"
| "resource_step cn (Add_ram_usage n d) db = bind_res (add_ram_usage cn n d None db) (\<lambda>(db', _). Inr db')"
| "resource_step cn (Process_block_usage num) db = process_block_usage num db"

definition resource_run :: "chain_names \<Rightarrow> resource_op list \<Rightarrow> resource_db \<Rightarrow> resource_db" where
  "resource_run cn ops db = fold (\<lambda>op db. case resource_step cn op db of Inl _ \<Rightarrow> db | Inr db' \<Rightarrow> db') ops db"

definition gas_account_unlimited :: "chain_names \<Rightarrow> resource_db \<Rightarrow> bool" where
  "gas_account_unlimited cn db \<longleftrightarrow> (case limits_table db (gas_account_name cn) of None \<Rightarrow> True | Some acc \<Rightarrow> is_unlimited acc)"

definition core_supply :: "chain_names \<Rightarrow> resource_db \<Rightarrow> int" where
  "core_supply cn db = (\<Sum>n\<in>dom (core_rows db). core_balance cn db n)"

text \<open>The effect of an operation on the core tokens.\<close>

definition tokens_conserved :: "chain_names \<Rightarrow> resource_db \<Rightarrow> resource_db \<Rightarrow> bool" where
  "tokens_conserved cn db db' \<longleftrightarrow>
     token_rows_ok cn db' \<and> core_supply cn db' = core_supply cn db \<and>
     (\<forall>n. n \<noteq> gas_account_name cn \<longrightarrow> core_balance cn db' n \<le> core_balance cn db n) \<and>
     core_balance cn db (gas_account_name cn) \<le> core_balance cn db' (gas_account_name cn) \<and>
     core_balance cn db' (gas_account_name cn) - core_balance cn db (gas_account_name cn) \<le>
       int (unat (total_gas_consumed (limits_state db'))) - int (unat (total_gas_consumed (limits_state db)))"

lemma tokens_conserved_trans: "tokens_conserved cn a b \<Longrightarrow> tokens_conserved cn b c \<Longrightarrow> tokens_conserved cn a c"
  unfolding tokens_conserved_def by (auto intro: order_trans)

lemma tokens_untouched:
  assumes "token_rows_ok cn db" and "core_rows db' = core_rows db" and "total_gas_consumed (limits_state db') = total_gas_consumed (limits_state db)"
  shows "tokens_conserved cn db db'"
  using assms core_rows_only[OF assms(2), of cn] by (simp add: tokens_conserved_def core_supply_def)

lemma convertible_bound:
  assumes "token_rows_ok cn db" and "get_account_convertible_gas cn p db = Inr v"
  shows "int (unat v) \<le> core_balance cn db p"
  using assms by (cases rule: accessor_cases[OF assms(1), of p]) (auto simp: token_rows_ok_def)

lemma convertible_returns: "token_rows_ok cn db \<Longrightarrow> \<exists>v. get_account_convertible_gas cn p db = Inr v"
  by (metis accessor_cases)

lemma gas_paid_conserves:
  assumes ok: "token_rows_ok cn db" and paid: "gas_paid cn p g db db'" and ne: "p \<noteq> gas_account_name cn"
    and g: "0 \<le> g" "g \<le> core_balance cn db p"
  shows "token_rows_ok cn db' \<and> core_supply cn db' = core_supply cn db"
proof -
  let ?D = "dom (core_rows db)" and ?s = "gas_account_name cn"
  have D: "dom (core_rows db') = ?D" and fin: "finite ?D" using paid ok by (auto simp: gas_paid_def token_rows_ok_def)
  note bal = gas_paid_balances[OF paid]
  have nn: "0 \<le> core_balance cn db' n" for n using g bal[of n] ok by (auto simp: token_rows_ok_def)
  have "(\<Sum>n\<in>?D. if n = p then - g else if n = ?s then g else 0) = 0"
  proof (cases "g = 0")
    case False
    then have "p \<in> ?D" using core_balance_outside[of p db cn] g by fastforce
    moreover have "core_balance cn db' ?s \<noteq> 0" using bal[of ?s] ne False g(1) ok by (auto simp: token_rows_ok_def dest: spec[of _ ?s])
    then have "?s \<in> ?D" using core_balance_outside[of ?s db' cn] D by blast
    ultimately have "(\<Sum>n\<in>?D. if n = p then - g else if n = ?s then g else 0) = (\<Sum>n\<in>{p, ?s}. if n = p then - g else if n = ?s then g else 0)"
      using fin by (intro sum.mono_neutral_right) auto
    then show ?thesis using ne by simp
  qed (simp cong: if_cong)
  then have sup: "core_supply cn db' = core_supply cn db" by (simp add: core_supply_def D bal sum.distrib)
  moreover have "\<exists>a. core_asset_account_create cn db' n = Inr a" for n using paid ok by (auto simp: gas_paid_def token_rows_ok_def)
  ultimately show ?thesis using ok nn fin by (simp add: token_rows_ok_def core_supply_def D)
qed

lemma charged_conserves:
  assumes ok: "token_rows_ok cn db" and ne: "p \<noteq> gas_account_name cn" and paid: "gas_paid cn p (int (used - r)) db dbp"
    and bal: "int (used - r) \<le> core_balance cn db p" and rows: "core_rows db' = core_rows dbp"
    and total: "unat (total_gas_consumed (limits_state db')) = unat (total_gas_consumed (limits_state db)) + used"
  shows "tokens_conserved cn db db'"
proof -
  note b = gas_paid_balances[OF paid] and r = core_rows_only[OF rows, of cn]
  have "token_rows_ok cn dbp \<and> core_supply cn dbp = core_supply cn db" using gas_paid_conserves[OF ok paid ne _ bal] by simp
  then have "token_rows_ok cn db'" "core_supply cn db' = core_supply cn db" using r rows by (simp_all add: core_supply_def)
  moreover have "core_balance cn db' n = core_balance cn db n +
      (if n = p then - int (used - r) else if n = gas_account_name cn then int (used - r) else 0)" for n using b r by simp
  ultimately show ?thesis using ne total by (simp add: tokens_conserved_def)
qed

lemma gas_granted:
  assumes ok: "token_rows_ok cn db" and v: "get_account_convertible_gas cn p db = Inr v" and g: "gas_refused r v used = None"
  shows "int (used - unat r) \<le> core_balance cn db p"
proof -
  have "used - unat r \<le> unat v" using g by (auto simp: gas_refused_def split: if_splits)
  then show ?thesis using convertible_bound[OF ok v] by linarith
qed

lemma gas_paid_tables: "gas_paid cn p g db db' \<Longrightarrow> limits_table db' = limits_table db \<and> limits_state db' = limits_state db"
  unfolding gas_paid_def by (metis resource_db.select_convs(1,4) resource_db.surjective resource_db.update_convs(5))

lemma charge_transaction_effect:
  assumes ok: "token_rows_ok cn db" and ne: "payer ru \<noteq> gas_account_name cn" and acc: "limits_table db (payer ru) = Some acc"
    and ch: "charge_transaction cn ru acc db = Inr (db1, ru', u, t)"
  obtains dbp r used where "gas_paid cn (payer ru) (int (used - r)) db dbp" "int (used - r) \<le> core_balance cn db (payer ru)"
    "core_rows db1 = core_rows dbp" "limits_table db1 (gas_account_name cn) = limits_table db (gas_account_name cn)"
    "unat (total_gas_consumed (limits_state db) + u) = unat (total_gas_consumed (limits_state db)) + used"
proof -
  let ?used = "transaction_gas ru (limits_config db)"
  obtain v where v: "get_account_convertible_gas cn (payer ru) db = Inr v" using convertible_returns[OF ok] by blast
  note ex = charge_transaction_exact[OF ok ne v, of acc]
  have g: "gas_refused (gas acc) v ?used = None" using ex ch by (auto split: option.splits)
  from ex g obtain dbp ru1 t1 where paid: "gas_paid cn (payer ru) (int (?used - unat (gas acc))) db dbp"
    and c: "charge_transaction cn ru acc db =
      bind_res (verify_add (total_gas_consumed (limits_state db)) (of_nat ?used)) (\<lambda>_.
      bind_res (verify_add (total_gas_value_flon (limits_state db)) (of_nat ?used)) (\<lambda>_.
      Inr (set_account_reserved_gas (payer ru) acc (of_nat (unat (gas acc) - ?used)) dbp, ru1, of_nat ?used, t1)))" by auto
  from charged_inverse[OF c[symmetric]] ch
  have e: "db1 = set_account_reserved_gas (payer ru) acc (of_nat (unat (gas acc) - ?used)) dbp" "u = of_nat ?used"
    "unat (total_gas_consumed (limits_state db) + u) = unat (total_gas_consumed (limits_state db)) + unat u" by auto
  note lt = gas_paid_tables[OF paid]
  show thesis
    by (rule that[OF paid gas_granted[OF ok v g]])
      (use e lt acc ne in \<open>simp_all add: set_reserved_gas transaction_gas_word\<close>)
qed

lemma charge_ram_effect:
  assumes ok: "token_rows_ok cn db" and ne: "n \<noteq> gas_account_name cn" and acc: "limits_table db n = Some acc"
    and ch: "charge_ram cn n d acc db = Inr (db1, t)"
  obtains dbp r used where "gas_paid cn n (int (used - r)) db dbp" "int (used - r) \<le> core_balance cn db n"
    "core_rows db1 = core_rows dbp" "limits_table db1 (gas_account_name cn) = limits_table db (gas_account_name cn)"
    "unat (total_gas_consumed (limits_state db1)) = unat (total_gas_consumed (limits_state db)) + used"
proof -
  let ?used = "gas_of d (gas_per_ram_kb (limits_config db))" and ?st = "limits_state db"
  obtain v where v: "get_account_convertible_gas cn n db = Inr v" using convertible_returns[OF ok] by blast
  note ex = charge_ram_exact[OF ok ne v, of d acc]
  have g: "gas_refused (gas acc) v ?used = None" using ex ch by (auto split: option.splits)
  from ex g obtain dbp t1 where paid: "gas_paid cn n (int (?used - unat (gas acc))) db dbp"
    and c: "charge_ram cn n d acc db =
        bind_res (verify_add (total_gas_consumed ?st) (of_nat ?used)) (\<lambda>_.
        bind_res (verify_add (total_gas_value_flon ?st) (of_nat ?used)) (\<lambda>_.
        Inr ((set_account_reserved_gas n acc (of_nat (unat (gas acc) - ?used)) dbp)\<lparr>limits_state :=
          ?st\<lparr>total_gas_consumed := total_gas_consumed ?st + of_nat ?used, total_gas_value_flon := total_gas_value_flon ?st + of_nat ?used\<rparr>\<rparr>, t1)))"
    by auto
  from charged_inverse[OF c[symmetric]] ch
  have e: "db1 = (set_account_reserved_gas n acc (of_nat (unat (gas acc) - ?used)) dbp)\<lparr>limits_state :=
      ?st\<lparr>total_gas_consumed := total_gas_consumed ?st + of_nat ?used, total_gas_value_flon := total_gas_value_flon ?st + of_nat ?used\<rparr>\<rparr>"
    "unat (total_gas_consumed ?st + of_nat ?used) = unat (total_gas_consumed ?st) + ?used" by auto
  note lt = gas_paid_tables[OF paid]
  show thesis
    by (rule that[OF paid gas_granted[OF ok v g]]) (use e lt acc ne in \<open>simp_all add: set_reserved_gas\<close>)
qed

definition resource_inv :: "chain_names \<Rightarrow> resource_db \<Rightarrow> bool" where
  "resource_inv cn db \<longleftrightarrow> token_rows_ok cn db \<and> gas_account_unlimited cn db"

lemma transaction_step_conserves:
  assumes inv: "resource_inv cn db" and st: "add_transaction_usage cn ru tr db = Inr (db', ru', tr')"
  shows "tokens_conserved cn db db' \<and> gas_account_unlimited cn db'"
proof -
  have ok: "token_rows_ok cn db" and un: "gas_account_unlimited cn db" using inv by (simp_all add: resource_inv_def)
  obtain us acc where us: "usage_table db (payer ru) = Some us" and acc: "limits_table db (payer ru) = Some acc"
    using st by (auto simp: add_transaction_usage_def table_get_def res_simps split: option.splits)
  show ?thesis
  proof (cases "is_unlimited acc")
    case True
    then have "core_rows db' = core_rows db" "limits_table db' = limits_table db"
      "total_gas_consumed (limits_state db') = total_gas_consumed (limits_state db)"
      using st us acc by (auto simp: add_transaction_usage_def table_get_def res_simps Let_def)
    then show ?thesis using tokens_untouched[OF ok] un by (simp add: gas_account_unlimited_def)
  next
    case False
    have ne: "payer ru \<noteq> gas_account_name cn" using un acc False by (auto simp: gas_account_unlimited_def)
    from add_transaction_usage_limited[OF acc False us, of cn tr] st obtain db1 u t
      where ch: "charge_transaction cn ru acc db = Inr (db1, ru', u, t)" and lt: "limits_table db' = limits_table db1"
        and rows: "core_rows db' = core_rows db1"
        and total: "total_gas_consumed (limits_state db') = total_gas_consumed (limits_state db) + u" by auto
    from charge_transaction_effect[OF ok ne acc ch] obtain dbp r used
      where "gas_paid cn (payer ru) (int (used - r)) db dbp" "int (used - r) \<le> core_balance cn db (payer ru)"
        "core_rows db1 = core_rows dbp" and g: "limits_table db1 (gas_account_name cn) = limits_table db (gas_account_name cn)"
        and "unat (total_gas_consumed (limits_state db) + u) = unat (total_gas_consumed (limits_state db)) + used" .
    then have "tokens_conserved cn db db'" using charged_conserves[OF ok ne, of used r dbp db'] rows total by simp
    then show ?thesis using un lt g by (simp add: gas_account_unlimited_def)
  qed
qed

lemma add_ram_usage_inverse:
  assumes "add_ram_usage cn n d tr db = Inr (db', tr')" and "d \<noteq> 0"
  obtains us acc db1 where "usage_table db n = Some us" "limits_table db n = Some acc"
    "if is_unlimited acc then db1 = db
     else \<exists>t. (if sint d > 0 then charge_ram cn n d acc db else refund_ram n (- d) acc db) = Inr (db1, t)"
    "db' = db1\<lparr>usage_table := (usage_table db1)(n \<mapsto> us\<lparr>ram_usage := ram_usage us + d\<rparr>),
       limits_state := (limits_state db1)\<lparr>total_ram_usage := total_ram_usage (limits_state db1) + d\<rparr>\<rparr>"
    "if sint d > 0 then unat (ram_usage us) + unat d < 2 ^ 64 \<and> unat (total_ram_usage (limits_state db1)) + unat d < 2 ^ 64
     else - d \<le> ram_usage us \<and> - d \<le> total_ram_usage (limits_state db1)"
    "total_ram_usage (limits_state db1) + d \<le> max_total_ram_usage (global_configuration db)"
  using assms
  by (auto simp: add_ram_usage_def table_get_def res_simps Let_def verify_add_eq split: option.splits if_splits) 

lemma ram_step_conserves:
  assumes inv: "resource_inv cn db" and st: "add_ram_usage cn n d tr db = Inr (db', tr')"
  shows "tokens_conserved cn db db' \<and> gas_account_unlimited cn db'"
proof (cases "d = 0")
  case True
  then show ?thesis using st inv tokens_untouched[of cn db db] by (simp add: add_ram_usage_def resource_inv_def)
next
  case False
  have ok: "token_rows_ok cn db" and un: "gas_account_unlimited cn db" using inv by (simp_all add: resource_inv_def)
  from add_ram_usage_inverse[OF st False] obtain us acc db1 where acc: "limits_table db n = Some acc"
    and ch: "if is_unlimited acc then db1 = db
      else \<exists>t. (if sint d > 0 then charge_ram cn n d acc db else refund_ram n (- d) acc db) = Inr (db1, t)"
    and db': "db' = db1\<lparr>usage_table := (usage_table db1)(n \<mapsto> us\<lparr>ram_usage := ram_usage us + d\<rparr>),
       limits_state := (limits_state db1)\<lparr>total_ram_usage := total_ram_usage (limits_state db1) + d\<rparr>\<rparr>" .
  have d: "core_rows db' = core_rows db1" "limits_table db' = limits_table db1"
    "total_gas_consumed (limits_state db') = total_gas_consumed (limits_state db1)" by (simp_all add: db')
  show ?thesis
  proof (cases "is_unlimited acc")
    case True
    then show ?thesis using ch d tokens_untouched[OF ok, of db'] un by (simp add: gas_account_unlimited_def)
  next
    case False
    have ne: "n \<noteq> gas_account_name cn" using un acc False by (auto simp: gas_account_unlimited_def)
    show ?thesis
    proof (cases "sint d > 0")
      case True
      then obtain t where "charge_ram cn n d acc db = Inr (db1, t)" using ch False by auto
      from charge_ram_effect[OF ok ne acc this] obtain dbp r used
        where "gas_paid cn n (int (used - r)) db dbp" "int (used - r) \<le> core_balance cn db n"
          "core_rows db1 = core_rows dbp" and g: "limits_table db1 (gas_account_name cn) = limits_table db (gas_account_name cn)"
          and "unat (total_gas_consumed (limits_state db1)) = unat (total_gas_consumed (limits_state db)) + used" .
      then have "tokens_conserved cn db db'" using charged_conserves[OF ok ne, of used r dbp db'] d by simp
      then show ?thesis using un d g by (simp add: gas_account_unlimited_def)
    next
      case neg: False
      then obtain t where "refund_ram n (- d) acc db = Inr (db1, t)" using ch False by auto
      then have "core_rows db1 = core_rows db" "limits_state db1 = limits_state db"
        "limits_table db1 (gas_account_name cn) = limits_table db (gas_account_name cn)"
        using acc ne by (auto simp: refund_ram_def res_simps set_reserved_gas)
      then show ?thesis using d tokens_untouched[OF ok, of db'] un by (simp add: gas_account_unlimited_def)
    qed
  qed
qed

lemma resource_step_conserves:
  assumes inv: "resource_inv cn db" and st: "resource_step cn op db = Inr db'"
  shows "tokens_conserved cn db db' \<and> gas_account_unlimited cn db'"
proof -
  have ok: "token_rows_ok cn db" and un: "gas_account_unlimited cn db" using inv by (simp_all add: resource_inv_def)
  note same = tokens_untouched[OF ok, of db']
  show ?thesis
  proof (cases op)
    case (Initialize_account n)
    then show ?thesis using st same un by (auto simp: initialize_account_def res_simps gas_account_unlimited_def)
  next
    case (Set_account_limits n g l)
    then show ?thesis using st same un by (auto simp: set_account_limits_def res_simps gas_account_unlimited_def)
  next
    case (Set_block_parameters cfg cpu net)
    then show ?thesis using st same un
      by (auto simp: set_block_parameters_def res_simps gas_account_unlimited_def Let_def split: if_splits)
  next
    case (Add_transaction_usage ru)
    then show ?thesis using st transaction_step_conserves[OF inv] by (auto simp: res_simps)
  next
    case (Add_ram_usage n d)
    then show ?thesis using st ram_step_conserves[OF inv] by (auto simp: res_simps)
  next
    case (Process_block_usage num)
    then show ?thesis using st same un
      by (auto simp: process_block_usage_def update_virtual_cpu_limit_def update_virtual_net_limit_def res_simps gas_account_unlimited_def Let_def)
  qed
qed

lemma resource_run_simps [simp]:
  "resource_run cn [] db = db"
  "resource_run cn (op # ops) db = resource_run cn ops (case resource_step cn op db of Inl _ \<Rightarrow> db | Inr db' \<Rightarrow> db')"
  by (simp_all add: resource_run_def)

lemma resource_run_conserves:
  "resource_inv cn db \<Longrightarrow> tokens_conserved cn db (resource_run cn ops db) \<and> gas_account_unlimited cn (resource_run cn ops db)"
proof (induction ops arbitrary: db)
  case Nil
  then show ?case using tokens_untouched[of cn db db] by (simp add: resource_inv_def)
next
  case (Cons op ops)
  show ?case
  proof (cases "resource_step cn op db")
    case (Inl e)
    then show ?thesis using Cons by simp
  next
    case (Inr db')
    note st = resource_step_conserves[OF Cons.prems Inr]
    then have "resource_inv cn db'" by (simp add: resource_inv_def tokens_conserved_def)
    from Cons.IH[OF this] st Inr show ?thesis using tokens_conserved_trans by auto
  qed
qed

section \<open>Totals of the accounts\<close>

text \<open>Adding up a counter over the rows of a table.\<close>

definition table_sum :: "('r \<Rightarrow> nat) \<Rightarrow> (name \<Rightarrow> 'r option) \<Rightarrow> nat" where
  "table_sum f t = (\<Sum>n\<in>dom t. f (the (t n)))"

lemma table_sum_insert: "finite (dom t) \<Longrightarrow> t n = None \<Longrightarrow> table_sum f (t(n \<mapsto> y)) = table_sum f t + f y"
proof -
  assume *: "finite (dom t)" "t n = None"
  then have "(\<Sum>k\<in>dom t. f (the ((t(n \<mapsto> y)) k))) = (\<Sum>k\<in>dom t. f (the (t k)))" by (intro sum.cong) auto
  with * show ?thesis by (simp add: table_sum_def domIff)
qed

lemma table_sum_update:
  assumes "finite (dom t)" and "t n = Some x"
  shows "table_sum f (t(n \<mapsto> y)) + f x = table_sum f t + f y"
proof -
  let ?t = "t(n := None)"
  have f: "finite (dom ?t)" "?t n = None" using assms(1) by simp_all
  have x: "t(n \<mapsto> x) = t" using assms(2) by (simp add: fun_upd_idem)
  note ins = table_sum_insert[OF f, of f, unfolded fun_upd_upd]
  show ?thesis using ins[of y] ins[of x, unfolded x] by linarith
qed

definition usage_inv :: "resource_db \<Rightarrow> bool" where
  "usage_inv db \<longleftrightarrow>
     finite (dom (usage_table db)) \<and>
     table_sum (\<lambda>u. unat (cpu_usage u)) (usage_table db) = unat (total_cpu_usage (limits_state db)) \<and>
     table_sum (\<lambda>u. unat (net_usage u)) (usage_table db) = unat (total_net_usage (limits_state db)) \<and>
     table_sum (\<lambda>u. unat (ram_usage u)) (usage_table db) = unat (total_ram_usage (limits_state db)) \<and>
     total_ram_usage (limits_state db) \<le> max_total_ram_usage (global_configuration db)"

text \<open>Charging and refunding gas change no usage.\<close>

definition usage_frame :: "resource_db \<Rightarrow> resource_db \<Rightarrow> bool" where
  "usage_frame db db' \<longleftrightarrow> usage_table db' = usage_table db \<and> global_configuration db' = global_configuration db \<and>
     total_cpu_usage (limits_state db') = total_cpu_usage (limits_state db) \<and> total_net_usage (limits_state db') = total_net_usage (limits_state db) \<and>
     total_ram_usage (limits_state db') = total_ram_usage (limits_state db)"

lemma usage_frame_inv: "usage_frame db db' \<Longrightarrow> usage_inv db \<Longrightarrow> usage_inv db'"
  by (simp add: usage_frame_def usage_inv_def)

lemma bind_resE: "bind_res m f = Inr y \<Longrightarrow> (\<And>x. m = Inr x \<Longrightarrow> f x = Inr y \<Longrightarrow> P) \<Longrightarrow> P"
  by (auto simp: bind_res_Inr_iff)

lemma pay_gas_frame: "pay_gas cn c g db = Inr db' \<Longrightarrow> \<exists>rows. db' = db\<lparr>core_rows := rows\<rparr>"
  by (auto simp: pay_gas_def core_asset_account_save_def res_simps)

lemma charge_transaction_frame:
  "charge_transaction cn ru acc db = Inr (db1, ru', u, t) \<Longrightarrow>
    usage_table db1 = usage_table db \<and> global_configuration db1 = global_configuration db"
  by (auto simp: charge_transaction_def res_simps Let_def set_reserved_gas split: if_splits option.splits dest!: pay_gas_frame)

lemma pay_ram_frame: "pay_ram cn cgs conv used r db = Inr x \<Longrightarrow> \<exists>rows. fst x = db\<lparr>core_rows := rows\<rparr>"
  by (auto simp: pay_ram_def res_simps split: if_splits option.splits dest!: pay_gas_frame)
    (metis resource_db.surjective resource_db.update_convs(5))+

lemma charge_ram_frame: "charge_ram cn n d acc db = Inr (db1, t) \<Longrightarrow> usage_frame db db1"
  unfolding charge_ram_def Let_def pay_ram_def[symmetric]
  by (elim bind_resE, drule pay_ram_frame) (auto elim!: bind_resE simp: usage_frame_def set_reserved_gas split: prod.splits)

lemma refund_ram_frame: "refund_ram n d acc db = Inr (db1, t) \<Longrightarrow> usage_frame db db1"
  by (auto simp: refund_ram_def res_simps usage_frame_def set_reserved_gas)

lemma transaction_step_usage:
  assumes inv: "usage_inv db" and st: "add_transaction_usage cn ru tr db = Inr (db', ru', tr')"
  shows "usage_inv db'"
proof -
  let ?s = "limits_state db"
  obtain us where us: "usage_table db (payer ru) = Some us"
    using st by (auto simp: add_transaction_usage_def table_get_def res_simps split: option.splits)
  let ?u = "us\<lparr>cpu_usage := cpu_usage us + tx_cpu_usage ru, net_usage := net_usage us + tx_net_usage ru\<rparr>"
  have e: "usage_table db' = (usage_table db)(payer ru \<mapsto> ?u) \<and> global_configuration db' = global_configuration db \<and>
      total_cpu_usage (limits_state db') = total_cpu_usage ?s + tx_cpu_usage ru \<and>
      total_net_usage (limits_state db') = total_net_usage ?s + tx_net_usage ru \<and>
      total_ram_usage (limits_state db') = total_ram_usage ?s \<and>
      unat (total_cpu_usage ?s) + unat (tx_cpu_usage ru) < 2 ^ 64 \<and> unat (total_net_usage ?s) + unat (tx_net_usage ru) < 2 ^ 64 \<and>
      unat (cpu_usage us) + unat (tx_cpu_usage ru) < 2 ^ 64 \<and> unat (net_usage us) + unat (tx_net_usage ru) < 2 ^ 64"
    using st us by (auto simp: add_transaction_usage_def table_get_def res_simps Let_def verify_add_eq
      split: option.splits if_splits dest: charge_transaction_frame)
  have fin: "finite (dom (usage_table db))" using inv by (simp add: usage_inv_def)
  note upd = table_sum_update[OF fin us, of _ ?u]
  show ?thesis
    using inv e upd[of "\<lambda>u. unat (cpu_usage u)"] upd[of "\<lambda>u. unat (net_usage u)"] upd[of "\<lambda>u. unat (ram_usage u)"]
    by (simp add: usage_inv_def unat_add_word)
qed

lemma ram_delta_words:
  fixes a b d :: u64
  assumes "if sint d > 0 then unat a + unat d < 2 ^ 64 \<and> unat b + unat d < 2 ^ 64 else - d \<le> a \<and> - d \<le> b" and "d \<noteq> 0"
  shows "unat (a + d) + unat b = unat (b + d) + unat a"
proof (cases "sint d > 0")
  case True
  then show ?thesis using assms by (simp add: unat_add_word)
next
  case False
  then have "- d \<le> a" "- d \<le> b" using assms(1) by simp_all
  then have "unat (a - (- d)) = unat a - unat (- d)" "unat (b - (- d)) = unat b - unat (- d)" "unat (- d) \<le> unat a" "unat (- d) \<le> unat b"
    using unat_sub[of "- d" a] unat_sub[of "- d" b] unfolding word_le_nat_alt by blast+
  then show ?thesis by simp
qed

lemma ram_step_usage:
  assumes inv: "usage_inv db" and st: "add_ram_usage cn n d tr db = Inr (db', tr')"
  shows "usage_inv db'"
proof (cases "d = 0")
  case True
  then show ?thesis using st inv by (simp add: add_ram_usage_def)
next
  case False
  from add_ram_usage_inverse[OF st False] obtain us acc db1 where us: "usage_table db n = Some us"
    and ch: "if is_unlimited acc then db1 = db
      else \<exists>t. (if sint d > 0 then charge_ram cn n d acc db else refund_ram n (- d) acc db) = Inr (db1, t)"
    and db': "db' = db1\<lparr>usage_table := (usage_table db1)(n \<mapsto> us\<lparr>ram_usage := ram_usage us + d\<rparr>),
       limits_state := (limits_state db1)\<lparr>total_ram_usage := total_ram_usage (limits_state db1) + d\<rparr>\<rparr>"
    and rng: "if sint d > 0 then unat (ram_usage us) + unat d < 2 ^ 64 \<and> unat (total_ram_usage (limits_state db1)) + unat d < 2 ^ 64
      else - d \<le> ram_usage us \<and> - d \<le> total_ram_usage (limits_state db1)"
    and le: "total_ram_usage (limits_state db1) + d \<le> max_total_ram_usage (global_configuration db)" .
  have fr: "usage_frame db db1" using ch by (auto simp: usage_frame_def[of db db] split: if_splits dest: charge_ram_frame refund_ram_frame)
  have inv1: "usage_inv db1" by (rule usage_frame_inv[OF fr inv])
  have us1: "usage_table db1 n = Some us" and cfg: "global_configuration db1 = global_configuration db" using fr us by (simp_all add: usage_frame_def)
  have fin: "finite (dom (usage_table db1))" using inv1 by (simp add: usage_inv_def)
  note upd = table_sum_update[OF fin us1, of _ "us\<lparr>ram_usage := ram_usage us + d\<rparr>"]
  show ?thesis
    using inv1 le cfg ram_delta_words[OF rng False]
      upd[of "\<lambda>u. unat (cpu_usage u)"] upd[of "\<lambda>u. unat (net_usage u)"] upd[of "\<lambda>u. unat (ram_usage u)"]
    by (simp add: usage_inv_def db')
qed

lemma resource_step_usage:
  assumes inv: "usage_inv db" and st: "resource_step cn op db = Inr db'"
  shows "usage_inv db'"
proof (cases op)
  case (Initialize_account n)
  have fin: "finite (dom (usage_table db))" using inv by (simp add: usage_inv_def)
  then show ?thesis using st inv Initialize_account
    by (auto simp: initialize_account_def res_simps usage_inv_def table_sum_insert)
next
  case (Set_account_limits n g l)
  then show ?thesis using st inv by (auto simp: set_account_limits_def res_simps usage_inv_def)
next
  case (Set_block_parameters cfg cpu net)
  then show ?thesis using st inv by (auto simp: set_block_parameters_def res_simps usage_inv_def Let_def split: if_splits)
next
  case (Add_transaction_usage ru)
  then show ?thesis using st transaction_step_usage[OF inv] by (auto simp: res_simps)
next
  case (Add_ram_usage n d)
  then show ?thesis using st ram_step_usage[OF inv] by (auto simp: res_simps)
next
  case (Process_block_usage num)
  then show ?thesis using st inv
    by (auto simp: process_block_usage_def update_virtual_cpu_limit_def update_virtual_net_limit_def res_simps usage_inv_def Let_def)
qed

text \<open>A run in which contracts change the rows of the core token in any way between the operations.\<close>

definition contract_run :: "chain_names \<Rightarrow> ((name \<Rightarrow> u8 list option) \<times> resource_op) list \<Rightarrow> resource_db \<Rightarrow> resource_db" where
  "contract_run cn ops db =
     fold (\<lambda>(rows, op) db. resource_run cn [op] (db\<lparr>core_rows := rows\<rparr>)) ops db"

lemma contract_run_usage: "usage_inv db \<Longrightarrow> usage_inv (contract_run cn ops db)"
proof (induction ops arbitrary: db)
  case (Cons op ops)
  obtain rows o' where op: "op = (rows, o')" by (cases op)
  have "usage_inv (db\<lparr>core_rows := rows\<rparr>)" using Cons.prems by (simp add: usage_inv_def)
  then have "usage_inv (resource_run cn [o'] (db\<lparr>core_rows := rows\<rparr>))" using resource_step_usage by (auto split: sum.split)
  from Cons.IH[OF this] show ?case by (simp add: contract_run_def op)
qed (simp add: contract_run_def)

lemma initialize_database_usage: "usage_inv (initialize_database cfg)"
  by (simp add: usage_inv_def table_sum_def initialize_database_def initialize_state_def Let_def)

section \<open>Properties\<close>

text \<open>
  C39. Gas payments neither create nor destroy core tokens. Let every token row be readable and the balances add up to at most the
  largest amount of an asset, and let the system gas account, if it has a row, be unlimited. Then after any sequence of operations of the
  resource manager, failing ones included, the supply is unchanged, no account other than the system gas account has
  more tokens than before, and the system gas account has gained at most the gas that was counted as consumed.
\<close>

theorem gas_tokens_conserved:
  assumes "token_rows_ok cn db" and "gas_account_unlimited cn db"
  shows "let db' = resource_run cn ops db; sys = gas_account_name cn in
    (\<Sum>n\<in>dom (core_rows db'). core_balance cn db' n) = (\<Sum>n\<in>dom (core_rows db). core_balance cn db n) \<and>
    (\<forall>n. n \<noteq> sys \<longrightarrow> core_balance cn db' n \<le> core_balance cn db n) \<and> core_balance cn db sys \<le> core_balance cn db' sys \<and>
    core_balance cn db' sys - core_balance cn db sys \<le>
      int (unat (total_gas_consumed (limits_state db'))) - int (unat (total_gas_consumed (limits_state db))) \<and>
    token_rows_ok cn db' \<and> gas_account_unlimited cn db'"
  using resource_run_conserves[of cn db ops] assms by (simp add: Let_def tokens_conserved_def core_supply_def resource_inv_def)

theorem gas_tokens_conserved_witness:
  "\<exists>db'. resource_run example_names [Add_transaction_usage example_transaction, Add_ram_usage 2 5] example_db = db' \<and>
     (\<Sum>n\<in>dom (core_rows db'). core_balance example_names db' n) = 1005 \<and>
     core_balance example_names db' 2 \<le> 1000 \<and> 5 \<le> core_balance example_names db' 1"
proof -
  have un: "gas_account_unlimited example_names example_db" by (simp add: gas_account_unlimited_def example_names_def example_db_def)
  have gn: "gas_account_name example_names = 1" by (simp add: example_names_def)
  have d: "dom (core_rows example_db) = {1, 2}" by (auto simp: example_db_def)
  have b: "core_balance example_names example_db n = (if n = 1 then 5 else if n = 2 then 1000 else 0)" for n
    by (simp add: core_balance_def example_accounts)
  note c = gas_tokens_conserved[OF example_rows_ok un, of "[Add_transaction_usage example_transaction, Add_ram_usage 2 5]", unfolded Let_def gn d b]
  have "core_balance example_names (resource_run example_names [Add_transaction_usage example_transaction, Add_ram_usage 2 5] example_db) 2 \<le> 1000"
    using c by (auto dest: spec[of _ 2])
  then show ?thesis using c by auto
qed

text \<open>
  C40. The totals are the sums of the accounts. Start with the database that \<^verbatim>\<open>initialize_database\<close> creates and run any sequence of operations of the
  resource manager, failing ones included, with a fixed chain configuration, while contracts change the token rows in any way.
  Then the CPU, network and memory usages of the accounts add up, without wrapping, to the totals of the state object, and the total memory is within the limit of
  the configuration.
\<close>

theorem usage_totals_are_sums:
  "let db = contract_run cn ops (initialize_database cfg); accounts = dom (usage_table db); usage = (\<lambda>n. the (usage_table db n)) in
    finite accounts \<and>
    (\<Sum>n\<in>accounts. unat (cpu_usage (usage n))) = unat (total_cpu_usage (limits_state db)) \<and>
    (\<Sum>n\<in>accounts. unat (net_usage (usage n))) = unat (total_net_usage (limits_state db)) \<and>
    (\<Sum>n\<in>accounts. unat (ram_usage (usage n))) = unat (total_ram_usage (limits_state db)) \<and>
    total_ram_usage (limits_state db) \<le> max_total_ram_usage (global_configuration db)"
  using contract_run_usage[OF initialize_database_usage, of cn ops cfg] unfolding Let_def usage_inv_def table_sum_def by blast

end
