(* ===== verification/Spec2Isabelle.thy ===== *)
theory Spec2Isabelle
  imports Finality_Core Qc_Aggregation Header_Agreement Block_Chain Crash_Safety Savanna_Liveness Fork_Database Chain_Name Chain_Asset Gas_Conservation
begin

text \<open>
  A verification of the consensus core and the gas accounting of the flon-core node. File names below are relative to
  src/libraries/chain, its headers in include/eosio/chain, unless they start with libfc.

  \<^bold>\<open>The program.\<close> A node extends a chain of blocks under the Savanna consensus. Every block carries a block header state, computed from that
  of its parent, with a finality core (which earlier block its latest quorum certificate is for, and which block is therefore final),
  the finalizer policy that votes on the block, and policies that are proposed or pending. Finalizers run the
  voting rule on each block and sign strong or weak votes; nodes aggregate the votes of a block into a quorum certificate; a later block
  claims the certificate, and two claims in a row make a block final. What a finalizer voted for is kept in a file that survives
  crashes. The blocks that are not final yet are held in the fork database. Transactions are charged in gas, which is reserved for an
  account or paid in the core token.

  \<^bold>\<open>Conventions.\<close> Integers of the sources are words of their width; where a claim is about numbers, \<open>unat\<close> and \<open>sint\<close> read them. A violated
  \<^verbatim>\<open>assert\<close> is \<open>None\<close>, an exception is \<open>Inl\<close> of the constructor of \<open>chain_error\<close> named after it, undefined behaviour is the error
  \<open>undefined_behaviour\<close>. Classes are records with the members of the source, shared pointers whose identity matters carry an
  address. Calls that change state take and return it. Hashing, signatures, their aggregation, the checksum of the safety file and
  constants that the build generates are arguments of the definitions; what the theorems need of them are hypotheses
  (\<open>bls_correct\<close> for the aggregation of signatures, round trips for foreign codecs).

  \<^bold>\<open>Theories.\<close>
  \<^item> \<open>Prelude\<close>: machine integers, the two failure monads with the collection \<open>res_simps\<close>, errors, lemmas on lists and words.
  \<^item> \<open>Block_Types\<close>: block identifiers (block_header.cpp, libfc sha256) and block times (block_timestamp.hpp).
  \<^item> \<open>Merkle\<close>: merkle.hpp and incremental_merkle.hpp. The incremental tree and the batch root agree.
  \<^item> \<open>Finality_Core\<close>: finality/finality_core.hpp and .cpp, every operation. The asserted invariants hold, no assertion fires, and the window
    agrees with the two-chain rule on the complete history.
  \<^item> \<open>Ordered_Diff\<close>, \<open>Policies\<close>: libfc ordered_diff.hpp, finality/finalizer_policy.hpp, finality/proposer_policy.hpp, producer_schedule.hpp and
    the check of \<^verbatim>\<open>set_finalizers\<close>. Differences of policies are applied exactly, quorums overlap, and key weights are counted exactly.
  \<^item> \<open>Quorum_Cert\<close>, \<open>Aggregating_Qc\<close>, \<open>Qc_Aggregation\<close>, \<open>Dual_Qc\<close>: finality/qc.hpp and qc.cpp. What a verified certificate guarantees, the
    invariant of the vote aggregation for any sequence of votes and received certificates, that assembled certificates verify under one policy,
    and exactly when they do under an active and a pending one.
  \<^item> \<open>Block_Header_State\<close>, \<open>Policy_History\<close>, \<open>Header_Agreement\<close>: block_header_state.hpp and .cpp, block_header_state_utils.hpp. The life of a
    finalizer policy from proposal to activation over any chain from the genesis block, the policies recovered for a certificate, and
    the agreement of the node that assembles a header with those that receive it.
  \<^item> \<open>Block_State\<close>, \<open>Block_Chain\<close>: block_state.hpp and .cpp, block.hpp and block.cpp. The validation trees, certificates verified by
    descendants, and signatures of blocks.
  \<^item> \<open>Finalizer\<close>, \<open>Chain_Tree\<close>, \<open>Vote_Safety\<close>, \<open>Savanna_Safety\<close>, \<open>Savanna_Liveness\<close>: the voting rule (finality/finalizer.hpp and .cpp). A block is
    identified with the branch of header states that leads to it, and the decision is stated over branches. \<open>Vote_Safety\<close> has the
    safety argument over the locales \<open>block_tree\<close> and \<open>voter\<close>, which \<open>Savanna_Safety\<close> interprets on branches and on
    \<^verbatim>\<open>decide_vote\<close>: under one policy final blocks never conflict. \<open>Savanna_Liveness\<close> shows that voting never gets stuck on a growing branch, and that a
    strong quorum finalizes, also when a policy is pending.
  \<^item> \<open>Raw\<close>, \<open>Std_Map\<close>, \<open>Raw_Containers\<close>, \<open>Finality_Codec\<close>: libfc raw.hpp and the field lists of the consensus types. The locale \<open>codec\<close> is the contract of a
    packer and a reader, interpreted on every pair.
  \<^item> \<open>Safety_File\<close>, \<open>My_Finalizers\<close>, \<open>Crash_Safety\<close>: the safety file and the class \<^verbatim>\<open>my_finalizers_t\<close> (finality/finalizer.cpp), and the life of
    a node as a step relation with failing writes, crashes and restarts.
  \<^item> \<open>Fork_Database\<close>: fork_database.hpp and .cpp for Savanna blocks. The database is a tree over its root after any calls; each query and removal is
    exact; closing and opening keeps it, up to the members that are not serialized.
  \<^item> \<open>Chain_Name\<close>, \<open>Chain_Asset\<close>: name.hpp, name.cpp, symbol.hpp, asset.hpp. Texts of names, typed arithmetic of assets.
  \<^item> \<open>Resource_Limits\<close>, \<open>Gas_Accounting\<close>, \<open>Gas_Conservation\<close>: resource_limits.cpp with its headers and the token rows of contract_table_utils.cpp.
    The charge of a transaction, with the locale \<open>account_store\<close> for the rows, the conservation of tokens over runs, and the totals.

  \<^bold>\<open>Loops.\<close> Loops are structural recursion or functions with a termination proof; no definition has fuel. The loops of the fork database
  follow links between blocks and need not end in an arbitrary database: they are partial functions, and it is proved that they return in every
  database the calls can build.

  \<^bold>\<open>Bounds.\<close> A policy has at most \<open>max_finalizers\<close> finalizers with a total weight below \<open>2 ^ 64\<close>, as \<^verbatim>\<open>set_finalizers\<close> enforces
  (\<open>policy_ok\<close>). Vectors that are compared by \<^verbatim>\<open>ordered_diff\<close> have indices of 16 bits. The supply of the core token is a valid amount.

  \<^bold>\<open>Not modelled.\<close> The controller, transaction execution, WebAssembly, permissions, protocol feature bookkeeping, the plugins and programs: they
  consist of effects on the state database, threads, sockets and third-party virtual machines. The legacy consensus before Savanna and the
  wrapper of the fork database that holds both kinds of blocks. Locks: every call is one step. Snapshots, the block log and other file formats except the
  safety file. Text forms of assets, which use a third-party conversion. Safety is shown under one finalizer policy; the hand-over between policies is
  covered by the life of policies, not by the safety argument.
\<close>

end
